(* ===== verification/Prelude.thy ===== *)
theory Prelude
  imports Main "HOL-Library.Word" "HOL-Library.Multiset"
begin

unbundle bit_operations_syntax

text \<open>
  Shared vocabulary of the development: names for the machine integers of the Rust sources, the
  \<open>Result\<close> type of Rust as a sum whose left side is the error, the saturating and checked
  operations of the standard library on unsigned words, the number of one bits of a natural number,
  and the generic list facts that several components use.
\<close>

type_synonym u8 = "8 word"
type_synonym u16 = "16 word"
type_synonym u32 = "32 word"
type_synonym u64 = "64 word"
type_synonym bytes = "u8 list"

named_theorems word_nat "translation of unsigned word operations to natural numbers"

section \<open>Results\<close>

text \<open>
  \<open>rbind x f\<close> is the question mark operator: the first error is returned, a value goes on to the
  rest of the function.
\<close>

definition rbind :: "'e + 'a \<Rightarrow> ('a \<Rightarrow> 'e + 'b) \<Rightarrow> 'e + 'b" where
  "rbind x f = (case x of Inl e \<Rightarrow> Inl e | Inr v \<Rightarrow> f v)"

definition map_err :: "('e \<Rightarrow> 'f) \<Rightarrow> 'e + 'a \<Rightarrow> 'f + 'a" where
  "map_err g x = (case x of Inl e \<Rightarrow> Inl (g e) | Inr v \<Rightarrow> Inr v)"

definition is_ok :: "'e + 'a \<Rightarrow> bool" where
  "is_ok x = (case x of Inl _ \<Rightarrow> False | Inr _ \<Rightarrow> True)"

lemma rbind_simps [simp]:
  "rbind (Inl e) f = Inl e"
  "rbind (Inr v) f = f v"
  by (simp_all add: rbind_def)

lemma map_err_simps [simp]:
  "map_err g (Inl e) = Inl (g e)"
  "map_err g (Inr v) = Inr v"
  by (simp_all add: map_err_def)

lemma is_ok_simps [simp]:
  "\<not> is_ok (Inl e)"
  "is_ok (Inr v)"
  by (simp_all add: is_ok_def)

lemma rbind_eq_Inr: "rbind x f = Inr v \<longleftrightarrow> (\<exists>u. x = Inr u \<and> f u = Inr v)"
  by (cases x) simp_all

lemma rbind_eq_Inl: "rbind x f = Inl e \<longleftrightarrow> x = Inl e \<or> (\<exists>u. x = Inr u \<and> f u = Inl e)"
  by (cases x) simp_all

lemma map_err_eq_Inr [simp]: "map_err g x = Inr v \<longleftrightarrow> x = Inr v"
  by (cases x) simp_all

lemma rbind_assoc: "rbind (rbind x f) g = rbind x (\<lambda>v. rbind (f v) g)"
  by (cases x) simp_all

lemma is_ok_eq: "is_ok x \<longleftrightarrow> (\<exists>v. x = Inr v)"
  by (cases x) simp_all

section \<open>Unsigned machine arithmetic\<close>

definition sat_add :: "'a::len word \<Rightarrow> 'a word \<Rightarrow> 'a word" where
  "sat_add a b = (if unat a + unat b < 2 ^ LENGTH('a) then a + b else - 1)"

definition sat_sub :: "'a::len word \<Rightarrow> 'a word \<Rightarrow> 'a word" where
  "sat_sub a b = (if a < b then 0 else a - b)"

definition sat_mul :: "'a::len word \<Rightarrow> 'a word \<Rightarrow> 'a word" where
  "sat_mul a b = (if unat a * unat b < 2 ^ LENGTH('a) then a * b else - 1)"

lemma unat_less_2p: "unat w < 2 ^ LENGTH('a)"
  for w :: "'a::len word"
  by (rule unsigned_less)

lemma unat_max_word [word_nat]: "unat (- 1 :: 'a::len word) = 2 ^ LENGTH('a) - 1"
  by (simp add: unsigned_minus_1_eq_mask mask_eq_exp_minus_1)

lemma unat_sat_add [word_nat]:
  "unat (sat_add a b) = min (unat a + unat b) (2 ^ LENGTH('a) - 1)"
  for a b :: "'a::len word"
proof (cases "unat a + unat b < 2 ^ LENGTH('a)")
  case True
  then show ?thesis by (simp add: sat_add_def unat_word_ariths)
next
  case False
  then have "2 ^ LENGTH('a) - 1 \<le> unat a + unat b" by linarith
  then show ?thesis using False by (simp add: sat_add_def unat_max_word min_absorb2)
qed

lemma unat_sat_sub [word_nat]: "unat (sat_sub a b) = unat a - unat b"
  for a b :: "'a::len word"
proof (cases "a < b")
  case True
  then show ?thesis by (simp add: sat_sub_def word_less_nat_alt)
next
  case False
  then have "b \<le> a" by simp
  then show ?thesis using False by (simp add: sat_sub_def unat_sub)
qed

lemma unat_sat_mul [word_nat]:
  "unat (sat_mul a b) = min (unat a * unat b) (2 ^ LENGTH('a) - 1)"
  for a b :: "'a::len word"
proof (cases "unat a * unat b < 2 ^ LENGTH('a)")
  case True
  then show ?thesis by (simp add: sat_mul_def unat_word_ariths)
next
  case False
  then have "2 ^ LENGTH('a) - 1 \<le> unat a * unat b" by linarith
  then show ?thesis using False by (simp add: sat_mul_def unat_max_word min_absorb2)
qed

section \<open>One bits of a natural number\<close>

fun count_ones :: "nat \<Rightarrow> nat" where
  "count_ones n = (if n = 0 then 0 else n mod 2 + count_ones (n div 2))"

declare count_ones.simps [simp del]

lemma count_ones_0 [simp]: "count_ones 0 = 0"
  by (simp add: count_ones.simps)

lemma count_ones_double [simp]: "count_ones (2 * n) = count_ones n"
  by (cases "n = 0") (simp_all add: count_ones.simps [of "2 * n"])

lemma count_ones_Suc_double [simp]: "count_ones (Suc (2 * n)) = Suc (count_ones n)"
  by (simp add: count_ones.simps [of "Suc (2 * n)"])

lemma count_ones_1 [simp]: "count_ones (Suc 0) = Suc 0"
  using count_ones_Suc_double [of 0] by simp

lemma count_ones_le: "count_ones n \<le> n"
proof (induction n rule: count_ones.induct)
  case (1 n)
  show ?case
  proof (cases "n = 0")
    case False
    then have "count_ones n \<le> n mod 2 + n div 2"
      using 1 by (simp add: count_ones.simps [of n])
    also have "\<dots> \<le> n" by arith
    finally show ?thesis .
  qed simp
qed

lemma count_ones_shift: "count_ones (m * 2 ^ k) = count_ones m"
proof (induction k)
  case (Suc k)
  have "m * 2 ^ Suc k = 2 * (m * 2 ^ k)" by simp
  then show ?case using Suc by (simp only: count_ones_double)
qed simp

text \<open>Splitting a number at bit \<open>k\<close> adds the one bits of the two parts.\<close>

lemma count_ones_split: "m < 2 ^ k \<Longrightarrow> count_ones (j * 2 ^ k + m) = count_ones j + count_ones m"
proof (induction k arbitrary: m)
  case 0
  then show ?case by simp
next
  case (Suc k)
  define q where "q = m div 2"
  have q: "q < 2 ^ k" using Suc.prems by (simp add: q_def less_mult_imp_div_less)
  show ?case
  proof (cases "even m")
    case True
    then have m: "m = 2 * q" by (simp add: q_def)
    have "j * 2 ^ Suc k + m = 2 * (j * 2 ^ k + q)" by (simp add: m)
    then show ?thesis using Suc.IH [OF q] m by (simp only: count_ones_double)
  next
    case False
    then have m: "m = Suc (2 * q)" by (simp add: q_def)
    have "j * 2 ^ Suc k + m = Suc (2 * (j * 2 ^ k + q))" by (simp add: m)
    then show ?thesis using Suc.IH [OF q] m by (simp only: count_ones_Suc_double)
  qed
qed

lemma count_ones_pow2_minus_1: "count_ones (2 ^ k - 1) = k"
proof (induction k)
  case (Suc k)
  have "(2::nat) ^ Suc k - 1 = Suc (2 * (2 ^ k - 1))"
    by (induction k) auto
  then show ?case using Suc by (simp only: count_ones_Suc_double)
qed simp

section \<open>Lists and options\<close>

text \<open>\<open>filter_map\<close> of Rust's iterators.\<close>

definition filter_map :: "('a \<Rightarrow> 'b option) \<Rightarrow> 'a list \<Rightarrow> 'b list" where
  "filter_map f xs = List.map_filter f xs"

lemma filter_map_simps [simp]:
  "filter_map f [] = []"
  "filter_map f (x # xs) = (case f x of None \<Rightarrow> filter_map f xs | Some y \<Rightarrow> y # filter_map f xs)"
  by (simp_all add: filter_map_def List.map_filter_def split: option.splits)

lemma filter_map_append [simp]: "filter_map f (xs @ ys) = filter_map f xs @ filter_map f ys"
  by (induction xs) (auto split: option.splits)

lemma filter_map_all_Some:
  "(\<And>x. x \<in> set xs \<Longrightarrow> f x = Some (g x)) \<Longrightarrow> filter_map f xs = map g xs"
  by (induction xs) simp_all

lemma filter_map_cong:
  "(\<And>x. x \<in> set xs \<Longrightarrow> f x = g x) \<Longrightarrow> filter_map f xs = filter_map g xs"
  by (induction xs) (simp_all split: option.splits)

text \<open>\<open>slice.get\<close>: a read that may be out of range.\<close>

definition vec_get :: "'a list \<Rightarrow> nat \<Rightarrow> 'a option" where
  "vec_get xs i = (if i < length xs then Some (xs ! i) else None)"

lemma vec_get_append: "vec_get (xs @ ys) i = (if i < length xs then vec_get xs i else vec_get ys (i - length xs))"
  by (auto simp: vec_get_def nth_append)

lemma vec_get_take: "i < n \<Longrightarrow> vec_get (take n xs) i = vec_get xs i"
  by (simp add: vec_get_def)

text \<open>Adjacent pairs, \<open>slice.windows(2)\<close>.\<close>

fun windows2 :: "'a list \<Rightarrow> ('a \<times> 'a) list" where
  "windows2 (x # y # zs) = (x, y) # windows2 (y # zs)"
| "windows2 _ = []"

lemma windows2_all_iff:
  assumes "transp R"
  shows "(\<forall>(x, y) \<in> set (windows2 xs). R x y) \<longleftrightarrow> sorted_wrt R xs"
proof (induction xs rule: windows2.induct)
  case (1 x y zs)
  have "sorted_wrt R (x # y # zs) \<longleftrightarrow> R x y \<and> sorted_wrt R (y # zs)"
    using assms by (auto dest: transpD)
  with 1 show ?case by auto
qed simp_all

text \<open>\<open>Option::unwrap_or\<close>.\<close>

definition unwrap_or :: "'a \<Rightarrow> 'a option \<Rightarrow> 'a" where
  "unwrap_or d x = (case x of None \<Rightarrow> d | Some y \<Rightarrow> y)"

end
