(* ===== verification/Ser.thy ===== *)
theory Ser
  imports Prelude "HOL-Library.List_Lexorder"
begin

text \<open>
  Binary serialization, \<open>core/src/ser.rs\<close>: the integer encoders of the \<open>Writer\<close> trait, the two
  readers (\<open>BinReader\<close> over a buffer and \<open>StreamingReader\<close> with its count of bytes), the counted
  reader \<open>read_multi\<close>, the sortedness check, and the codecs of the fixed-size cryptographic types.
  A write function returns the bytes it appends to the sink; errors of the sink itself are not
  modelled. A read function takes the reader state and returns an error, or the value and the new
  state. Every pair of a writer and a reader is an instance of the locale \<open>codec\<close> below.
\<close>

section \<open>Integers as bytes\<close>

primrec le_bytes :: "nat \<Rightarrow> nat \<Rightarrow> bytes" where
  "le_bytes 0 n = []"
| "le_bytes (Suc k) n = of_nat (n mod 256) # le_bytes k (n div 256)"

primrec le_val :: "bytes \<Rightarrow> nat" where
  "le_val [] = 0"
| "le_val (b # bs) = unat b + 256 * le_val bs"

definition be_bytes :: "nat \<Rightarrow> nat \<Rightarrow> bytes" where
  "be_bytes k n = rev (le_bytes k n)"

definition be_val :: "bytes \<Rightarrow> nat" where
  "be_val bs = le_val (rev bs)"

lemma length_le_bytes [simp]: "length (le_bytes k n) = k"
  by (induction k arbitrary: n) simp_all

lemma length_be_bytes [simp]: "length (be_bytes k n) = k"
  by (simp add: be_bytes_def)

lemma unat_of_nat_byte: "unat (of_nat (n mod 256) :: u8) = n mod 256"
  by (simp add: unat_of_nat)

lemma le_val_le_bytes: "le_val (le_bytes k n) = n mod 256 ^ k"
proof (induction k arbitrary: n)
  case (Suc k)
  have "n mod 256 + 256 * (n div 256 mod 256 ^ k) = n mod 256 ^ Suc k"
    by (simp add: mod_mult2_eq)
  then show ?case using Suc by (simp add: unat_of_nat_byte)
qed simp

lemma be_val_be_bytes: "be_val (be_bytes k n) = n mod 256 ^ k"
  by (simp add: be_val_def be_bytes_def le_val_le_bytes)

lemma le_bytes_le_val: "le_bytes (length bs) (le_val bs) = bs"
proof (induction bs)
  case (Cons b bs)
  have "unat b < 256" using unat_less_2p [of b] by simp
  then have "(unat b + 256 * le_val bs) mod 256 = unat b" "(unat b + 256 * le_val bs) div 256 = le_val bs"
    by simp_all
  with Cons show ?case by simp
qed simp

lemma be_bytes_be_val: "length bs = k \<Longrightarrow> be_bytes k (be_val bs) = bs"
  using le_bytes_le_val [of "rev bs"] by (auto simp: be_bytes_def be_val_def)

lemma le_val_less: "le_val bs < 256 ^ length bs"
proof (induction bs)
  case (Cons b bs)
  have "unat b < 256" using unat_less_2p [of b] by simp
  with Cons show ?case by simp
qed simp

lemma be_val_less: "be_val bs < 256 ^ length bs"
  using le_val_less [of "rev bs"] by (simp add: be_val_def)

text \<open>A word as wide as the byte string comes back unchanged.\<close>

lemma word_of_be_bytes:
  fixes w :: "'a::len word"
  assumes "LENGTH('a) = 8 * k"
  shows "of_nat (be_val (be_bytes k (unat w))) = w"
proof -
  have "(256::nat) ^ k = 2 ^ LENGTH('a)" by (simp add: assms power_mult)
  then have "unat w mod 256 ^ k = unat w" using unat_less_2p [of w] by simp
  then show ?thesis by (simp add: be_val_be_bytes)
qed

lemma word_of_le_bytes:
  fixes w :: "'a::len word"
  assumes "LENGTH('a) = 8 * k"
  shows "of_nat (le_val (le_bytes k (unat w))) = w"
  using word_of_be_bytes [OF assms, of w] by (simp add: be_bytes_def be_val_def)

section \<open>Errors, versions and readers\<close>

datatype error_kind = UnexpectedEof | OtherIo

datatype ser_error =
    IOErr error_kind
  | UnexpectedData bytes bytes
  | CorruptedData
  | CountError
  | TooLargeReadErr
  | HexError string
  | SortError
  | DuplicateError
  | InvalidBlockVersion

datatype serialization_mode = FullMode | HashMode

type_synonym version = u32

definition PROTOCOL_VERSION :: version where
  "PROTOCOL_VERSION = 2"

definition version_local :: version where
  "version_local = PROTOCOL_VERSION"

definition version_local_db :: version where
  "version_local_db = 1"

text \<open>
  \<open>BinReader\<close> and \<open>StreamingReader\<close> differ in the limit on a single read and in the running count;
  both consume bytes from the front of their source.
\<close>

datatype reader_kind = BinReader | StreamingReader

record reader =
  rd_kind :: reader_kind
  rd_source :: bytes
  rd_version :: version
  total_bytes_read :: u64

definition BinReader_new :: "bytes \<Rightarrow> version \<Rightarrow> reader" where
  "BinReader_new src v =
    \<lparr>rd_kind = BinReader, rd_source = src, rd_version = v, total_bytes_read = 0\<rparr>"

definition StreamingReader_new :: "bytes \<Rightarrow> version \<Rightarrow> reader" where
  "StreamingReader_new src v =
    \<lparr>rd_kind = StreamingReader, rd_source = src, rd_version = v, total_bytes_read = 0\<rparr>"

type_synonym 'a parse = "ser_error + 'a \<times> reader"

definition count_read :: "nat \<Rightarrow> reader \<Rightarrow> reader" where
  "count_read n r = (case rd_kind r of BinReader \<Rightarrow> r
     | StreamingReader \<Rightarrow> r\<lparr>total_bytes_read := total_bytes_read r + of_nat n\<rparr>)"

text \<open>\<open>read_exact\<close> of the standard library, with the streaming reader's accounting.\<close>

definition read_exact :: "reader \<Rightarrow> nat \<Rightarrow> bytes parse" where
  "read_exact r n =
    (if length (rd_source r) < n then Inl (IOErr UnexpectedEof)
     else Inr (take n (rd_source r), count_read n (r\<lparr>rd_source := drop n (rd_source r)\<rparr>)))"

definition read_fixed_bytes :: "reader \<Rightarrow> nat \<Rightarrow> bytes parse" where
  "read_fixed_bytes r len =
    (case rd_kind r of
       BinReader \<Rightarrow> if len > 100000 then Inl TooLargeReadErr else read_exact r len
     | StreamingReader \<Rightarrow> read_exact r len)"

definition read_be :: "nat \<Rightarrow> reader \<Rightarrow> ('a::len word) parse" where
  "read_be k r = rbind (read_exact r k) (\<lambda>(b, r). Inr (of_nat (be_val b), r))"

definition read_le :: "nat \<Rightarrow> reader \<Rightarrow> ('a::len word) parse" where
  "read_le k r = rbind (read_exact r k) (\<lambda>(b, r). Inr (of_nat (le_val b), r))"

definition read_u8 :: "reader \<Rightarrow> u8 parse" where "read_u8 = read_be 1"
definition read_u16 :: "reader \<Rightarrow> u16 parse" where "read_u16 = read_be 2"
definition read_u16_le :: "reader \<Rightarrow> u16 parse" where "read_u16_le = read_le 2"
definition read_u32 :: "reader \<Rightarrow> u32 parse" where "read_u32 = read_be 4"
definition read_u32_le :: "reader \<Rightarrow> u32 parse" where "read_u32_le = read_le 4"
definition read_u64 :: "reader \<Rightarrow> u64 parse" where "read_u64 = read_be 8"
definition read_u64_le :: "reader \<Rightarrow> u64 parse" where "read_u64_le = read_le 8"

text \<open>The signed readers return the same bits; the sign is in how \<open>sint\<close> reads the word.\<close>

definition read_i32 :: "reader \<Rightarrow> u32 parse" where "read_i32 = read_be 4"
definition read_i32_le :: "reader \<Rightarrow> u32 parse" where "read_i32_le = read_le 4"
definition read_i64 :: "reader \<Rightarrow> u64 parse" where "read_i64 = read_be 8"
definition read_i64_le :: "reader \<Rightarrow> u64 parse" where "read_i64_le = read_le 8"

definition read_bytes_len_prefix :: "reader \<Rightarrow> bytes parse" where
  "read_bytes_len_prefix r =
    rbind (read_u64 r) (\<lambda>(len, r). read_fixed_bytes (count_read 8 r) (unat len))"

definition expect_u8 :: "reader \<Rightarrow> u8 \<Rightarrow> u8 parse" where
  "expect_u8 r val =
    rbind (read_u8 r) (\<lambda>(b, r). if b = val then Inr (b, r) else Inl (UnexpectedData [val] [b]))"

section \<open>Writers\<close>

definition write_u8 :: "u8 \<Rightarrow> bytes" where "write_u8 n = be_bytes 1 (unat n)"
definition write_u16 :: "u16 \<Rightarrow> bytes" where "write_u16 n = be_bytes 2 (unat n)"
definition write_u16_le :: "u16 \<Rightarrow> bytes" where "write_u16_le n = le_bytes 2 (unat n)"
definition write_u32 :: "u32 \<Rightarrow> bytes" where "write_u32 n = be_bytes 4 (unat n)"
definition write_u32_le :: "u32 \<Rightarrow> bytes" where "write_u32_le n = le_bytes 4 (unat n)"
definition write_i32 :: "u32 \<Rightarrow> bytes" where "write_i32 n = be_bytes 4 (unat n)"
definition write_i32_le :: "u32 \<Rightarrow> bytes" where "write_i32_le n = le_bytes 4 (unat n)"
definition write_u64 :: "u64 \<Rightarrow> bytes" where "write_u64 n = be_bytes 8 (unat n)"
definition write_u64_le :: "u64 \<Rightarrow> bytes" where "write_u64_le n = le_bytes 8 (unat n)"
definition write_i64 :: "u64 \<Rightarrow> bytes" where "write_i64 n = be_bytes 8 (unat n)"
definition write_i64_le :: "u64 \<Rightarrow> bytes" where "write_i64_le n = le_bytes 8 (unat n)"

definition write_bytes :: "bytes \<Rightarrow> bytes" where
  "write_bytes bs = write_u64 (of_nat (length bs)) @ bs"

text \<open>\<open>Writeable for Vec\<close>: the elements one after the other, without a count.\<close>

definition write_vec :: "('a \<Rightarrow> bytes) \<Rightarrow> 'a list \<Rightarrow> bytes" where
  "write_vec wr xs = concat (map wr xs)"

section \<open>Counted reads\<close>

text \<open>
  \<open>IteratingReader\<close>: up to \<open>count\<close> reads, stopping at the first that fails. What is left in the
  reader after a failure is not used, since \<open>read_multi\<close> then reports an error.
\<close>

primrec iterating_read :: "(reader \<Rightarrow> 'a parse) \<Rightarrow> nat \<Rightarrow> reader \<Rightarrow> 'a list \<times> reader" where
  "iterating_read rd 0 r = ([], r)"
| "iterating_read rd (Suc k) r =
    (case rd r of
       Inl _ \<Rightarrow> ([], r)
     | Inr (x, r') \<Rightarrow> let (xs, r'') = iterating_read rd k r' in (x # xs, r''))"

definition read_multi :: "(reader \<Rightarrow> 'a parse) \<Rightarrow> reader \<Rightarrow> u64 \<Rightarrow> 'a list parse" where
  "read_multi rd r cnt =
    (if cnt > 1000000 then Inl TooLargeReadErr
     else let (res, r') = iterating_read rd (unat cnt) r
          in if (of_nat (length res) :: u64) \<noteq> cnt then Inl CountError else Inr (res, r'))"

definition deserialize :: "(reader \<Rightarrow> 'a parse) \<Rightarrow> bytes \<Rightarrow> version \<Rightarrow> ser_error + 'a" where
  "deserialize rd src v = rbind (rd (BinReader_new src v)) (\<lambda>(x, _). Inr x)"

definition ser_vec :: "(version \<Rightarrow> 'a \<Rightarrow> bytes) \<Rightarrow> 'a \<Rightarrow> version \<Rightarrow> bytes" where
  "ser_vec wr x v = wr v x"

fun verify_pairs :: "('h::linorder \<times> 'h) list \<Rightarrow> ser_error + unit" where
  "verify_pairs [] = Inr ()"
| "verify_pairs ((a, b) # ps) =
    (if a > b then Inl SortError else if a = b then Inl DuplicateError else verify_pairs ps)"

definition verify_sorted_and_unique :: "('a \<Rightarrow> 'h::linorder) \<Rightarrow> 'a list \<Rightarrow> ser_error + unit" where
  "verify_sorted_and_unique hash_of xs = verify_pairs (windows2 (map hash_of xs))"

section \<open>Codecs\<close>

text \<open>
  \<open>adv r n rest\<close> is the reader that started as \<open>r\<close>, has consumed \<open>n\<close> bytes, and has \<open>rest\<close> in
  front of it.
\<close>

definition adv :: "reader \<Rightarrow> nat \<Rightarrow> bytes \<Rightarrow> reader" where
  "adv r n rest = count_read n (r\<lparr>rd_source := rest\<rparr>)"

lemma adv_simps [simp]:
  "rd_source (adv r n rest) = rest"
  "rd_version (adv r n rest) = rd_version r"
  "rd_kind (adv r n rest) = rd_kind r"
  "count_read m (adv r n rest) = adv r (n + m) rest"
  by (simp_all add: adv_def count_read_def split: reader_kind.splits)

lemma adv_source [simp]: "(adv r n rest)\<lparr>rd_source := rest'\<rparr> = adv r n rest'"
  by (simp add: adv_def count_read_def split: reader_kind.splits)

lemma adv_0: "adv r 0 (rd_source r) = r"
  by (simp add: adv_def count_read_def split: reader_kind.splits)

lemma total_bytes_read_adv:
  "rd_kind r = StreamingReader \<Longrightarrow> total_bytes_read (adv r n rest) = total_bytes_read r + of_nat n"
  by (simp add: adv_def count_read_def)

lemma read_exact_adv [simp]:
  "length bs = k \<Longrightarrow> read_exact (adv r n (bs @ rest)) k = Inr (bs, adv r (n + k) rest)"
  by (simp add: read_exact_def)

lemma read_fixed_bytes_adv [simp]:
  "length bs = k \<Longrightarrow> k \<le> 100000 \<Longrightarrow>
     read_fixed_bytes (adv r n (bs @ rest)) k = Inr (bs, adv r (n + k) rest)"
  by (simp add: read_fixed_bytes_def split: reader_kind.splits)

text \<open>
  The contract of a serializable type: for well-formed values, reading what was written under the
  reader's protocol version gives the value back, consumes exactly those bytes, and leaves the rest.
\<close>

locale codec =
  fixes wr :: "version \<Rightarrow> 'a \<Rightarrow> bytes"
    and rd :: "reader \<Rightarrow> 'a parse"
    and wf :: "version \<Rightarrow> 'a \<Rightarrow> bool"
  assumes rd_wr: "wf (rd_version r) x \<Longrightarrow>
    rd (adv r n (wr (rd_version r) x @ rest)) = Inr (x, adv r (n + length (wr (rd_version r) x)) rest)"
begin

lemma deserialize_ser_vec: "wf v x \<Longrightarrow> deserialize rd (ser_vec wr x v @ rest) v = Inr x"
  using rd_wr [of "BinReader_new [] v" x 0 rest]
  by (simp add: deserialize_def ser_vec_def adv_def count_read_def BinReader_new_def)

lemma streaming_count:
  assumes "wf v x" "rd (StreamingReader_new (wr v x @ rest) v) = Inr (y, r)"
  shows "y = x \<and> total_bytes_read r = of_nat (length (wr v x)) \<and> rd_source r = rest"
  using assms rd_wr [of "StreamingReader_new [] v" x 0 rest]
  by (simp add: adv_def count_read_def StreamingReader_new_def)

lemma iterating_read_wr:
  assumes "\<And>x. x \<in> set xs \<Longrightarrow> wf (rd_version r) x"
  shows "iterating_read rd (length xs) (adv r n (write_vec (wr (rd_version r)) xs @ rest))
    = (xs, adv r (n + length (write_vec (wr (rd_version r)) xs)) rest)"
  using assms
proof (induction xs arbitrary: n)
  case (Cons x xs)
  then show ?case using rd_wr [of r x n] by (simp add: write_vec_def add.assoc)
qed (simp add: write_vec_def)

lemma read_multi_wr:
  assumes "\<And>x. x \<in> set xs \<Longrightarrow> wf (rd_version r) x" "length xs \<le> 1000000"
  shows "read_multi rd (adv r n (write_vec (wr (rd_version r)) xs @ rest)) (of_nat (length xs))
    = Inr (xs, adv r (n + length (write_vec (wr (rd_version r)) xs)) rest)"
proof -
  have len: "unat (of_nat (length xs) :: u64) = length xs"
    using assms(2) by (simp add: unat_of_nat)
  then have "\<not> (of_nat (length xs) :: u64) > 1000000"
    using assms(2) by (simp add: word_less_nat_alt)
  then show ?thesis using iterating_read_wr [OF assms(1)] len by (simp add: read_multi_def)
qed

text \<open>Encodings are prefix-free: two values written at the front of the same bytes are equal.\<close>

lemma wr_prefix_inj:
  assumes "wf v x" "wf v y" "wr v x @ a = wr v y @ b"
  shows "x = y \<and> a = b"
proof -
  let ?r = "BinReader_new [] v"
  have v: "rd_version ?r = v" by (simp add: BinReader_new_def)
  have "Inr (x, adv ?r (length (wr v x)) a) = Inr (y, adv ?r (length (wr v y)) b)"
    using rd_wr [of ?r x 0 a] rd_wr [of ?r y 0 b] assms v by simp
  then show ?thesis by (metis Inr_inject Pair_inject adv_simps(1))
qed

end

section \<open>Primitive codecs\<close>

lemma read_be_adv:
  assumes "LENGTH('a::len) = 8 * k"
  shows "read_be k (adv r n (be_bytes k (unat w) @ rest)) = Inr (w :: 'a word, adv r (n + k) rest)"
  using word_of_be_bytes [OF assms, of w] by (simp add: read_be_def)

lemma read_le_adv:
  assumes "LENGTH('a::len) = 8 * k"
  shows "read_le k (adv r n (le_bytes k (unat w) @ rest)) = Inr (w :: 'a word, adv r (n + k) rest)"
  using word_of_le_bytes [OF assms, of w] by (simp add: read_le_def)

lemma length_write_int [simp]:
  "length (write_u8 a) = 1" "length (write_u16 b) = 2" "length (write_u16_le b) = 2"
  "length (write_u32 c) = 4" "length (write_u32_le c) = 4"
  "length (write_i32 c) = 4" "length (write_i32_le c) = 4"
  "length (write_u64 d) = 8" "length (write_u64_le d) = 8"
  "length (write_i64 d) = 8" "length (write_i64_le d) = 8"
  by (simp_all add: write_u8_def write_u16_def write_u16_le_def write_u32_def write_u32_le_def
      write_i32_def write_i32_le_def write_u64_def write_u64_le_def write_i64_def write_i64_le_def)

lemma read_write_int [simp]:
  "read_u8 (adv r n (write_u8 a @ rest)) = Inr (a, adv r (n + 1) rest)"
  "read_u16 (adv r n (write_u16 b @ rest)) = Inr (b, adv r (n + 2) rest)"
  "read_u16_le (adv r n (write_u16_le b @ rest)) = Inr (b, adv r (n + 2) rest)"
  "read_u32 (adv r n (write_u32 c @ rest)) = Inr (c, adv r (n + 4) rest)"
  "read_u32_le (adv r n (write_u32_le c @ rest)) = Inr (c, adv r (n + 4) rest)"
  "read_i32 (adv r n (write_i32 c @ rest)) = Inr (c, adv r (n + 4) rest)"
  "read_i32_le (adv r n (write_i32_le c @ rest)) = Inr (c, adv r (n + 4) rest)"
  "read_u64 (adv r n (write_u64 d @ rest)) = Inr (d, adv r (n + 8) rest)"
  "read_u64_le (adv r n (write_u64_le d @ rest)) = Inr (d, adv r (n + 8) rest)"
  "read_i64 (adv r n (write_i64 d @ rest)) = Inr (d, adv r (n + 8) rest)"
  "read_i64_le (adv r n (write_i64_le d @ rest)) = Inr (d, adv r (n + 8) rest)"
  unfolding write_u8_def write_u16_def write_u16_le_def write_u32_def write_u32_le_def
    write_i32_def write_i32_le_def write_u64_def write_u64_le_def write_i64_def write_i64_le_def
    read_u8_def read_u16_def read_u16_le_def read_u32_def read_u32_le_def
    read_i32_def read_i32_le_def read_u64_def read_u64_le_def read_i64_def read_i64_le_def
  by (rule read_be_adv read_le_adv, simp)+

interpretation u8c: codec "\<lambda>_. write_u8" read_u8 "\<lambda>_ _. True"
  by unfold_locales simp

interpretation u16c: codec "\<lambda>_. write_u16" read_u16 "\<lambda>_ _. True"
  by unfold_locales simp

interpretation u32c: codec "\<lambda>_. write_u32" read_u32 "\<lambda>_ _. True"
  by unfold_locales simp

interpretation u64c: codec "\<lambda>_. write_u64" read_u64 "\<lambda>_ _. True"
  by unfold_locales simp

interpretation i64c: codec "\<lambda>_. write_i64" read_i64 "\<lambda>_ _. True"
  by unfold_locales simp

section \<open>Cryptographic types\<close>

text \<open>
  Sizes fixed by the \<open>secp256k1zkp\<close> crate. They are not part of this code base, so every definition
  that depends on them takes them as a parameter.
\<close>

record secp_sizes =
  PEDERSEN_COMMITMENT_SIZE :: nat
  MAX_PROOF_SIZE :: nat
  AGG_SIGNATURE_SIZE :: nat
  SECRET_KEY_SIZE :: nat

type_synonym hash = bytes
type_synonym commitment = bytes
type_synonym blinding_factor = bytes
type_synonym signature = bytes

record range_proof =
  plen :: nat
  proof_bytes :: bytes

definition hash_LEN :: nat where
  "hash_LEN = 32"

definition ZERO_HASH :: hash where
  "ZERO_HASH = replicate hash_LEN 0"

definition write_hash :: "hash \<Rightarrow> bytes" where
  "write_hash h = h"

definition read_hash :: "reader \<Rightarrow> hash parse" where
  "read_hash r = read_fixed_bytes r hash_LEN"

definition write_commitment :: "commitment \<Rightarrow> bytes" where
  "write_commitment c = c"

definition read_commitment :: "secp_sizes \<Rightarrow> reader \<Rightarrow> commitment parse" where
  "read_commitment K r = read_fixed_bytes r (PEDERSEN_COMMITMENT_SIZE K)"

definition write_blinding :: "blinding_factor \<Rightarrow> bytes" where
  "write_blinding b = b"

definition read_blinding :: "secp_sizes \<Rightarrow> reader \<Rightarrow> blinding_factor parse" where
  "read_blinding K r = read_fixed_bytes r (SECRET_KEY_SIZE K)"

definition write_signature :: "signature \<Rightarrow> bytes" where
  "write_signature s = s"

definition read_signature :: "secp_sizes \<Rightarrow> reader \<Rightarrow> signature parse" where
  "read_signature K r = read_fixed_bytes r (AGG_SIGNATURE_SIZE K)"

definition write_range_proof :: "range_proof \<Rightarrow> bytes" where
  "write_range_proof p = write_bytes (take (plen p) (proof_bytes p))"

definition read_range_proof :: "secp_sizes \<Rightarrow> reader \<Rightarrow> range_proof parse" where
  "read_range_proof K r =
    rbind (read_u64 r) (\<lambda>(len, r).
      let max_len = min (unat len) (MAX_PROOF_SIZE K) in
      rbind (read_fixed_bytes r max_len) (\<lambda>(p, r).
        Inr (\<lparr>plen = MAX_PROOF_SIZE K, proof_bytes = p @ replicate (MAX_PROOF_SIZE K - length p) 0\<rparr>, r)))"

text \<open>\<open>BigUint\<close>: big-endian bytes without leading zeros, one zero byte for zero, after their count.\<close>

fun to_bytes_le :: "nat \<Rightarrow> bytes" where
  "to_bytes_le n = (if n < 256 then [of_nat n] else of_nat (n mod 256) # to_bytes_le (n div 256))"

declare to_bytes_le.simps [simp del]

definition to_bytes_be :: "nat \<Rightarrow> bytes" where
  "to_bytes_be n = rev (to_bytes_le n)"

definition write_biguint :: "nat \<Rightarrow> bytes" where
  "write_biguint n = (let data = to_bytes_be n in write_u32 (of_nat (length data)) @ write_vec write_u8 data)"

definition read_biguint :: "reader \<Rightarrow> nat parse" where
  "read_biguint r =
    rbind (read_u32 r) (\<lambda>(len, r).
      rbind (read_multi read_u8 r (ucast len)) (\<lambda>(data, r). Inr (be_val data, r)))"

text \<open>
  \<open>PMMRIndexHashable\<close>: the hash of the pair of the index and the value, with the digest function
  \<open>blake\<close> (BLAKE2b with 32 bytes of output) as a parameter.
\<close>

definition hash_with_index :: "(bytes \<Rightarrow> hash) \<Rightarrow> bytes \<Rightarrow> nat \<Rightarrow> hash" where
  "hash_with_index blake x index = blake (write_u64 (of_nat index) @ x)"

section \<open>Round trips of the cryptographic types\<close>

definition fixed_ok :: "nat \<Rightarrow> bytes \<Rightarrow> bool" where
  "fixed_ok k b \<longleftrightarrow> length b = k \<and> k \<le> 100000"

definition range_proof_ok :: "secp_sizes \<Rightarrow> range_proof \<Rightarrow> bool" where
  "range_proof_ok K p \<longleftrightarrow> plen p = MAX_PROOF_SIZE K \<and> fixed_ok (MAX_PROOF_SIZE K) (proof_bytes p)"

interpretation hashc: codec "\<lambda>_. write_hash" read_hash "\<lambda>_ h. length h = 32"
  by unfold_locales (simp add: write_hash_def read_hash_def hash_LEN_def)

interpretation commitc: codec "\<lambda>_. write_commitment" "read_commitment K"
  "\<lambda>_. fixed_ok (PEDERSEN_COMMITMENT_SIZE K)" for K
  by unfold_locales (simp add: write_commitment_def read_commitment_def fixed_ok_def)

interpretation blindc: codec "\<lambda>_. write_blinding" "read_blinding K"
  "\<lambda>_. fixed_ok (SECRET_KEY_SIZE K)" for K
  by unfold_locales (simp add: write_blinding_def read_blinding_def fixed_ok_def)

interpretation sigc: codec "\<lambda>_. write_signature" "read_signature K"
  "\<lambda>_. fixed_ok (AGG_SIGNATURE_SIZE K)" for K
  by unfold_locales (simp add: write_signature_def read_signature_def fixed_ok_def)

lemma unat_of_nat_u64: "n < 2 ^ 64 \<Longrightarrow> unat (of_nat n :: u64) = n"
  by (simp add: unat_of_nat)

interpretation rangec: codec "\<lambda>_. write_range_proof" "read_range_proof K" "\<lambda>_. range_proof_ok K" for K
proof
  fix r :: reader and x :: range_proof and n :: nat and rest :: bytes
  assume "range_proof_ok K x"
  then have ok: "plen x = MAX_PROOF_SIZE K" "length (proof_bytes x) = MAX_PROOF_SIZE K" "MAX_PROOF_SIZE K \<le> 100000"
    by (simp_all add: range_proof_ok_def fixed_ok_def)
  then show "read_range_proof K (adv r n (write_range_proof x @ rest))
      = Inr (x, adv r (n + length (write_range_proof x)) rest)"
    by (simp add: read_range_proof_def write_range_proof_def write_bytes_def unat_of_nat_u64 add.assoc)
qed

lemma le_val_to_bytes_le: "le_val (to_bytes_le n) = n"
proof (induction n rule: to_bytes_le.induct)
  case (1 n)
  show ?case
  proof (cases "n < 256")
    case True
    then show ?thesis by (simp add: to_bytes_le.simps [of n] unat_of_nat)
  next
    case False
    then have "le_val (to_bytes_le n) = n mod 256 + 256 * (n div 256)"
      using 1 by (simp add: to_bytes_le.simps [of n] unat_of_nat_byte)
    then show ?thesis by simp
  qed
qed

lemma be_val_to_bytes_be: "be_val (to_bytes_be n) = n"
  by (simp add: be_val_def to_bytes_be_def le_val_to_bytes_le)

interpretation bigc: codec "\<lambda>_. write_biguint" read_biguint "\<lambda>_ n. length (to_bytes_be n) \<le> 1000000"
proof
  fix r :: reader and x n :: nat and rest :: bytes
  let ?d = "to_bytes_be x"
  assume len: "length ?d \<le> 1000000"
  have "ucast (of_nat (length ?d) :: u32) = (of_nat (length ?d) :: u64)"
    using len by (simp add: word_eq_iff_unsigned unsigned_ucast_eq unsigned_of_nat take_bit_nat_eq_self)
  then have "read_multi read_u8 (adv r (n + 4) (write_vec write_u8 ?d @ rest)) (ucast (of_nat (length ?d) :: u32))
    = Inr (?d, adv r (n + 4 + length (write_vec write_u8 ?d)) rest)"
    using u8c.read_multi_wr [of ?d r "n + 4" rest] len by simp
  then show "read_biguint (adv r n (write_biguint x @ rest)) = Inr (x, adv r (n + length (write_biguint x)) rest)"
    by (simp add: read_biguint_def write_biguint_def Let_def be_val_to_bytes_be add.assoc)
qed

section \<open>Properties\<close>

lemma verify_pairs_ok: "verify_pairs ps = Inr () \<longleftrightarrow> (\<forall>(a, b) \<in> set ps. a < b)"
  by (induction ps rule: verify_pairs.induct) (auto simp: not_less_iff_gr_or_eq)

lemma iterating_read_length: "length (fst (iterating_read rd k r)) \<le> k"
  by (induction k arbitrary: r) (auto split: sum.splits simp: Let_def case_prod_beta)

text \<open>The values come from consecutive reads, each starting where the one before ended.\<close>

inductive reads :: "(reader \<Rightarrow> 'a parse) \<Rightarrow> reader \<Rightarrow> 'a list \<Rightarrow> reader \<Rightarrow> bool" for rd where
  reads_Nil: "reads rd r [] r"
| reads_Cons: "rd r = Inr (x, r') \<Longrightarrow> reads rd r' xs r'' \<Longrightarrow> reads rd r (x # xs) r''"

inductive_cases reads_ConsE: "reads rd r (x # xs) r''"
inductive_cases reads_NilE: "reads rd r [] r''"

lemma iterating_read_reads:
  "length (fst (iterating_read rd k r)) = k \<Longrightarrow>
     reads rd r (fst (iterating_read rd k r)) (snd (iterating_read rd k r))"
proof (induction k arbitrary: r)
  case (Suc k)
  then show ?case by (auto split: sum.splits simp: Let_def case_prod_beta intro: reads.intros)
qed (simp add: reads_Nil)

lemma reads_iterating_read:
  "reads rd r xs r' \<Longrightarrow> iterating_read rd (length xs) r = (xs, r')"
  by (induction rule: reads.induct) simp_all

text \<open>
  A vector passes \<open>verify_sorted_and_unique\<close> exactly when the hashes of its elements are
  strictly increasing; the first offending pair decides between the two errors.
\<close>

theorem verify_sorted_and_unique_correct:
  "verify_sorted_and_unique hash_of xs =
    (case find (\<lambda>(a, b). \<not> a < b) (windows2 (map hash_of xs)) of
       None \<Rightarrow> Inr () | Some (a, b) \<Rightarrow> Inl (if a = b then DuplicateError else SortError))
   \<and> (verify_sorted_and_unique hash_of xs = Inr () \<longleftrightarrow> sorted_wrt (<) (map hash_of xs))"
proof
  have "verify_pairs ps = (case find (\<lambda>(a, b). \<not> a < b) ps of
       None \<Rightarrow> Inr () | Some (a, b) \<Rightarrow> Inl (if a = b then DuplicateError else SortError))"
    for ps :: "('b \<times> 'b) list"
    by (induction ps rule: verify_pairs.induct) auto
  then show "verify_sorted_and_unique hash_of xs =
    (case find (\<lambda>(a, b). \<not> a < b) (windows2 (map hash_of xs)) of
       None \<Rightarrow> Inr () | Some (a, b) \<Rightarrow> Inl (if a = b then DuplicateError else SortError))"
    by (simp add: verify_sorted_and_unique_def)
  show "verify_sorted_and_unique hash_of xs = Inr () \<longleftrightarrow> sorted_wrt (<) (map hash_of xs)"
    using windows2_all_iff [of "(<)" "map hash_of xs"]
    by (simp add: verify_sorted_and_unique_def verify_pairs_ok)
qed

text \<open>
  \<open>read_multi\<close> succeeds exactly when the count is at most one million and that many
  consecutive reads succeed; it then returns their values in order. Otherwise it reports
  \<open>TooLargeReadErr\<close> for the count and \<open>CountError\<close> for a failing element.
\<close>

theorem read_multi_correct:
  "(read_multi rd r cnt = Inr (xs, r') \<longleftrightarrow>
      cnt \<le> 1000000 \<and> reads rd r xs r' \<and> length xs = unat cnt)
   \<and> (read_multi rd r cnt = Inl e \<longleftrightarrow>
      (if cnt > 1000000 then e = TooLargeReadErr
       else e = CountError \<and> (\<nexists>xs r'. reads rd r xs r' \<and> length xs = unat cnt)))"
proof (cases "cnt > 1000000")
  case True
  then show ?thesis by (auto simp: read_multi_def)
next
  case False
  let ?i = "iterating_read rd (unat cnt) r"
  have "length (fst ?i) \<le> unat cnt" by (rule iterating_read_length)
  then have "length (fst ?i) < 2 ^ 64" using unat_less_2p [of cnt] by simp
  then have ne: "(of_nat (length (fst ?i)) :: u64) = cnt \<longleftrightarrow> length (fst ?i) = unat cnt"
    using unat_of_nat_u64 [of "length (fst ?i)"] by auto
  have rds: "reads rd r ys r'' \<and> length ys = unat cnt \<longleftrightarrow> ?i = (ys, r'') \<and> length (fst ?i) = unat cnt" for ys r''
    using iterating_read_reads [of rd "unat cnt" r] reads_iterating_read [of rd r ys r''] by (metis fst_conv snd_conv)
  show ?thesis using False ne rds by (cases ?i) (auto simp: read_multi_def)
qed



end
