(* ===== verification/Pmmr_Pos.thy ===== *)
theory Pmmr_Pos
  imports Prelude
begin

text \<open>
  Positions of a Merkle Mountain Range, the free functions at the end of
  \<open>core/src/core/pmmr/pmmr.rs\<close>. Nodes are numbered from 1 in postorder. Positions are \<open>u64\<close> in the
  source and natural numbers here: the functions only subtract what they have compared before and
  add at most twice a subtree size, so below \<open>2^62\<close> nothing wraps. \<open>leading_zeros\<close> and the all-ones
  word keep the width 64.

  The reference model is a numbering by coordinates: the node of height \<open>h\<close> and index \<open>j\<close> covers
  the leaves \<open>j * 2^h\<close> up to \<open>(j + 1) * 2^h - 1\<close>. Every function is shown to agree with the
  arithmetic of these coordinates.
\<close>

section \<open>Definitions\<close>

definition ALL_ONES :: nat where
  "ALL_ONES = 2 ^ 64 - 1"

fun bit_len :: "nat \<Rightarrow> nat" where
  "bit_len n = (if n = 0 then 0 else Suc (bit_len (n div 2)))"

declare bit_len.simps [simp del]

definition leading_zeros :: "nat \<Rightarrow> nat" where
  "leading_zeros n = 64 - bit_len n"

text \<open>The shared start of the three loops, \<open>ALL_ONES >> num.leading_zeros()\<close>.\<close>

definition first_peak_size :: "nat \<Rightarrow> nat" where
  "first_peak_size num = drop_bit (leading_zeros num) ALL_ONES"

fun peaks_loop :: "nat \<Rightarrow> nat \<Rightarrow> nat \<Rightarrow> nat list \<Rightarrow> nat \<times> nat list" where
  "peaks_loop peak_size num_left sum_prev_peaks acc =
    (if peak_size = 0 then (num_left, acc)
     else if num_left \<ge> peak_size
       then peaks_loop (peak_size div 2) (num_left - peak_size) (sum_prev_peaks + peak_size)
              (acc @ [sum_prev_peaks + peak_size])
       else peaks_loop (peak_size div 2) num_left sum_prev_peaks acc)"

definition peaks :: "nat \<Rightarrow> nat list" where
  "peaks num =
    (if num = 0 then []
     else let (num_left, ps) = peaks_loop (first_peak_size num) num 0 []
          in if num_left > 0 then [] else ps)"

fun peak_sizes_loop :: "nat \<Rightarrow> nat \<Rightarrow> nat list \<Rightarrow> nat list \<times> nat" where
  "peak_sizes_loop peak_size size_left sizes =
    (if peak_size = 0 then (sizes, size_left)
     else if size_left \<ge> peak_size
       then peak_sizes_loop (peak_size div 2) (size_left - peak_size) (sizes @ [peak_size])
       else peak_sizes_loop (peak_size div 2) size_left sizes)"

definition peak_sizes_height :: "nat \<Rightarrow> nat list \<times> nat" where
  "peak_sizes_height sz =
    (if sz = 0 then ([], 0) else peak_sizes_loop (first_peak_size sz) sz [])"

definition n_leaves :: "nat \<Rightarrow> nat" where
  "n_leaves sz =
    (let (sizes, height) = peak_sizes_height sz;
         nleaves = sum_list (map (\<lambda>n. (n + 1) div 2) sizes)
     in if height = 0 then nleaves else nleaves + 1)"

definition insertion_to_pmmr_index :: "nat \<Rightarrow> nat" where
  "insertion_to_pmmr_index sz =
    (if sz = 0 then 0 else 2 * (sz - 1) - count_ones (sz - 1) + 1)"

fun peak_map_loop :: "nat \<Rightarrow> nat \<Rightarrow> nat \<Rightarrow> nat \<times> nat" where
  "peak_map_loop peak_size pos bitmap =
    (if peak_size = 0 then (bitmap, pos)
     else if pos \<ge> peak_size
       then peak_map_loop (peak_size div 2) (pos - peak_size) (push_bit 1 bitmap OR 1)
       else peak_map_loop (peak_size div 2) pos (push_bit 1 bitmap))"

definition peak_map_height :: "nat \<Rightarrow> nat \<times> nat" where
  "peak_map_height pos = (if pos = 0 then (0, 0) else peak_map_loop (first_peak_size pos) pos 0)"

definition bintree_postorder_height :: "nat \<Rightarrow> nat" where
  "bintree_postorder_height num = (if num = 0 then 0 else snd (peak_map_height (num - 1)))"

definition is_leaf :: "nat \<Rightarrow> bool" where
  "is_leaf pos \<longleftrightarrow> bintree_postorder_height pos = 0"

definition family :: "nat \<Rightarrow> nat \<times> nat" where
  "family pos =
    (let (peak_map, height) = peak_map_height (pos - 1);
         peak = push_bit height 1
     in if peak_map AND peak \<noteq> 0 then (pos + 1, pos + 1 - 2 * peak)
        else (pos + 2 * peak, pos + 2 * peak - 1))"

definition is_left_sibling :: "nat \<Rightarrow> bool" where
  "is_left_sibling pos =
    (let (peak_map, height) = peak_map_height (pos - 1);
         peak = push_bit height 1
     in peak_map AND peak = 0)"

text \<open>
  In the two climbing loops the local \<open>peak\<close> is always a power of two; the model carries its
  exponent, and the position grows in every round.
\<close>

function path_loop :: "nat \<Rightarrow> nat \<Rightarrow> nat \<Rightarrow> nat \<Rightarrow> nat list" where
  "path_loop peak_map height current last_pos =
    (let peak = push_bit height 1
     in if current \<le> last_pos
        then current # path_loop peak_map (height + 1)
               (current + (if peak_map AND peak \<noteq> 0 then 1 else 2 * peak)) last_pos
        else [])"
  by pat_completeness auto
termination
  by (relation "measure (\<lambda>(_, _, current, last_pos). Suc last_pos - current)")
     (auto simp: push_bit_eq_mult diff_less_mono2)

definition path :: "nat \<Rightarrow> nat \<Rightarrow> nat list" where
  "path pos last_pos =
    (let (peak_map, height) = peak_map_height (pos - 1)
     in path_loop peak_map height pos last_pos)"

function family_branch_loop :: "nat \<Rightarrow> nat \<Rightarrow> nat \<Rightarrow> nat \<Rightarrow> (nat \<times> nat) list" where
  "family_branch_loop peak_map height current last_pos =
    (let peak = push_bit height 1
     in if current < last_pos
        then let current' = (if peak_map AND peak \<noteq> 0 then current + 1 else current + 2 * peak);
                 sibling = (if peak_map AND peak \<noteq> 0 then current' - 2 * peak else current' - 1)
             in if current' > last_pos then []
                else (current', sibling) # family_branch_loop peak_map (height + 1) current' last_pos
        else [])"
  by pat_completeness auto
termination
  by (relation "measure (\<lambda>(_, _, current, last_pos). last_pos - current)")
     (auto simp: push_bit_eq_mult diff_less_mono2)

definition family_branch :: "nat \<Rightarrow> nat \<Rightarrow> (nat \<times> nat) list" where
  "family_branch pos last_pos =
    (let (peak_map, height) = peak_map_height (pos - 1)
     in family_branch_loop peak_map height pos last_pos)"

definition bintree_rightmost :: "nat \<Rightarrow> nat" where
  "bintree_rightmost num = num - bintree_postorder_height num"

definition bintree_leftmost :: "nat \<Rightarrow> nat" where
  "bintree_leftmost num = num + 2 - push_bit (bintree_postorder_height num) 2"

declare peaks_loop.simps [simp del] peak_sizes_loop.simps [simp del] peak_map_loop.simps [simp del]
declare path_loop.simps [simp del] family_branch_loop.simps [simp del]

section \<open>Sizes of mountain ranges\<close>

text \<open>\<open>mmr_size n\<close> is the number of nodes of the range with \<open>n\<close> leaves.\<close>

definition mmr_size :: "nat \<Rightarrow> nat" where
  "mmr_size n = 2 * n - count_ones n"

lemma mmr_size_0 [simp]: "mmr_size 0 = 0"
  by (simp add: mmr_size_def)

lemma mmr_size_alt: "mmr_size n + count_ones n = 2 * n"
  using count_ones_le [of n] by (simp add: mmr_size_def)

lemma le_mmr_size: "n \<le> mmr_size n"
  using count_ones_le [of n] by (simp add: mmr_size_def)

lemma count_ones_Suc_le: "count_ones (Suc n) \<le> Suc (count_ones n)"
proof (induction n rule: count_ones.induct)
  case (1 n)
  show ?case
  proof (cases "even n")
    case True
    then obtain m where "n = 2 * m" by (elim evenE)
    then show ?thesis by simp
  next
    case False
    then obtain m where m: "n = 2 * m + 1" by (elim oddE)
    with 1 have "count_ones (Suc m) \<le> Suc (count_ones m)" by simp
    moreover have "Suc n = 2 * Suc m" using m by simp
    then have "count_ones (Suc n) = count_ones (Suc m)" by (simp only: count_ones_double)
    ultimately show ?thesis using m by simp
  qed
qed

lemma mmr_size_less_Suc: "mmr_size n < mmr_size (Suc n)"
  using mmr_size_alt [of n] mmr_size_alt [of "Suc n"] count_ones_Suc_le [of n] by simp

lemma strict_mono_mmr_size: "strict_mono mmr_size"
  by (simp add: strict_mono_Suc_iff mmr_size_less_Suc)

lemmas mmr_size_less_iff [simp] = strict_mono_less [OF strict_mono_mmr_size]
lemmas mmr_size_le_iff [simp] = strict_mono_less_eq [OF strict_mono_mmr_size]
lemmas mmr_size_eq_iff [simp] = strict_mono_eq [OF strict_mono_mmr_size]

lemma mmr_size_split:
  assumes "m < 2 ^ k"
  shows "mmr_size (j * 2 ^ k + m) = mmr_size (j * 2 ^ k) + mmr_size m"
  using mmr_size_alt [of "j * 2 ^ k + m"] mmr_size_alt [of "j * 2 ^ k"] mmr_size_alt [of m]
    count_ones_split [OF assms, of j] count_ones_shift [of j k]
  by simp

lemma mmr_size_pow2: "mmr_size (2 ^ k) = 2 ^ Suc k - 1"
  using count_ones_shift [of 1 k] by (simp add: mmr_size_def)

lemma mmr_size_pow2_plus:
  "m < 2 ^ k \<Longrightarrow> mmr_size (2 ^ k + m) = 2 ^ Suc k - 1 + mmr_size m"
  using mmr_size_split [of m k 1] by (simp add: mmr_size_pow2)

text \<open>Every position lies between the sizes of two consecutive ranges.\<close>

lemma mmr_size_bracket: "\<exists>n. mmr_size n \<le> p \<and> p < mmr_size (Suc n)"
proof (induction p)
  case 0
  show ?case using mmr_size_less_Suc [of 0] by (intro exI [of _ 0]) simp
next
  case (Suc p)
  then obtain n where n: "mmr_size n \<le> p" "p < mmr_size (Suc n)" by blast
  show ?case
  proof (cases "Suc p < mmr_size (Suc n)")
    case True
    with n show ?thesis by (intro exI [of _ n]) simp
  next
    case False
    with n have "Suc p = mmr_size (Suc n)" by simp
    then show ?thesis using mmr_size_less_Suc [of "Suc n"] by (intro exI [of _ "Suc n"]) simp
  qed
qed

section \<open>The loops compute the binary decomposition\<close>

lemma less_2_bit_len: "n < 2 ^ bit_len n"
proof (induction n rule: bit_len.induct)
  case (1 n)
  show ?case
  proof (cases "n = 0")
    case False
    with 1 have "n div 2 < 2 ^ bit_len (n div 2)" by simp
    with False show ?thesis by (simp add: bit_len.simps [of n])
  qed (simp add: bit_len.simps)
qed

lemma bit_len_le: "n < 2 ^ k \<Longrightarrow> bit_len n \<le> k"
proof (induction n arbitrary: k rule: bit_len.induct)
  case (1 n)
  show ?case
  proof (cases "n = 0")
    case False
    then obtain k' where k: "k = Suc k'" using "1.prems" by (cases k) auto
    with 1 False have "bit_len (n div 2) \<le> k'" by (simp add: less_mult_imp_div_less)
    with False k show ?thesis by (simp add: bit_len.simps [of n])
  qed (simp add: bit_len.simps)
qed

lemma first_peak_size_eq:
  assumes "n < 2 ^ 64"
  shows "first_peak_size n = 2 ^ bit_len n - 1"
proof -
  have "bit_len n \<le> 64" using bit_len_le [OF assms] .
  then have "drop_bit (64 - bit_len n) (mask 64 :: nat) = mask (bit_len n)"
    by (simp add: drop_bit_mask_eq)
  then show ?thesis
    by (simp add: first_peak_size_def leading_zeros_def ALL_ONES_def mask_eq_exp_minus_1)
qed

lemma pow2_minus_1_div_2: "(2 ^ Suc k - 1) div 2 = (2 ^ k - 1 :: nat)"
  by (induction k) auto

text \<open>
  \<open>decomp k n p\<close>: the number of leaves \<open>n\<close> is the one that the loop starting with peak size
  \<open>2^k - 1\<close> finds below position \<open>p\<close>.
\<close>

definition decomp :: "nat \<Rightarrow> nat \<Rightarrow> nat \<Rightarrow> bool" where
  "decomp k n p \<longleftrightarrow> n < 2 ^ k \<and> mmr_size n \<le> p \<and> (p < mmr_size (Suc n) \<or> Suc n = 2 ^ k)"

lemma decomp_high:
  assumes "decomp (Suc k) n p" "2 ^ Suc k - 1 \<le> p"
  obtains m where "n = 2 ^ k + m" "m < 2 ^ k" "decomp k m (p - (2 ^ Suc k - 1))"
    "mmr_size n = 2 ^ Suc k - 1 + mmr_size m"
proof -
  have "\<not> n < 2 ^ k"
  proof
    assume n: "n < 2 ^ k"
    then have "p < mmr_size (Suc n)" using assms(1) by (auto simp: decomp_def)
    also have "\<dots> \<le> mmr_size (2 ^ k)" using n by simp
    finally show False using assms(2) by (simp add: mmr_size_pow2)
  qed
  then obtain m where m: "n = 2 ^ k + m" by (metis le_Suc_ex not_le)
  have lt: "m < 2 ^ k" using assms(1) m by (simp add: decomp_def)
  have sz: "mmr_size n = 2 ^ Suc k - 1 + mmr_size m" using mmr_size_pow2_plus [OF lt] m by simp
  have "decomp k m (p - (2 ^ Suc k - 1))"
  proof (cases "Suc m = 2 ^ k")
    case True
    then show ?thesis using assms lt sz by (auto simp: decomp_def)
  next
    case False
    then have "mmr_size (Suc n) = 2 ^ Suc k - 1 + mmr_size (Suc m)"
      using mmr_size_pow2_plus [of "Suc m" k] lt m by simp
    then show ?thesis using assms lt sz m False by (auto simp: decomp_def)
  qed
  with m lt sz show ?thesis using that by blast
qed

lemma decomp_low:
  assumes "decomp (Suc k) n p" "p < 2 ^ Suc k - 1"
  shows "n < 2 ^ k" "decomp k n p"
proof -
  have "mmr_size n < mmr_size (2 ^ k)" using assms by (simp add: decomp_def mmr_size_pow2)
  then show "n < 2 ^ k" by simp
  then show "decomp k n p" using assms(1) by (auto simp: decomp_def)
qed

lemma decomp_0: "decomp 0 n p \<longleftrightarrow> n = 0"
  by (auto simp: decomp_def)

lemma decomp_first:
  assumes "mmr_size n \<le> p" "p < mmr_size (Suc n)"
  shows "decomp (bit_len p) n p"
  using assms le_mmr_size [of n] less_2_bit_len [of p] by (auto simp: decomp_def)

lemma peak_map_loop_eq:
  "decomp k n p \<Longrightarrow> peak_map_loop (2 ^ k - 1) p bm = (bm * 2 ^ k + n, p - mmr_size n)"
proof (induction k arbitrary: n p bm)
  case 0
  then show ?case by (simp add: decomp_0 peak_map_loop.simps)
next
  case (Suc k)
  have nz: "(2::nat) ^ Suc k - 1 \<noteq> 0" by (induction k) auto
  show ?case
  proof (cases "2 ^ Suc k - 1 \<le> p")
    case True
    from decomp_high [OF Suc.prems True] obtain m where m: "n = 2 ^ k + m" "m < 2 ^ k"
      "decomp k m (p - (2 ^ Suc k - 1))" "mmr_size n = 2 ^ Suc k - 1 + mmr_size m" .
    have "peak_map_loop (2 ^ Suc k - 1) p bm
      = peak_map_loop (2 ^ k - 1) (p - (2 ^ Suc k - 1)) (2 * bm + 1)"
      using True nz by (subst peak_map_loop.simps)
        (simp only: pow2_minus_1_div_2 if_False if_True, simp add: push_bit_eq_mult or_Suc_0_eq mult.commute)
    then show ?thesis using Suc.IH [OF m(3)] m by (simp add: algebra_simps)
  next
    case False
    then have "p < 2 ^ Suc k - 1" by simp
    from decomp_low [OF Suc.prems this] have "decomp k n p" by simp
    have "peak_map_loop (2 ^ Suc k - 1) p bm = peak_map_loop (2 ^ k - 1) p (2 * bm)"
      using False nz by (subst peak_map_loop.simps)
        (simp only: pow2_minus_1_div_2 if_False, simp add: push_bit_eq_mult mult.commute)
    then show ?thesis using Suc.IH [OF \<open>decomp k n p\<close>] by (simp add: algebra_simps)
  qed
qed

lemma peak_map_height_bracket:
  assumes "p < 2 ^ 64" "mmr_size n \<le> p" "p < mmr_size (Suc n)"
  shows "peak_map_height p = (n, p - mmr_size n)"
proof (cases "p = 0")
  case True
  then have "n = 0" using assms(2) le_mmr_size [of n] by simp
  then show ?thesis using True by (simp add: peak_map_height_def)
next
  case False
  then show ?thesis
    using peak_map_loop_eq [OF decomp_first [OF assms(2,3)], of 0] first_peak_size_eq [OF assms(1)]
    by (simp add: peak_map_height_def)
qed

section \<open>Coordinates of nodes\<close>

text \<open>
  \<open>last_leaf h j\<close> is the index of the last leaf below the \<open>j\<close>-th complete subtree of height \<open>h\<close>,
  and \<open>node_pos h j\<close> the position of its root.
\<close>

definition last_leaf :: "nat \<Rightarrow> nat \<Rightarrow> nat" where
  "last_leaf h j = (j + 1) * 2 ^ h - 1"

definition node_pos :: "nat \<Rightarrow> nat \<Rightarrow> nat" where
  "node_pos h j = mmr_size (last_leaf h j) + h + 1"

lemma last_leaf_eq: "last_leaf h j = j * 2 ^ h + (2 ^ h - 1)"
  by (simp add: last_leaf_def)

lemma Suc_last_leaf: "Suc (last_leaf h j) = (j + 1) * 2 ^ h"
  by (simp add: last_leaf_def)

lemma last_leaf_div: "last_leaf h j div 2 ^ h = j"
  unfolding last_leaf_eq by (subst div_mult_self3) simp_all

lemma count_ones_last_leaf: "count_ones (last_leaf h j) = count_ones j + h"
  by (subst last_leaf_eq, subst count_ones_split) (simp_all add: count_ones_pow2_minus_1 del: One_nat_def)

lemma node_pos_alt: "node_pos h j + count_ones j + 1 = (j + 1) * 2 ^ Suc h"
proof -
  have "mmr_size (last_leaf h j) + count_ones j + h = 2 * last_leaf h j"
    using mmr_size_alt [of "last_leaf h j"] by (simp only: count_ones_last_leaf add.assoc)
  then show ?thesis using Suc_last_leaf [of h j] unfolding node_pos_def power_Suc by linarith
qed

lemma node_pos_pos [simp]: "0 < node_pos h j" "node_pos h j \<noteq> 0"
  by (simp_all add: node_pos_def)

lemma node_pos_gt: "node_pos h j > mmr_size (last_leaf h j)"
  by (simp add: node_pos_def)

lemma node_pos_le: "node_pos h j \<le> mmr_size ((j + 1) * 2 ^ h)"
proof -
  have "mmr_size ((j + 1) * 2 ^ h) + count_ones (j + 1) = 2 * ((j + 1) * 2 ^ h)"
    using mmr_size_alt [of "(j + 1) * 2 ^ h"] by (simp only: count_ones_shift)
  then show ?thesis using node_pos_alt [of h j] count_ones_Suc_le [of j] by simp
qed

lemma peak_map_height_node_pos:
  assumes "node_pos h j \<le> 2 ^ 64"
  shows "peak_map_height (node_pos h j - 1) = (last_leaf h j, h)"
proof -
  have "node_pos h j - 1 < 2 ^ 64" "mmr_size (last_leaf h j) \<le> node_pos h j - 1"
    "node_pos h j - 1 < mmr_size (Suc (last_leaf h j))"
    using assms node_pos_pos(1) [of h j] node_pos_gt [of h j] node_pos_le [of h j]
    unfolding Suc_last_leaf by linarith+
  then have "peak_map_height (node_pos h j - 1) =
      (last_leaf h j, node_pos h j - 1 - mmr_size (last_leaf h j))"
    by (rule peak_map_height_bracket)
  then show ?thesis by (simp add: node_pos_def)
qed

lemma postorder_height_node_pos:
  "node_pos h j \<le> 2 ^ 64 \<Longrightarrow> bintree_postorder_height (node_pos h j) = h"
  using peak_map_height_node_pos [of h j] node_pos_pos(1) [of h j]
  unfolding bintree_postorder_height_def by simp

lemma node_pos_le_mmr_size: "node_pos h j \<le> mmr_size n \<longleftrightarrow> (j + 1) * 2 ^ h \<le> n"
proof
  assume "node_pos h j \<le> mmr_size n"
  then have "mmr_size (last_leaf h j) < mmr_size n" using node_pos_gt [of h j] by linarith
  then show "(j + 1) * 2 ^ h \<le> n" using Suc_last_leaf [of h j] by simp
next
  assume le: "(j + 1) * 2 ^ h \<le> n"
  have "node_pos h j \<le> mmr_size ((j + 1) * 2 ^ h)" by (rule node_pos_le)
  also have "\<dots> \<le> mmr_size n" using le by simp
  finally show "node_pos h j \<le> mmr_size n" .
qed

text \<open>Every position is the position of exactly one node.\<close>

lemma mmr_size_gap_dvd: "h < mmr_size (Suc n) - mmr_size n \<Longrightarrow> 2 ^ h dvd Suc n"
proof (induction h arbitrary: n)
  case (Suc h)
  have gap: "mmr_size (Suc m) + count_ones (Suc m) = mmr_size m + count_ones m + 2" for m
    using mmr_size_alt [of m] mmr_size_alt [of "Suc m"] by simp
  show ?case
  proof (cases "even n")
    case True
    then obtain m where m: "n = 2 * m" by (elim evenE)
    then show ?thesis using Suc.prems gap [of n] by simp
  next
    case False
    then obtain m where m: "n = 2 * m + 1" by (elim oddE)
    have Sn: "Suc n = 2 * Suc m" using m by simp
    then have "count_ones (Suc n) = count_ones (Suc m)" by (simp only: count_ones_double)
    then have "h < mmr_size (Suc m) - mmr_size m"
      using Suc.prems gap [of n] gap [of m] m by simp
    then have "2 ^ h dvd Suc m" by (rule Suc.IH)
    then show ?thesis unfolding Sn power_Suc by (rule mult_dvd_mono [OF dvd_refl])
  qed
qed simp

lemma node_pos_exists:
  assumes "0 < pos"
  obtains h j where "pos = node_pos h j"
proof -
  obtain n where n: "mmr_size n \<le> pos - 1" "pos - 1 < mmr_size (Suc n)"
    using mmr_size_bracket by blast
  define h where "h = pos - 1 - mmr_size n"
  have "2 ^ h dvd Suc n" using n by (intro mmr_size_gap_dvd) (simp add: h_def)
  then obtain c where c: "Suc n = c * 2 ^ h" by (metis dvd_def mult.commute)
  then obtain j where "c = j + 1" by (cases c) auto
  with c have "last_leaf h j = n" by (simp add: last_leaf_def)
  then have "pos = node_pos h j" using n assms unfolding node_pos_def h_def by simp
  then show ?thesis by (rule that)
qed

lemma last_leaf_mono_node_pos:
  assumes "last_leaf h j < last_leaf h' j'"
  shows "node_pos h j < node_pos h' j'"
proof -
  have "node_pos h j \<le> mmr_size ((j + 1) * 2 ^ h)" by (rule node_pos_le)
  also have "\<dots> \<le> mmr_size (last_leaf h' j')"
    using assms Suc_last_leaf [of h j] unfolding mmr_size_le_iff by linarith
  also have "\<dots> < node_pos h' j'" by (rule node_pos_gt)
  finally show ?thesis .
qed

lemma node_pos_inj:
  assumes eq: "node_pos h j = node_pos h' j'"
  shows "h = h' \<and> j = j'"
proof -
  have last: "last_leaf h j = last_leaf h' j'"
    using last_leaf_mono_node_pos [of h j h' j'] last_leaf_mono_node_pos [of h' j' h j] eq by linarith
  with eq have "h = h'" unfolding node_pos_def by simp
  then show ?thesis using last last_leaf_div [of h j] last_leaf_div [of h' j'] by metis
qed

section \<open>Parents, siblings and leaves\<close>

lemma peak_bit: "n AND push_bit h 1 \<noteq> (0::nat) \<longleftrightarrow> odd (n div 2 ^ h)"
proof -
  have "n AND push_bit h 1 = n AND 2 ^ h" by (simp add: push_bit_eq_mult)
  then show ?thesis by (simp add: and_exp_eq_0_iff_not_bit bit_iff_odd)
qed

lemma peak_bit_last_leaf: "last_leaf h j AND push_bit h 1 \<noteq> 0 \<longleftrightarrow> odd j"
  by (simp only: peak_bit last_leaf_div)

text \<open>Positions of the parent and of the two children.\<close>

lemma node_pos_right_child: "node_pos (Suc h) i = node_pos h (2 * i + 1) + 1"
  using node_pos_alt [of "Suc h" i] node_pos_alt [of h "2 * i + 1"] by simp

lemma node_pos_left_child: "node_pos (Suc h) i = node_pos h (2 * i) + 2 ^ Suc h"
  using node_pos_alt [of "Suc h" i] node_pos_alt [of h "2 * i"] by (simp add: add_mult_distrib)

lemma node_pos_parent_odd:
  "odd j \<Longrightarrow> node_pos (Suc h) (j div 2) = node_pos h j + 1"
  using node_pos_right_child [of h "j div 2"] by simp

lemma node_pos_parent_even:
  "even j \<Longrightarrow> node_pos (Suc h) (j div 2) = node_pos h j + 2 ^ Suc h"
  using node_pos_left_child [of h "j div 2"] by simp

text \<open>The sibling of index \<open>j\<close>.\<close>

definition sib :: "nat \<Rightarrow> nat" where
  "sib j = (if even j then j + 1 else j - 1)"

lemma sib_div_2 [simp]: "sib j div 2 = j div 2"
  by (auto simp: sib_def elim!: oddE)

lemma even_sib [simp]: "even (sib j) \<longleftrightarrow> odd j"
  by (auto simp: sib_def elim!: oddE)

lemma sib_sib [simp]: "sib (sib j) = j"
  by (auto simp: sib_def elim!: oddE)

lemma node_pos_sib_odd: "odd j \<Longrightarrow> node_pos h (sib j) + 2 ^ Suc h = node_pos h j + 1"
  using node_pos_parent_odd [of j h] node_pos_parent_even [of "sib j" h] by simp

lemma node_pos_sib_even: "even j \<Longrightarrow> node_pos h (sib j) + 1 = node_pos h j + 2 ^ Suc h"
  using node_pos_parent_even [of j h] node_pos_parent_odd [of "sib j" h] by simp

lemma family_node_pos:
  assumes "node_pos h j \<le> 2 ^ 64"
  shows "family (node_pos h j) = (node_pos (Suc h) (j div 2), node_pos h (sib j))"
proof (cases "odd j")
  case True
  then show ?thesis using node_pos_parent_odd [of j h] node_pos_sib_odd [of j h]
    unfolding family_def peak_map_height_node_pos [OF assms] Let_def prod.case
    by (simp add: peak_bit_last_leaf [simplified] push_bit_eq_mult)
next
  case False
  then show ?thesis using node_pos_parent_even [of j h] node_pos_sib_even [of j h]
    unfolding family_def peak_map_height_node_pos [OF assms] Let_def prod.case
    by (simp add: peak_bit_last_leaf [simplified] push_bit_eq_mult)
qed

lemma is_left_sibling_node_pos:
  "node_pos h j \<le> 2 ^ 64 \<Longrightarrow> is_left_sibling (node_pos h j) \<longleftrightarrow> even j"
  using peak_bit_last_leaf [of h j]
  unfolding is_left_sibling_def by (simp only: peak_map_height_node_pos Let_def prod.case) blast

lemma is_leaf_node_pos: "node_pos h j \<le> 2 ^ 64 \<Longrightarrow> is_leaf (node_pos h j) \<longleftrightarrow> h = 0"
  unfolding is_leaf_def by (simp only: postorder_height_node_pos)

lemma bintree_rightmost_node_pos:
  assumes "node_pos h j \<le> 2 ^ 64"
  shows "bintree_rightmost (node_pos h j) = node_pos 0 (last_leaf h j)"
proof -
  have "last_leaf 0 (last_leaf h j) = last_leaf h j" by (simp add: last_leaf_def)
  then show ?thesis
    unfolding bintree_rightmost_def postorder_height_node_pos [OF assms] by (simp add: node_pos_def)
qed

lemma node_pos_leftmost: "node_pos 0 (j * 2 ^ h) + 2 ^ Suc h = node_pos h j + 2"
  using node_pos_alt [of 0 "j * 2 ^ h"] node_pos_alt [of h j] by (simp add: count_ones_shift)

lemma bintree_leftmost_node_pos:
  assumes "node_pos h j \<le> 2 ^ 64"
  shows "bintree_leftmost (node_pos h j) = node_pos 0 (j * 2 ^ h)"
  unfolding bintree_leftmost_def postorder_height_node_pos [OF assms]
  using node_pos_leftmost [of j h] by (simp add: push_bit_eq_mult)

section \<open>Climbing to the peak\<close>

text \<open>The shift of the peak map tells left from right children on the whole way up.\<close>

lemma peak_bit_climb:
  "last_leaf h j AND push_bit (h + i) 1 \<noteq> 0 \<longleftrightarrow> odd (j div 2 ^ i)"
proof -
  have "last_leaf h j div 2 ^ (h + i) = j div 2 ^ i"
    by (simp add: power_add last_leaf_div div_mult2_eq)
  then show ?thesis by (simp only: peak_bit)
qed

lemma climb_step:
  "node_pos h j + (if odd j then 1 else 2 * push_bit h 1) = node_pos (Suc h) (j div 2)"
  using node_pos_parent_odd [of j h] node_pos_parent_even [of j h] by (simp add: push_bit_eq_mult)

lemma node_pos_parent_gt: "node_pos h j < node_pos (Suc h) (j div 2)"
  by (cases "even j") (simp_all add: node_pos_parent_odd node_pos_parent_even)

text \<open>The nodes from \<open>(h, j)\<close> upwards that exist in a range of \<open>n\<close> leaves.\<close>

function ancestors :: "nat \<Rightarrow> nat \<Rightarrow> nat \<Rightarrow> (nat \<times> nat) list" where
  "ancestors n h j = (if (j + 1) * 2 ^ h \<le> n then (h, j) # ancestors n (Suc h) (j div 2) else [])"
  by pat_completeness auto
termination
proof (relation "measure (\<lambda>(n, h, j). Suc (mmr_size n) - node_pos h j)")
  fix n h j :: nat
  assume "(j + 1) * 2 ^ h \<le> n"
  then have "node_pos h j \<le> mmr_size n" by (simp only: node_pos_le_mmr_size)
  with node_pos_parent_gt [of h j] show "((n, Suc h, j div 2), n, h, j) \<in> measure (\<lambda>(n, h, j). Suc (mmr_size n) - node_pos h j)"
    by (simp add: diff_less_mono2)
qed simp

declare ancestors.simps [simp del]

lemma path_loop_eq:
  "path_loop (last_leaf h0 j0) (h0 + i) (node_pos (h0 + i) (j0 div 2 ^ i)) (mmr_size n)
   = map (\<lambda>(h, j). node_pos h j) (ancestors n (h0 + i) (j0 div 2 ^ i))"
proof (induction n "h0 + i" "j0 div 2 ^ i" arbitrary: i rule: ancestors.induct)
  case (1 n i)
  let ?h = "h0 + i" and ?j = "j0 div 2 ^ i"
  show ?case
  proof (cases "(?j + 1) * 2 ^ ?h \<le> n")
    case True
    then have le: "node_pos ?h ?j \<le> mmr_size n" by (simp only: node_pos_le_mmr_size)
    have div: "?j div 2 = j0 div 2 ^ Suc i" by (simp only: power_Suc2 div_mult2_eq)
    have "path_loop (last_leaf h0 j0) (h0 + Suc i) (node_pos (h0 + Suc i) (j0 div 2 ^ Suc i)) (mmr_size n)
      = map (\<lambda>(h, j). node_pos h j) (ancestors n (h0 + Suc i) (j0 div 2 ^ Suc i))"
      using True div by (intro 1) simp_all
    then show ?thesis
      using True le climb_step [of ?h ?j] div
      by (subst path_loop.simps, subst ancestors.simps)
         (simp only: peak_bit_climb Let_def if_True list.map prod.case, simp)
  next
    case False
    then have "\<not> node_pos ?h ?j \<le> mmr_size n" by (simp only: node_pos_le_mmr_size) simp
    with False show ?thesis by (subst path_loop.simps, subst ancestors.simps) simp
  qed
qed

lemma path_node_pos:
  assumes "node_pos h j \<le> 2 ^ 64"
  shows "path (node_pos h j) (mmr_size n) = map (\<lambda>(h, j). node_pos h j) (ancestors n h j)"
  using path_loop_eq [of h j 0 n]
  unfolding path_def peak_map_height_node_pos [OF assms] by simp

text \<open>Parent and sibling of a node, the pair \<open>family_branch\<close> collects.\<close>

definition parent_and_sibling :: "nat \<times> nat \<Rightarrow> nat \<times> nat" where
  "parent_and_sibling hj =
    (node_pos (Suc (fst hj)) (snd hj div 2), node_pos (fst hj) (sib (snd hj)))"

lemma branch_step:
  "(if odd j then Suc (node_pos h j) else node_pos h j + 2 * push_bit h 1) = node_pos (Suc h) (j div 2)"
  "(if odd j then node_pos (Suc h) (j div 2) - 2 * push_bit h 1 else node_pos (Suc h) (j div 2) - 1)
    = node_pos h (sib j)"
  using node_pos_parent_odd [of j h] node_pos_parent_even [of j h]
    node_pos_sib_odd [of j h] node_pos_sib_even [of j h]
  by (auto simp: push_bit_eq_mult)

lemma family_branch_loop_eq:
  assumes "(j0 div 2 ^ i + 1) * 2 ^ (h0 + i) \<le> n"
  shows "family_branch_loop (last_leaf h0 j0) (h0 + i) (node_pos (h0 + i) (j0 div 2 ^ i)) (mmr_size n)
   = map parent_and_sibling (butlast (ancestors n (h0 + i) (j0 div 2 ^ i)))"
  using assms
proof (induction n "h0 + i" "j0 div 2 ^ i" arbitrary: i rule: ancestors.induct)
  case (1 n i)
  let ?h = "h0 + i" and ?j = "j0 div 2 ^ i"
  let ?loop = "family_branch_loop (last_leaf h0 j0)"
  have div: "?j div 2 = j0 div 2 ^ Suc i" by (simp only: power_Suc2 div_mult2_eq)
  have unf: "?loop ?h (node_pos ?h ?j) (mmr_size n) =
     (if node_pos ?h ?j < mmr_size n
      then if node_pos (Suc ?h) (?j div 2) > mmr_size n then []
           else (node_pos (Suc ?h) (?j div 2), node_pos ?h (sib ?j)) #
             ?loop (Suc ?h) (node_pos (Suc ?h) (?j div 2)) (mmr_size n)
      else [])"
    by (subst family_branch_loop.simps) (simp only: peak_bit_climb Let_def Suc_eq_plus1 [symmetric] branch_step)
  show ?case
  proof (cases "(?j div 2 + 1) * 2 ^ Suc ?h \<le> n")
    case True
    then have le: "node_pos (Suc ?h) (?j div 2) \<le> mmr_size n" by (simp only: node_pos_le_mmr_size)
    with node_pos_parent_gt [of ?h ?j] have lt: "node_pos ?h ?j < mmr_size n" by linarith
    have IH: "?loop (Suc ?h) (node_pos (Suc ?h) (?j div 2)) (mmr_size n)
      = map parent_and_sibling (butlast (ancestors n (Suc ?h) (?j div 2)))"
      using 1(1) [of "Suc i"] 1(2) True div by simp
    have "ancestors n (Suc ?h) (?j div 2) \<noteq> []" using True by (subst ancestors.simps) simp
    then show ?thesis using IH unf le lt 1(2)
      by (subst ancestors.simps) (simp add: parent_and_sibling_def)
  next
    case False
    then have "mmr_size n < node_pos (Suc ?h) (?j div 2)" by (simp only: node_pos_le_mmr_size not_le [symmetric]) simp
    moreover have "ancestors n (Suc ?h) (?j div 2) = []" using False by (subst ancestors.simps) simp
    ultimately show ?thesis using unf 1(2) by (subst ancestors.simps) simp
  qed
qed

lemma family_branch_node_pos:
  assumes "node_pos h j \<le> 2 ^ 64" "(j + 1) * 2 ^ h \<le> n"
  shows "family_branch (node_pos h j) (mmr_size n) = map parent_and_sibling (butlast (ancestors n h j))"
  using family_branch_loop_eq [of j 0 h n] assms(2)
  unfolding family_branch_def peak_map_height_node_pos [OF assms(1)] by simp

section \<open>Peaks and leaves\<close>

text \<open>
  Coordinates of the mountains of a range with \<open>n\<close> leaves, from the highest: one for every bit that
  is set in \<open>n\<close>.
\<close>

primrec peak_coords :: "nat \<Rightarrow> nat \<Rightarrow> (nat \<times> nat) list" where
  "peak_coords 0 n = []"
| "peak_coords (Suc k) n =
    (if odd (n div 2 ^ k) then (k, n div 2 ^ k - 1) # peak_coords k n else peak_coords k n)"

definition mountains :: "nat \<Rightarrow> (nat \<times> nat) list" where
  "mountains n = peak_coords (bit_len n) n"

lemma peak_coords_bit_len: "bit_len n \<le> k \<Longrightarrow> peak_coords k n = mountains n"
proof (induction k rule: dec_induct)
  case base
  show ?case by (simp add: mountains_def)
next
  case (step k)
  have "n < 2 ^ k" using step.hyps less_2_bit_len [of n] by (meson less_le_trans one_le_numeral power_increasing)
  then have "n div 2 ^ k = 0" by simp
  with step.IH show ?case by (simp only: peak_coords.simps) simp
qed

lemma node_pos_even: "even j \<Longrightarrow> node_pos h j = mmr_size ((j + 1) * 2 ^ h)"
proof -
  assume "even j"
  then have "count_ones (j + 1) = count_ones j + 1" by (elim evenE) simp
  then have "mmr_size ((j + 1) * 2 ^ h) + count_ones j + 1 = 2 * ((j + 1) * 2 ^ h)"
    using mmr_size_alt [of "(j + 1) * 2 ^ h"] count_ones_shift [of "j + 1" h] by linarith
  then show ?thesis using node_pos_alt [of h j] unfolding power_Suc by linarith
qed

lemma peaks_loop_eq:
  assumes "decomp k m p" "n = q * 2 ^ k + m"
  shows "peaks_loop (2 ^ k - 1) p (mmr_size (q * 2 ^ k)) acc
    = (p - mmr_size m, acc @ map (\<lambda>(h, j). node_pos h j) (peak_coords k n))"
  using assms
proof (induction k arbitrary: m p q acc)
  case 0
  then show ?case by (simp add: decomp_0 peaks_loop.simps)
next
  case (Suc k)
  have nz: "(2::nat) ^ Suc k - 1 \<noteq> 0" by (induction k) auto
  show ?case
  proof (cases "2 ^ Suc k - 1 \<le> p")
    case True
    from decomp_high [OF Suc.prems(1) True] obtain m' where m: "m = 2 ^ k + m'" "m' < 2 ^ k"
      "decomp k m' (p - (2 ^ Suc k - 1))" "mmr_size m = 2 ^ Suc k - 1 + mmr_size m'" .
    let ?q = "2 * q + 1"
    have n: "n = ?q * 2 ^ k + m'" using Suc.prems(2) m(1) by (simp add: algebra_simps)
    have div: "n div 2 ^ k = ?q" unfolding n using m(2) by (subst div_mult_self3) simp_all
    have sum: "mmr_size (q * 2 ^ Suc k) + (2 ^ Suc k - 1) = mmr_size (?q * 2 ^ k)"
      using mmr_size_split [of "2 ^ k" "Suc k" q] mmr_size_pow2 [of k] by (simp add: algebra_simps)
    have "node_pos k (?q - 1) = mmr_size (?q * 2 ^ k)" using node_pos_even [of "2 * q" k] by simp
    then have pc: "map (\<lambda>(h, j). node_pos h j) (peak_coords (Suc k) n)
        = mmr_size (?q * 2 ^ k) # map (\<lambda>(h, j). node_pos h j) (peak_coords k n)"
      by (simp only: peak_coords.simps div) simp
    have "peaks_loop (2 ^ Suc k - 1) p (mmr_size (q * 2 ^ Suc k)) acc
      = peaks_loop (2 ^ k - 1) (p - (2 ^ Suc k - 1)) (mmr_size (?q * 2 ^ k)) (acc @ [mmr_size (?q * 2 ^ k)])"
      using True nz by (subst peaks_loop.simps) (simp only: pow2_minus_1_div_2 if_False if_True sum)
    then show ?thesis
      by (simp only: Suc.IH [OF m(3) n] m(4) pc diff_diff_left append_assoc append_Cons append_Nil)
  next
    case False
    then have lt: "p < 2 ^ Suc k - 1" by simp
    note low = decomp_low [OF Suc.prems(1) lt]
    have n: "n = (2 * q) * 2 ^ k + m" using Suc.prems(2) by simp
    have div: "n div 2 ^ k = 2 * q" using n low(1) by simp
    have eq: "q * 2 ^ Suc k = (2 * q) * 2 ^ k" by simp
    have "peaks_loop (2 ^ Suc k - 1) p (mmr_size (q * 2 ^ Suc k)) acc
      = peaks_loop (2 ^ k - 1) p (mmr_size ((2 * q) * 2 ^ k)) acc"
      using False nz by (subst peaks_loop.simps) (simp only: pow2_minus_1_div_2 if_False eq)
    then show ?thesis using Suc.IH [OF low(2) n] by (simp only: peak_coords.simps div) simp
  qed
qed

lemma peaks_bracket:
  assumes "p < 2 ^ 64" "mmr_size n \<le> p" "p < mmr_size (Suc n)"
  shows "peaks p = (if p = mmr_size n then map (\<lambda>(h, j). node_pos h j) (mountains n) else [])"
proof (cases "p = 0")
  case True
  then have "n = 0" using assms(2) le_mmr_size [of n] by simp
  then show ?thesis using True by (simp add: peaks_def mountains_def bit_len.simps)
next
  case False
  have "n \<le> p" using assms(2) le_mmr_size [of n] by simp
  then have "bit_len n \<le> bit_len p" using less_2_bit_len [of p] by (intro bit_len_le) simp
  then have "peaks_loop (first_peak_size p) p 0 []
      = (p - mmr_size n, map (\<lambda>(h, j). node_pos h j) (mountains n))"
    using peaks_loop_eq [OF decomp_first [OF assms(2,3)], of n 0 "[]"] peak_coords_bit_len
    by (simp add: first_peak_size_eq [OF assms(1)])
  then show ?thesis using False assms(2) by (simp add: peaks_def)
qed

lemmas peaks_mmr_size = peaks_bracket [of "mmr_size n" n for n, OF _ order_refl mmr_size_less_Suc, simplified]

lemma peak_sizes_loop_eq:
  "decomp k n p \<Longrightarrow> \<exists>sizes. peak_sizes_loop (2 ^ k - 1) p acc = (acc @ sizes, p - mmr_size n)
     \<and> sum_list (map (\<lambda>s. (s + 1) div 2) sizes) = n"
proof (induction k arbitrary: n p acc)
  case 0
  then show ?case by (simp add: decomp_0 peak_sizes_loop.simps)
next
  case (Suc k)
  have nz: "(2::nat) ^ Suc k - 1 \<noteq> 0" by (induction k) auto
  show ?case
  proof (cases "2 ^ Suc k - 1 \<le> p")
    case True
    from decomp_high [OF Suc.prems True] obtain m where m: "n = 2 ^ k + m" "m < 2 ^ k"
      "decomp k m (p - (2 ^ Suc k - 1))" "mmr_size n = 2 ^ Suc k - 1 + mmr_size m" .
    have "peak_sizes_loop (2 ^ Suc k - 1) p acc
      = peak_sizes_loop (2 ^ k - 1) (p - (2 ^ Suc k - 1)) (acc @ [2 ^ Suc k - 1])"
      using True nz by (subst peak_sizes_loop.simps) (simp only: pow2_minus_1_div_2 if_False if_True)
    moreover obtain sizes where "peak_sizes_loop (2 ^ k - 1) (p - (2 ^ Suc k - 1)) (acc @ [2 ^ Suc k - 1])
        = ((acc @ [2 ^ Suc k - 1]) @ sizes, p - (2 ^ Suc k - 1) - mmr_size m)"
      "sum_list (map (\<lambda>s. (s + 1) div 2) sizes) = m"
      using Suc.IH [OF m(3)] by blast
    ultimately show ?thesis using m by (intro exI [of _ "(2 ^ Suc k - 1) # sizes"]) simp
  next
    case False
    then have lt: "p < 2 ^ Suc k - 1" by simp
    have "peak_sizes_loop (2 ^ Suc k - 1) p acc = peak_sizes_loop (2 ^ k - 1) p acc"
      using False nz by (subst peak_sizes_loop.simps) (simp only: pow2_minus_1_div_2 if_False)
    then show ?thesis using Suc.IH [OF decomp_low(2) [OF Suc.prems lt]] by simp
  qed
qed

lemma n_leaves_bracket:
  assumes "p < 2 ^ 64" "mmr_size n \<le> p" "p < mmr_size (Suc n)"
  shows "n_leaves p = (if p = mmr_size n then n else n + 1)"
proof (cases "p = 0")
  case True
  then have "n = 0" using assms(2) le_mmr_size [of n] by simp
  then show ?thesis using True by (simp add: n_leaves_def peak_sizes_height_def)
next
  case False
  obtain sizes where "peak_sizes_height p = (sizes, p - mmr_size n)"
    "sum_list (map (\<lambda>s. (s + 1) div 2) sizes) = n"
    using peak_sizes_loop_eq [OF decomp_first [OF assms(2,3)], of "[]"] False
    by (auto simp: peak_sizes_height_def first_peak_size_eq [OF assms(1)])
  then show ?thesis using assms(2) by (simp add: n_leaves_def)
qed

lemma n_leaves_mmr_size [simp]: "mmr_size n < 2 ^ 64 \<Longrightarrow> n_leaves (mmr_size n) = n"
  using n_leaves_bracket [OF _ order_refl mmr_size_less_Suc] by simp

lemma insertion_to_pmmr_index_node_pos: "insertion_to_pmmr_index (Suc n) = node_pos 0 n"
  by (simp add: insertion_to_pmmr_index_def node_pos_def mmr_size_def last_leaf_def)

lemma n_leaves_le_iff:
  assumes "p < 2 ^ 64"
  shows "n_leaves p \<le> n \<longleftrightarrow> p \<le> mmr_size n"
proof -
  obtain m where m: "mmr_size m \<le> p" "p < mmr_size (Suc m)" using mmr_size_bracket by blast
  have "p \<le> mmr_size n \<longleftrightarrow> (if p = mmr_size m then m \<le> n else m < n)"
  proof (cases "m < n")
    case True
    then have "mmr_size (Suc m) \<le> mmr_size n" by simp
    then have "p \<le> mmr_size n" using m by linarith
    then show ?thesis using True by simp
  next
    case False
    then have "mmr_size n \<le> mmr_size m" by simp
    then have "p \<le> mmr_size n \<longleftrightarrow> p = mmr_size m \<and> mmr_size n = mmr_size m" using m by linarith
    then show ?thesis using False by auto
  qed
  then show ?thesis using n_leaves_bracket [OF assms m] by (auto simp: Suc_le_eq)
qed

lemma n_leaves_leaf:
  assumes "node_pos 0 j < 2 ^ 64"
  shows "n_leaves (node_pos 0 j) = Suc j"
proof -
  have "n_leaves (node_pos 0 j) \<le> Suc j"
    using node_pos_le [of 0 j] by (simp only: n_leaves_le_iff [OF assms]) simp
  moreover have "\<not> n_leaves (node_pos 0 j) \<le> j"
    using node_pos_gt [of 0 j] by (simp only: n_leaves_le_iff [OF assms]) (simp add: last_leaf_def)
  ultimately show ?thesis by simp
qed

lemma peak_coords_unfold:
  "peak_coords k n = (if k = 0 then [] else
    if odd (n div 2 ^ (k - 1)) then (k - 1, n div 2 ^ (k - 1) - 1) # peak_coords (k - 1) n
    else peak_coords (k - 1) n)"
  by (cases k) simp_all

text \<open>Evaluation of the position functions on numerals.\<close>

lemmas pos_eval = count_ones.simps bit_len.simps mmr_size_def last_leaf_def node_pos_def
  bintree_postorder_height_def peak_map_height_def peak_map_loop.simps peak_sizes_loop.simps
  first_peak_size_eq ancestors.simps sib_def mountains_def peak_coords_unfold

section \<open>Properties\<close>

text \<open>
  Claim C24. \<open>peak_map_height\<close> returns, for a 0-based position, the number of leaves inserted before
  it (whose bits are the peaks present) and its height above the leaf inserted last.
\<close>

theorem peak_map_height_correct:
  assumes "p < 2 ^ 64" "mmr_size n \<le> p" "p < mmr_size (Suc n)"
  shows "peak_map_height p = (n, p - mmr_size n)"
  using assms by (rule peak_map_height_bracket)

lemma peak_map_height_correct_witness: "peak_map_height 5 = (3, 1)"
  using peak_map_height_correct [of 5 3] by (simp add: mmr_size_def count_ones.simps)

text \<open>
  Claim C11. Every position is the root of exactly one complete subtree, and at the root of the
  \<open>j\<close>-th subtree of height \<open>h\<close> the position functions return the height, the parent and the sibling,
  the side, and the first and last leaf below.
\<close>

theorem node_functions_correct:
  assumes "0 < pos" "pos \<le> 2 ^ 64"
  shows "\<exists>!(h, j). pos = node_pos h j
     \<and> bintree_postorder_height pos = h
     \<and> (is_leaf pos \<longleftrightarrow> h = 0)
     \<and> (is_left_sibling pos \<longleftrightarrow> even j)
     \<and> family pos = (node_pos (Suc h) (j div 2), node_pos h (if even j then j + 1 else j - 1))
     \<and> bintree_leftmost pos = node_pos 0 (j * 2 ^ h)
     \<and> bintree_rightmost pos = node_pos 0 ((j + 1) * 2 ^ h - 1)"
proof -
  obtain h j where pos: "pos = node_pos h j" using node_pos_exists [OF assms(1)] .
  note le = assms(2) [unfolded pos]
  show ?thesis unfolding pos
    using postorder_height_node_pos [OF le] is_leaf_node_pos [OF le] is_left_sibling_node_pos [OF le]
      family_node_pos [OF le] bintree_leftmost_node_pos [OF le] bintree_rightmost_node_pos [OF le]
    by (intro ex1I [of _ "(h, j)"]) (auto simp: sib_def last_leaf_def dest: node_pos_inj)
qed

lemma node_functions_correct_witness:
  "(0::nat) < 6 \<and> (6::nat) \<le> 2 ^ 64 \<and> (\<exists>h j. 6 = node_pos h j \<and> bintree_postorder_height 6 = h)"
  using node_functions_correct [of 6] by auto

text \<open>
  \<open>n_leaves\<close> returns the least number of leaves whose range has at least the given number
  of nodes.
\<close>

theorem n_leaves_correct:
  assumes "p < 2 ^ 64"
  shows "n_leaves p \<le> n \<longleftrightarrow> p \<le> mmr_size n"
  using assms by (rule n_leaves_le_iff)

lemma n_leaves_correct_witness: "n_leaves 5 \<le> 4 \<and> \<not> n_leaves 5 \<le> 3"
  using n_leaves_correct [of 5 4] n_leaves_correct [of 5 3]
  by (simp add: mmr_size_def count_ones.simps)

text \<open>
  Insertion indices and leaf positions are in bijection: the position of the \<open>n\<close>-th
  insertion is a leaf with leaf count \<open>n\<close>, and every leaf is the position of the insertion given by
  its leaf count.
\<close>

theorem insertion_index_roundtrip:
  assumes "0 < n" "insertion_to_pmmr_index n < 2 ^ 64" "0 < p" "p < 2 ^ 64" "is_leaf p"
  shows "is_leaf (insertion_to_pmmr_index n)
    \<and> n_leaves (insertion_to_pmmr_index n) = n
    \<and> insertion_to_pmmr_index (n_leaves p) = p"
proof -
  obtain m where n: "n = Suc m" using assms(1) by (cases n) auto
  note ix = insertion_to_pmmr_index_node_pos [of m]
  have lt: "node_pos 0 m < 2 ^ 64" using assms(2) by (simp only: n ix)
  obtain h j where p: "p = node_pos h j" using node_pos_exists [OF assms(3)] .
  have "h = 0" using is_leaf_node_pos [of h j] assms(4,5) p by simp
  with p assms(4) have "n_leaves p = Suc j" by (simp only: n_leaves_leaf)
  with p \<open>h = 0\<close> have "insertion_to_pmmr_index (n_leaves p) = p"
    by (simp only: insertion_to_pmmr_index_node_pos)
  moreover have "is_leaf (node_pos 0 m)" using is_leaf_node_pos [of 0 m] lt by simp
  ultimately show ?thesis using n_leaves_leaf [OF lt] unfolding n ix by simp
qed

lemma insertion_index_roundtrip_witness:
  "is_leaf (insertion_to_pmmr_index 3) \<and> n_leaves (insertion_to_pmmr_index 3) = 3
    \<and> insertion_to_pmmr_index (n_leaves 5) = 5"
proof -
  have "insertion_to_pmmr_index 3 = 4" "is_leaf 5"
    by (simp_all add: insertion_to_pmmr_index_def is_leaf_def pos_eval)
  then show ?thesis using insertion_index_roundtrip [of 3 5] by simp
qed

text \<open>
  Claim C25. \<open>peaks\<close> lists the roots of the mountains from the highest to the lowest, one for each
  bit set in the number of leaves, and returns nothing for a number that is not the size of a range.
\<close>

theorem peaks_correct:
  assumes "num < 2 ^ 64"
  shows "peaks num = (if num = mmr_size (n_leaves num)
      then map (\<lambda>(h, j). node_pos h j) (mountains (n_leaves num)) else [])"
proof -
  obtain n where n: "mmr_size n \<le> num" "num < mmr_size (Suc n)" using mmr_size_bracket by blast
  show ?thesis using peaks_bracket [OF assms n] n_leaves_bracket [OF assms n] n(2) by simp
qed

lemma peaks_correct_witness: "peaks 11 = [7, 10, 11]"
proof -
  have "n_leaves 11 = 7" "mmr_size 7 = 11" "mountains 7 = [(2, 0), (1, 2), (0, 6)]"
    "node_pos 2 0 = 7" "node_pos 1 2 = 10" "node_pos 0 6 = 11"
    by (simp_all add: n_leaves_def peak_sizes_height_def pos_eval)
  then show ?thesis using peaks_correct [of 11] by simp
qed

text \<open>
  Claim C26. \<open>path\<close> lists the ancestors of a node that exist in the range, from the node itself to
  its peak, and \<open>family_branch\<close> the parent and the sibling of each of them but the peak.
\<close>

theorem path_and_family_branch_correct:
  assumes "node_pos h j \<le> 2 ^ 64" "(j + 1) * 2 ^ h \<le> n"
  shows "path (node_pos h j) (mmr_size n) = map (\<lambda>(h, j). node_pos h j) (ancestors n h j)
    \<and> family_branch (node_pos h j) (mmr_size n) = map parent_and_sibling (butlast (ancestors n h j))"
  using path_node_pos [OF assms(1)] family_branch_node_pos [OF assms] by blast

lemma path_and_family_branch_correct_witness:
  "path 2 11 = [2, 3, 7] \<and> family_branch 2 11 = [(3, 1), (7, 6)]"
proof -
  have "node_pos 0 1 = 2" "node_pos 0 0 = 1" "node_pos 1 0 = 3" "node_pos 1 1 = 6"
    "node_pos 2 0 = 7" "mmr_size 7 = 11" "ancestors 7 0 1 = [(0, 1), (1, 0), (2, 0)]"
    "sib 1 = 0" "sib 0 = 1"
    by (simp_all add: pos_eval)
  then show ?thesis using path_and_family_branch_correct [of 0 1 7]
    by (simp add: parent_and_sibling_def numeral_2_eq_2 [symmetric])
qed

end
