(* ===== verification/Consensus.thy ===== *)
theory Consensus
  imports Ser Pmmr_Pos
begin

text \<open>
  Consensus parameters and rules, \<open>core/src/global.rs\<close> and \<open>core/src/consensus.rs\<close>, with the compact
  encoding of targets from \<open>core/src/pow/common.rs\<close>. The global chain type is an argument \<open>ct\<close> of every
  function that reads it. Unsigned 64-bit arithmetic wraps and shift amounts are taken modulo the
  width, as in a release build; \<open>BigUint\<close> is a natural number, and a function that can panic returns an
  option.
\<close>

section \<open>Chain types and constants\<close>

datatype chain_types = AutomatedTesting | UserTesting | Floonet | Mainnet

definition shortname :: "chain_types \<Rightarrow> string" where
  "shortname ct = (case ct of AutomatedTesting \<Rightarrow> ''auto'' | UserTesting \<Rightarrow> ''user''
     | Floonet \<Rightarrow> ''floo'' | Mainnet \<Rightarrow> ''main'')"

definition GRIN_BASE :: u64 where "GRIN_BASE = 1000000000"
definition MILLI_GRIN :: u64 where "MILLI_GRIN = GRIN_BASE div 1000"
definition MICRO_GRIN :: u64 where "MICRO_GRIN = MILLI_GRIN div 1000"
definition NANO_GRIN :: u64 where "NANO_GRIN = 1"
definition BLOCK_TIME_SEC :: u64 where "BLOCK_TIME_SEC = 600"
definition REWARD :: u64 where "REWARD = 50 * GRIN_BASE"
definition HOUR_HEIGHT :: u64 where "HOUR_HEIGHT = 3600 div BLOCK_TIME_SEC"
definition DAY_HEIGHT :: u64 where "DAY_HEIGHT = 24 * HOUR_HEIGHT"
definition WEEK_HEIGHT :: u64 where "WEEK_HEIGHT = 7 * DAY_HEIGHT"
definition YEAR_HEIGHT :: u64 where "YEAR_HEIGHT = 52 * WEEK_HEIGHT"
definition COINBASE_MATURITY :: u64 where "COINBASE_MATURITY = DAY_HEIGHT"
definition CUT_THROUGH_HORIZON :: u32 where "CUT_THROUGH_HORIZON = ucast WEEK_HEIGHT"
definition STATE_SYNC_THRESHOLD :: u32 where "STATE_SYNC_THRESHOLD = 2 * ucast DAY_HEIGHT"
definition BLOCK_INPUT_WEIGHT :: nat where "BLOCK_INPUT_WEIGHT = 1"
definition BLOCK_OUTPUT_WEIGHT :: nat where "BLOCK_OUTPUT_WEIGHT = 21"
definition BLOCK_KERNEL_WEIGHT :: nat where "BLOCK_KERNEL_WEIGHT = 3"
definition MAX_BLOCK_WEIGHT :: nat where "MAX_BLOCK_WEIGHT = 100000"
definition DIFFICULTY_ADJUST_WINDOW :: u64 where "DIFFICULTY_ADJUST_WINDOW = WEEK_HEIGHT * 2"
definition BLOCK_TIME_WINDOW :: u64 where "BLOCK_TIME_WINDOW = DIFFICULTY_ADJUST_WINDOW * BLOCK_TIME_SEC"
definition CLAMP_FACTOR :: u64 where "CLAMP_FACTOR = 2"
definition AR_SCALE_DAMP_FACTOR :: u64 where "AR_SCALE_DAMP_FACTOR = 13"
definition MIN_AR_SCALE :: u64 where "MIN_AR_SCALE = AR_SCALE_DAMP_FACTOR"
definition MIN_DIFFICULTY :: u64 where "MIN_DIFFICULTY = 1"

lemmas const_defs = GRIN_BASE_def MILLI_GRIN_def MICRO_GRIN_def NANO_GRIN_def BLOCK_TIME_SEC_def
  REWARD_def HOUR_HEIGHT_def DAY_HEIGHT_def WEEK_HEIGHT_def YEAR_HEIGHT_def COINBASE_MATURITY_def
  DIFFICULTY_ADJUST_WINDOW_def BLOCK_TIME_WINDOW_def CLAMP_FACTOR_def AR_SCALE_DAMP_FACTOR_def
  MIN_AR_SCALE_def MIN_DIFFICULTY_def

definition halving_interval :: "chain_types \<Rightarrow> u64" where
  "halving_interval ct = (case ct of Mainnet \<Rightarrow> 210000 | _ \<Rightarrow> DAY_HEIGHT)"

definition support_token_height :: "chain_types \<Rightarrow> u64" where
  "support_token_height ct = (case ct of Floonet \<Rightarrow> 160 | Mainnet \<Rightarrow> 45120 | _ \<Rightarrow> 0)"

definition refactor_header_height :: "chain_types \<Rightarrow> u64" where
  "refactor_header_height ct = (case ct of Floonet \<Rightarrow> 170 | Mainnet \<Rightarrow> 45120 + 720 | _ \<Rightarrow> 0)"

definition min_edge_bits :: u8 where "min_edge_bits = 9"
definition base_edge_bits :: u8 where "base_edge_bits = 9"
definition proofsize :: nat where "proofsize = 4"

definition min_bit_diff :: "chain_types \<Rightarrow> u32" where
  "min_bit_diff ct = (case ct of Floonet \<Rightarrow> 0x1b01cc26 | Mainnet \<Rightarrow> 0x18120f14 | _ \<Rightarrow> 0x2100ffff)"

definition coinbase_maturity :: "chain_types \<Rightarrow> u64" where
  "coinbase_maturity ct = (case ct of AutomatedTesting \<Rightarrow> 3 | UserTesting \<Rightarrow> 3 | _ \<Rightarrow> COINBASE_MATURITY)"

definition initial_block_difficulty :: u64 where "initial_block_difficulty = 1"
definition initial_graph_weight :: u32 where "initial_graph_weight = 1"

definition max_block_weight :: "chain_types \<Rightarrow> nat" where
  "max_block_weight ct = (case ct of AutomatedTesting \<Rightarrow> 150 | UserTesting \<Rightarrow> 150
     | Floonet \<Rightarrow> MAX_BLOCK_WEIGHT | Mainnet \<Rightarrow> MAX_BLOCK_WEIGHT)"

definition cut_through_horizon :: "chain_types \<Rightarrow> u32" where
  "cut_through_horizon ct = (case ct of AutomatedTesting \<Rightarrow> 20 | UserTesting \<Rightarrow> 70 | Floonet \<Rightarrow> 70
     | _ \<Rightarrow> CUT_THROUGH_HORIZON)"

definition state_sync_threshold :: "chain_types \<Rightarrow> u32" where
  "state_sync_threshold ct = (case ct of AutomatedTesting \<Rightarrow> 20 | UserTesting \<Rightarrow> 20 | Floonet \<Rightarrow> 20
     | _ \<Rightarrow> STATE_SYNC_THRESHOLD)"

definition txhashset_archive_interval :: "chain_types \<Rightarrow> u64" where
  "txhashset_archive_interval ct = (case ct of AutomatedTesting \<Rightarrow> 10 | UserTesting \<Rightarrow> 10 | Floonet \<Rightarrow> 10
     | _ \<Rightarrow> 12 * 60)"

definition is_production_mode :: "chain_types \<Rightarrow> bool" where
  "is_production_mode ct \<longleftrightarrow> ct = Floonet \<or> ct = Mainnet"

definition is_floonet :: "chain_types \<Rightarrow> bool" where
  "is_floonet ct \<longleftrightarrow> ct = Floonet"

section \<open>Rewards\<close>

text \<open>\<open>a >> n\<close> of a release build.\<close>

definition shr :: "u64 \<Rightarrow> u64 \<Rightarrow> u64" where
  "shr a n = drop_bit (unat n mod 64) a"

definition reward :: "chain_types \<Rightarrow> u64 \<Rightarrow> u64 \<Rightarrow> u64" where
  "reward ct height fee =
    (let halvings = height div halving_interval ct;
         cur_reward = (if halvings \<ge> 64 then 0 else shr REWARD halvings)
     in sat_add cur_reward fee)"

definition total_reward :: "chain_types \<Rightarrow> u64 \<Rightarrow> bool \<Rightarrow> u64" where
  "total_reward ct height genesis_had_reward =
    (let halvings = height div halving_interval ct;
         total = foldl (\<lambda>total i. total + halving_interval ct * shr REWARD (of_nat i)) 0 [0..<unat halvings];
         remainder = height mod halving_interval ct;
         total' = total + shr REWARD halvings * (remainder + 1)
     in if \<not> genesis_had_reward then total' - REWARD else total')"

section \<open>Header versions and difficulty\<close>

definition secondary_pow_ratio :: "u64 \<Rightarrow> u64" where
  "secondary_pow_ratio height = sat_sub 90 (height div (2 * YEAR_HEIGHT div 90))"

definition ar_scale_damp_factor :: "u64 \<Rightarrow> u64" where
  "ar_scale_damp_factor height = AR_SCALE_DAMP_FACTOR"

type_synonym header_version_t = u16

definition header_version :: "chain_types \<Rightarrow> u64 \<Rightarrow> header_version_t" where
  "header_version ct height = (if height < support_token_height ct then 1 else 2)"

definition valid_header_version :: "chain_types \<Rightarrow> u64 \<Rightarrow> header_version_t \<Rightarrow> bool" where
  "valid_header_version ct height version \<longleftrightarrow> version = header_version ct height"

definition graph_weight :: "u64 \<Rightarrow> u8 \<Rightarrow> u64" where
  "graph_weight height edge_bits = 1"

text \<open>\<open>Difficulty\<close> is a struct with the single field \<open>num\<close>.\<close>

type_synonym difficulty = u64

record header_info =
  hi_block_hash :: hash
  hi_timestamp :: u64
  hi_difficulty :: difficulty
  hi_secondary_scaling :: u32
  hi_is_secondary :: bool

definition from_ts_diff :: "u64 \<Rightarrow> difficulty \<Rightarrow> header_info" where
  "from_ts_diff timestamp d = \<lparr>hi_block_hash = ZERO_HASH, hi_timestamp = timestamp, hi_difficulty = d,
     hi_secondary_scaling = initial_graph_weight, hi_is_secondary = True\<rparr>"

definition from_diff_scaling :: "difficulty \<Rightarrow> u32 \<Rightarrow> header_info" where
  "from_diff_scaling d secondary_scaling = \<lparr>hi_block_hash = ZERO_HASH, hi_timestamp = 1, hi_difficulty = d,
     hi_secondary_scaling = secondary_scaling, hi_is_secondary = True\<rparr>"

definition damp :: "u64 \<Rightarrow> u64 \<Rightarrow> u64 \<Rightarrow> u64" where
  "damp actual goal damp_factor = (actual + (damp_factor - 1) * goal) div damp_factor"

definition clamp :: "u64 \<Rightarrow> u64 \<Rightarrow> u64 \<Rightarrow> u64" where
  "clamp actual goal clamp_factor = max (goal div clamp_factor) (min actual (goal * clamp_factor))"

text \<open>\<open>Difficulty::from_num\<close> keeps the number at 1 at least.\<close>

definition difficulty_from_num :: "u64 \<Rightarrow> difficulty" where
  "difficulty_from_num num = max num 1"

definition next_difficulty :: "u64 \<Rightarrow> header_info list \<Rightarrow> header_info" where
  "next_difficulty height cursor = from_diff_scaling (difficulty_from_num 1) 1"

definition ar_count :: "u64 \<Rightarrow> header_info list \<Rightarrow> u64" where
  "ar_count height diff_data = 100 * of_nat (length (filter hi_is_secondary diff_data))"

definition secondary_pow_scaling :: "u64 \<Rightarrow> header_info list \<Rightarrow> u32" where
  "secondary_pow_scaling height diff_data =
    (let scale_sum = sum_list (map (\<lambda>dd. ucast (hi_secondary_scaling dd) :: u64) diff_data);
         target_pct = secondary_pow_ratio height;
         target_count = DIFFICULTY_ADJUST_WINDOW * target_pct;
         adj_count = clamp (damp (ar_count height diff_data) target_count (ar_scale_damp_factor height))
                       target_count CLAMP_FACTOR;
         scale = scale_sum * target_pct div max 1 adj_count
     in ucast (max MIN_AR_SCALE scale))"

text \<open>Padding with simulated headers; an empty cursor indexes out of bounds.\<close>

primrec pad_headers :: "nat \<Rightarrow> u64 \<Rightarrow> u64 \<Rightarrow> difficulty \<Rightarrow> header_info list" where
  "pad_headers 0 last_ts last_ts_delta last_diff = []"
| "pad_headers (Suc k) last_ts last_ts_delta last_diff =
    (let ts = sat_sub last_ts last_ts_delta
     in from_ts_diff ts last_diff # pad_headers k ts last_ts_delta last_diff)"

definition difficulty_data_to_vector :: "header_info list \<Rightarrow> header_info list option" where
  "difficulty_data_to_vector cursor =
    (let needed = unat DIFFICULTY_ADJUST_WINDOW + 1;
         last_n = take needed cursor;
         n = length last_n
     in if needed > n
        then if n = 0 then None
             else let last_ts_delta = (if n > 1 then hi_timestamp (last_n ! 0) - hi_timestamp (last_n ! 1)
                                       else BLOCK_TIME_SEC);
                      last_diff = hi_difficulty (last_n ! 0)
                  in Some (rev (last_n @ pad_headers (needed - n) (hi_timestamp (last last_n)) last_ts_delta last_diff))
        else Some (rev last_n))"

section \<open>Compact targets\<close>

definition compact_to_biguint :: "u32 \<Rightarrow> nat option" where
  "compact_to_biguint nbits =
    (let size = unat (drop_bit 24 nbits);
         word0 = nbits AND 0x007fffff;
         word = (if size \<le> 3 then drop_bit (8 * (3 - size)) word0 else word0);
         bignum = (if size \<le> 3 then unat word else push_bit (8 * (size - 3)) (unat word))
     in if word \<noteq> 0 \<and> nbits AND 0x00800000 \<noteq> 0 then None
        else if word \<noteq> 0 \<and> (size > 34 \<or> (word > 0xff \<and> size > 33) \<or> (word > 0xffff \<and> size > 32)) then None
        else Some bignum)"

definition get_biguint_low64 :: "nat \<Rightarrow> u64 option" where
  "get_biguint_low64 bignum =
    (let v = le_val (take 64 (to_bytes_le bignum))
     in if v < 2 ^ 64 then Some (of_nat v) else None)"

definition biguint_to_compact :: "nat \<Rightarrow> bool \<Rightarrow> u32 option" where
  "biguint_to_compact bignum negative =
    (let size = (bit_len bignum + 7) div 8
     in case (if size \<le> 3
              then map_option (\<lambda>low. ucast (push_bit (8 * (3 - size)) low) :: u32) (get_biguint_low64 bignum)
              else map_option ucast (get_biguint_low64 (drop_bit (8 * (size - 3)) bignum)))
        of None \<Rightarrow> None
         | Some compact0 \<Rightarrow>
           (let adj = compact0 AND 0x00800000 \<noteq> 0;
                compact1 = (if adj then drop_bit 8 compact0 else compact0);
                size1 = (if adj then size + 1 else size)
            in if compact1 AND NOT 0x007fffff \<noteq> 0 \<or> \<not> size1 < 256 then None
               else let compact2 = compact1 OR of_nat (push_bit 24 size1)
                    in Some (compact2 OR (if negative \<and> compact2 AND 0x007fffff \<noteq> 0 then 0x00800000 else 0))))"

definition next_bit_difficulty :: "chain_types \<Rightarrow> u64 \<Rightarrow> u32 \<Rightarrow> u64 \<Rightarrow> u64 \<Rightarrow> u32 option" where
  "next_bit_difficulty ct cur_height cur_bits cur_block_time first_block_time =
    (let target_height = cur_height + 1
     in if target_height mod DIFFICULTY_ADJUST_WINDOW \<noteq> 0 then Some cur_bits
        else let ts_delta = cur_block_time - first_block_time;
                 adj_ts = (if ts_delta > BLOCK_TIME_WINDOW * 4 then BLOCK_TIME_WINDOW * 4
                           else if ts_delta < BLOCK_TIME_WINDOW div 4 then BLOCK_TIME_WINDOW div 4
                           else ts_delta)
             in case compact_to_biguint cur_bits of
                  None \<Rightarrow> None
                | Some target \<Rightarrow>
                  map_option (min (min_bit_diff ct))
                    (biguint_to_compact (target * unat adj_ts div unat BLOCK_TIME_WINDOW) False))"

section \<open>Rewards\<close>

text \<open>The reward of a block before fees, on natural numbers.\<close>

definition subsidy :: "chain_types \<Rightarrow> nat \<Rightarrow> nat" where
  "subsidy ct height = 50000000000 div 2 ^ (height div unat (halving_interval ct))"

lemma unat_REWARD: "unat REWARD = 50000000000"
  by (simp add: const_defs)

lemma unat_halving_interval: "unat (halving_interval ct) = (if ct = Mainnet then 210000 else 144)"
  by (cases ct) (simp_all add: halving_interval_def const_defs)

lemma unat_shr: "unat n < 64 \<Longrightarrow> unat (shr a n) = unat a div 2 ^ unat n"
  unfolding shr_def unat_drop_bit_eq by (simp add: drop_bit_eq_div)

lemma subsidy_le: "subsidy ct h \<le> 50000000000"
  by (simp add: subsidy_def)

lemma subsidy_0: "64 * unat (halving_interval ct) \<le> h \<Longrightarrow> subsidy ct h = 0"
proof -
  assume "64 * unat (halving_interval ct) \<le> h"
  then have "64 \<le> h div unat (halving_interval ct)"
    using div_le_mono [of "64 * unat (halving_interval ct)" h "unat (halving_interval ct)"]
    by (simp add: unat_halving_interval split: if_splits)
  then have "(2::nat) ^ 64 \<le> 2 ^ (h div unat (halving_interval ct))" by (rule power_increasing) simp
  then show ?thesis by (simp add: subsidy_def)
qed

lemma unat_reward_eq: "unat (reward ct height fee) = min (subsidy ct (unat height) + unat fee) (2 ^ 64 - 1)"
proof -
  let ?h = "height div halving_interval ct"
  have u: "unat ?h = unat height div unat (halving_interval ct)" by (rule unat_div)
  show ?thesis
  proof (cases "?h \<ge> 64")
    case True
    then have "64 \<le> unat height div unat (halving_interval ct)" using u by (simp add: word_le_nat_alt)
    then have "(2::nat) ^ 64 \<le> 2 ^ (unat height div unat (halving_interval ct))" by (rule power_increasing) simp
    then have "subsidy ct (unat height) = 0" by (simp add: subsidy_def)
    then show ?thesis using True by (simp add: reward_def unat_sat_add)
  next
    case False
    then have "unat ?h < 64" by (simp add: word_le_nat_alt)
    then show ?thesis using False
      by (simp add: reward_def unat_sat_add unat_shr unat_REWARD subsidy_def u)
  qed
qed

lemma sum_subsidy:
  "sum (subsidy ct) {..h} =
    (\<Sum>i<h div unat (halving_interval ct). unat (halving_interval ct) * (50000000000 div 2 ^ i))
    + 50000000000 div 2 ^ (h div unat (halving_interval ct)) * (h mod unat (halving_interval ct) + 1)"
proof (induction h)
  case 0
  then show ?case by (simp add: subsidy_def)
next
  case (Suc h)
  let ?I = "unat (halving_interval ct)"
  have I: "?I > 0" by (simp add: unat_halving_interval)
  show ?case
  proof (cases "Suc (h mod ?I) = ?I")
    case True
    then have d: "Suc h div ?I = Suc (h div ?I)" "Suc h mod ?I = 0" by (simp_all add: div_Suc mod_Suc)
    then show ?thesis using Suc True by (simp add: subsidy_def d algebra_simps)
  next
    case False
    then have d: "Suc h div ?I = h div ?I" "Suc h mod ?I = Suc (h mod ?I)" by (simp_all add: div_Suc mod_Suc)
    then show ?thesis using Suc by (simp add: subsidy_def d)
  qed
qed

lemma halvings_sum:
  assumes "n \<le> 64"
  shows "unat (foldl (\<lambda>total i. total + halving_interval ct * shr REWARD (of_nat i)) 0 [0..<n])
      = (\<Sum>i<n. unat (halving_interval ct) * (50000000000 div 2 ^ i))
    \<and> (\<Sum>i<n. unat (halving_interval ct) * (50000000000 div 2 ^ i)) \<le> n * 10500000000000000"
  using assms
proof (induction n)
  case (Suc n)
  let ?I = "unat (halving_interval ct)"
  let ?s = "\<Sum>i<n. ?I * (50000000000 div 2 ^ i)"
  let ?t = "?I * (50000000000 div 2 ^ n)"
  have "50000000000 div 2 ^ n \<le> (50000000000::nat)" by simp
  then have "?t \<le> ?I * 50000000000" by (rule mult_le_mono2)
  also have "\<dots> \<le> 10500000000000000" by (simp add: unat_halving_interval)
  finally have t: "?t \<le> 10500000000000000" .
  have n: "unat (of_nat n :: u64) = n" using Suc.prems by (simp add: unat_of_nat_u64)
  have sh: "unat (halving_interval ct * shr REWARD (of_nat n)) = ?t"
    using t Suc.prems by (simp add: unat_word_ariths unat_shr n unat_REWARD)
  have s: "?s \<le> n * 10500000000000000" using Suc by simp
  have "n * 10500000000000000 \<le> 64 * 10500000000000000" using Suc.prems by simp
  with s t have "?s + ?t < 2 ^ 64" by simp
  then show ?case using Suc s t sh by (simp add: unat_word_ariths)
qed simp

lemma unat_total_reward:
  assumes "unat height < 64 * unat (halving_interval ct)"
  shows "unat (total_reward ct height True) = sum (subsidy ct) {..unat height}"
proof -
  let ?I = "unat (halving_interval ct)" and ?q = "unat height div unat (halving_interval ct)"
  let ?F = "foldl (\<lambda>total i. total + halving_interval ct * shr REWARD (of_nat i)) 0 [0..<?q]"
  have I: "?I > 0" "?I \<le> 210000" by (simp_all add: unat_halving_interval)
  have q: "?q < 64" using assms I by (simp add: less_mult_imp_div_less mult.commute)
  have uq: "unat (height div halving_interval ct) = ?q" by (rule unat_div)
  have um: "unat (height mod halving_interval ct) = unat height mod ?I" by (rule unat_mod)
  have F: "unat ?F = (\<Sum>i<?q. ?I * (50000000000 div 2 ^ i))" "unat ?F \<le> ?q * 10500000000000000"
    using halvings_sum [of ?q ct] q by simp_all
  have Fb: "unat ?F \<le> 63 * 10500000000000000" using F(2) q by simp
  have m: "unat height mod ?I + 1 \<le> 210000" using mod_less_divisor [OF I(1), of "unat height"] I(2) by linarith
  have r1: "unat (height mod halving_interval ct + 1) = unat height mod ?I + 1"
    using m um by (simp add: unat_word_ariths)
  have "50000000000 div 2 ^ ?q * (unat height mod ?I + 1) \<le> 50000000000 * 210000"
    using m by (intro mult_le_mono) simp_all
  then have p: "unat (shr REWARD (height div halving_interval ct) * (height mod halving_interval ct + 1))
      = 50000000000 div 2 ^ ?q * (unat height mod ?I + 1)"
      "50000000000 div 2 ^ ?q * (unat height mod ?I + 1) \<le> 10500000000000000"
    using q by (simp_all add: unat_word_ariths(2) unat_shr uq unat_REWARD r1)
  have "unat (total_reward ct height True) = unat ?F + 50000000000 div 2 ^ ?q * (unat height mod ?I + 1)"
    using p Fb by (simp add: total_reward_def uq unat_word_ariths(1))
  then show ?thesis using F(1) sum_subsidy [of ct "unat height"] by simp
qed

section \<open>Compact targets\<close>

text \<open>Decoding and encoding on natural numbers: size and mantissa.\<close>

definition dec_compact :: "nat \<Rightarrow> nat \<Rightarrow> nat" where
  "dec_compact s m = (if s \<le> 3 then m div 256 ^ (3 - s) else m * 256 ^ (s - 3))"

definition enc_size :: "nat \<Rightarrow> nat" where
  "enc_size n = (bit_len n + 7) div 8"

definition enc_mantissa :: "nat \<Rightarrow> nat" where
  "enc_mantissa n = (if enc_size n \<le> 3 then n * 256 ^ (3 - enc_size n) else n div 256 ^ (enc_size n - 3))"

lemma pow_256: "(256::nat) ^ k = 2 ^ (8 * k)"
  by (simp add: power_mult)

lemma unat_and_7fffff: "unat (c AND 0x007fffff :: u32) = unat c mod 2 ^ 23"
proof -
  have "(0x007fffff :: u32) = mask 23" by (simp add: mask_eq_exp_minus_1)
  then have "c AND 0x007fffff = take_bit 23 c" by (simp only: take_bit_eq_mask)
  moreover have "unat (take_bit 23 c) = take_bit 23 (unat c)" by (rule unsigned_take_bit_eq)
  moreover have "\<dots> = unat c mod 2 ^ 23" by (rule take_bit_eq_mod)
  ultimately show ?thesis by (simp only:)
qed

lemma and_800000: "c AND 0x00800000 \<noteq> (0 :: u32) \<longleftrightarrow> odd (unat c div 2 ^ 23)"
proof -
  have "(0x00800000 :: u32) = 2 ^ 23" by simp
  then have "c AND 0x00800000 \<noteq> 0 \<longleftrightarrow> bit c 23" by (simp only: and_exp_eq_0_iff_not_bit) simp
  also have "\<dots> \<longleftrightarrow> bit (unat c) 23" by (simp add: bit_unsigned_iff)
  finally show ?thesis by (simp add: bit_iff_odd)
qed

lemma unat_drop_bit_24: "unat (drop_bit 24 (c :: u32)) = unat c div 2 ^ 24"
  unfolding unat_drop_bit_eq by (simp only: drop_bit_eq_div)

lemma compact_to_biguint_eq:
  assumes c: "unat c = s * 2 ^ 24 + m" and m: "m < 2 ^ 23" and s: "s \<le> 33" "s = 33 \<longrightarrow> m \<le> 0xffff"
  shows "compact_to_biguint c = Some (dec_compact s m)"
proof -
  have size: "unat (drop_bit 24 c) = s" unfolding unat_drop_bit_24 using c m by simp
  have c': "unat c = m + 2 * s * 2 ^ 23" using c by simp
  have word: "unat (c AND 0x007fffff) = m" unfolding unat_and_7fffff c' using m by (simp only: mod_mult_self1 mod_less)
  have pos: "\<not> c AND 0x00800000 \<noteq> 0"
  proof -
    have "unat c div 2 ^ 23 = 2 * s" unfolding c' using m by (subst div_mult_self1) simp_all
    then show ?thesis unfolding and_800000 by simp
  qed
  show ?thesis
  proof (cases "s \<le> 3")
    case True
    have "unat (drop_bit (8 * (3 - s)) (c AND 0x007fffff)) = m div 256 ^ (3 - s)"
      unfolding unat_drop_bit_eq word by (simp add: drop_bit_eq_div pow_256)
    then show ?thesis using True pos size by (auto simp: compact_to_biguint_def dec_compact_def Let_def)
  next
    case False
    have w: "\<not> ((c AND 0x007fffff) > 0xffff \<and> s > 32)"
      using s word by (auto simp: word_less_nat_alt)
    show ?thesis using False pos size s w
      by (auto simp: compact_to_biguint_def dec_compact_def Let_def word push_bit_eq_mult pow_256)
  qed
qed

lemma bit_len_bounds: "n < 2 ^ bit_len n" "n \<noteq> 0 \<Longrightarrow> 2 ^ (bit_len n - 1) \<le> n"
proof -
  show "n < 2 ^ bit_len n" by (rule less_2_bit_len)
  assume "n \<noteq> 0"
  show "2 ^ (bit_len n - 1) \<le> n"
  proof (rule ccontr)
    assume "\<not> ?thesis"
    then have "bit_len n \<le> bit_len n - 1" by (intro bit_len_le) simp
    then show False using \<open>n \<noteq> 0\<close> by (simp add: bit_len.simps [of n])
  qed
qed

lemma less_enc_size: "n < 256 ^ enc_size n"
proof -
  have "bit_len n \<le> 8 * enc_size n" by (simp add: enc_size_def)
  then have "(2::nat) ^ bit_len n \<le> 2 ^ (8 * enc_size n)" by (intro power_increasing) simp_all
  then show ?thesis using less_2_bit_len [of n] by (simp only: pow_256)
qed

lemma enc_mantissa_less: "enc_mantissa n < 2 ^ 24"
proof (cases "enc_size n \<le> 3")
  case True
  have "n * 256 ^ (3 - enc_size n) < 256 ^ enc_size n * 256 ^ (3 - enc_size n)"
    using less_enc_size [of n] by (intro mult_strict_right_mono) simp_all
  also have "\<dots> = 256 ^ 3" using True by (subst power_add [symmetric]) simp
  finally show ?thesis using True by (simp add: enc_mantissa_def)
next
  case False
  have "n < 256 ^ 3 * 256 ^ (enc_size n - 3)"
    using less_enc_size [of n] False by (subst power_add [symmetric]) simp
  then have "n div 256 ^ (enc_size n - 3) < 256 ^ 3" by (simp add: less_mult_imp_div_less)
  then show ?thesis using False by (simp add: enc_mantissa_def)
qed

lemma enc_mantissa_ge:
  assumes "3 < enc_size n"
  shows "2 ^ 16 \<le> enc_mantissa n"
proof -
  have "n \<noteq> 0" using assms by (intro notI) (simp add: enc_size_def bit_len.simps)
  then have bl: "8 * enc_size n - 7 \<le> bit_len n" "n \<noteq> 0" by (simp_all add: enc_size_def)
  then have "(2::nat) ^ (8 * enc_size n - 8) \<le> 2 ^ (bit_len n - 1)" by (intro power_increasing) simp_all
  also have "\<dots> \<le> n" using bl by (intro bit_len_bounds)
  finally have le: "2 ^ (8 * enc_size n - 8) \<le> n" .
  have "8 * enc_size n - 8 = 16 + 8 * (enc_size n - 3)" using assms by simp
  then have "2 ^ 16 * 256 ^ (enc_size n - 3) \<le> n" using le by (simp only: pow_256 power_add)
  then show ?thesis using assms by (simp add: enc_mantissa_def less_eq_div_iff_mult_less_eq)
qed

lemma length_to_bytes_le: "n < 256 ^ Suc k \<Longrightarrow> length (to_bytes_le n) \<le> Suc k"
proof (induction k arbitrary: n)
  case (Suc k)
  then have "n div 256 < 256 ^ Suc k" by (simp add: div_less_iff_less_mult)
  then show ?case using Suc.IH by (simp add: to_bytes_le.simps [of n])
qed (simp add: to_bytes_le.simps)

lemma get_biguint_low64_eq: "n < 2 ^ 24 \<Longrightarrow> get_biguint_low64 n = Some (of_nat n)"
  using length_to_bytes_le [of n 2] by (simp add: get_biguint_low64_def le_val_to_bytes_le)

lemma enc_size_le:
  assumes "n < 2 ^ 256"
  shows "enc_size n \<le> 32"
  using bit_len_le [OF assms] by (simp add: enc_size_def)

lemma compact0_eq:
  assumes "n < 2 ^ 256"
  shows "(if enc_size n \<le> 3
      then map_option (\<lambda>low. ucast (push_bit (8 * (3 - enc_size n)) low) :: u32) (get_biguint_low64 n)
      else map_option ucast (get_biguint_low64 (drop_bit (8 * (enc_size n - 3)) n)))
    = Some (of_nat (enc_mantissa n))"
proof (cases "enc_size n \<le> 3")
  case True
  have "(256::nat) ^ enc_size n \<le> 256 ^ 3" using True by (intro power_increasing) simp_all
  then have n: "n < 2 ^ 24" using less_enc_size [of n] by simp
  have "push_bit (8 * (3 - enc_size n)) (of_nat n :: u64) = of_nat (enc_mantissa n)"
    using True by (simp add: enc_mantissa_def pow_256 push_bit_eq_mult)
  moreover have "ucast (of_nat k :: u64) = (of_nat k :: u32)" if "k < 2 ^ 24" for k
    using that by (simp add: word_eq_iff_unsigned unsigned_ucast_eq unsigned_of_nat take_bit_nat_eq_self)
  ultimately show ?thesis using True get_biguint_low64_eq [OF n] enc_mantissa_less [of n] by simp
next
  case False
  have d: "drop_bit (8 * (enc_size n - 3)) n = enc_mantissa n"
    using False by (simp add: enc_mantissa_def pow_256 drop_bit_eq_div)
  moreover have "ucast (of_nat k :: u64) = (of_nat k :: u32)" if "k < 2 ^ 24" for k
    using that by (simp add: word_eq_iff_unsigned unsigned_ucast_eq unsigned_of_nat take_bit_nat_eq_self)
  ultimately show ?thesis using False get_biguint_low64_eq [OF enc_mantissa_less [of n]] enc_mantissa_less [of n] by simp
qed

definition enc_adj :: "nat \<Rightarrow> bool" where
  "enc_adj n \<longleftrightarrow> 2 ^ 23 \<le> enc_mantissa n"

definition enc_size' :: "nat \<Rightarrow> nat" where
  "enc_size' n = (if enc_adj n then enc_size n + 1 else enc_size n)"

definition enc_mantissa' :: "nat \<Rightarrow> nat" where
  "enc_mantissa' n = (if enc_adj n then enc_mantissa n div 256 else enc_mantissa n)"

lemma enc_mantissa'_less: "enc_mantissa' n < 2 ^ 23"
  using enc_mantissa_less [of n] by (auto simp: enc_mantissa'_def enc_adj_def)

lemma u32_or_size:
  assumes "m < 2 ^ 23" "s < 256"
  shows "unat (of_nat m OR of_nat (push_bit 24 s) :: u32) = s * 2 ^ 24 + m"
proof -
  have m: "unat (of_nat m :: u32) = m" using assms(1) by (simp add: unat_of_nat)
  have s: "unat (of_nat (push_bit 24 s) :: u32) = push_bit 24 s"
    using assms(2) by (subst unat_of_nat) (simp add: push_bit_eq_mult)
  have "unat (of_nat m OR of_nat (push_bit 24 s) :: u32) = m OR push_bit 24 s"
    by (simp only: unsigned_or_eq m s)
  also have "m AND push_bit 24 s = 0"
  proof (rule bit_eqI)
    fix k
    have "\<not> bit m k" if "24 \<le> k"
    proof -
      have "(2::nat) ^ 23 \<le> 2 ^ k" using that by (intro power_increasing) simp_all
      then have "m < 2 ^ k" using assms(1) by linarith
      then show ?thesis by (simp add: bit_iff_odd)
    qed
    then show "bit (m AND push_bit 24 s) k \<longleftrightarrow> bit 0 k" by (auto simp: bit_and_iff bit_push_bit_iff)
  qed
  then have "m OR push_bit 24 s = m + push_bit 24 s" by (simp add: disjunctive_add_eq_or)
  finally show ?thesis by (simp add: push_bit_eq_mult)
qed

lemma u32_high_bits_clear:
  fixes x :: u32
  assumes "unat x < 2 ^ 23"
  shows "x AND NOT 0x007fffff = 0"
proof -
  have "unat (take_bit 23 x) = take_bit 23 (unat x)" by (rule unsigned_take_bit_eq)
  also have "\<dots> = unat x" using assms by (rule take_bit_nat_eq_self)
  finally have "take_bit 23 x = x" by (rule unsigned_word_eqI)
  moreover have "(0x007fffff :: u32) = mask 23" by (simp add: mask_eq_exp_minus_1)
  ultimately show ?thesis by (metis and.assoc and_zero_eq bit.conj_cancel_right take_bit_eq_mask)
qed

lemma biguint_to_compact_eq:
  assumes "n < 2 ^ 256"
  shows "\<exists>c. biguint_to_compact n False = Some c \<and> unat c = enc_size' n * 2 ^ 24 + enc_mantissa' n"
proof -
  let ?c0 = "of_nat (enc_mantissa n) :: u32"
  have u0: "unat ?c0 = enc_mantissa n" using enc_mantissa_less [of n] by (simp add: unat_of_nat)
  have adj: "?c0 AND 0x00800000 \<noteq> 0 \<longleftrightarrow> enc_adj n"
  proof -
    have "enc_mantissa n div 2 ^ 23 < 2" using enc_mantissa_less [of n] by (simp add: less_mult_imp_div_less)
    then have "odd (enc_mantissa n div 2 ^ 23) \<longleftrightarrow> 1 \<le> enc_mantissa n div 2 ^ 23" by (cases "enc_mantissa n div 2 ^ 23") auto
    also have "\<dots> \<longleftrightarrow> enc_adj n" by (simp add: enc_adj_def less_eq_div_iff_mult_less_eq)
    finally show ?thesis unfolding and_800000 u0 .
  qed
  let ?c1 = "if enc_adj n then drop_bit 8 ?c0 else ?c0"
  have u1: "?c1 = of_nat (enc_mantissa' n)"
  proof -
    have "unat (drop_bit 8 ?c0) = enc_mantissa n div 256" unfolding unat_drop_bit_eq u0 by (simp add: drop_bit_eq_div)
    moreover have "unat (of_nat (enc_mantissa n div 256) :: u32) = enc_mantissa n div 256"
      using enc_mantissa_less [of n] by (simp add: unat_of_nat)
    ultimately have "drop_bit 8 ?c0 = of_nat (enc_mantissa n div 256)" by (metis unsigned_word_eqI)
    then show ?thesis by (simp add: enc_mantissa'_def)
  qed
  have s: "enc_size' n < 256" using enc_size_le [OF assms] by (simp add: enc_size'_def)
  have u': "unat (of_nat (enc_mantissa' n) :: u32) = enc_mantissa' n"
    using enc_mantissa'_less [of n] by (simp add: unat_of_nat)
  have clear: "of_nat (enc_mantissa' n) AND NOT 0x007fffff = (0 :: u32)"
    by (rule u32_high_bits_clear) (simp only: u' enc_mantissa'_less)
  have "biguint_to_compact n False = Some (of_nat (enc_mantissa' n) OR of_nat (push_bit 24 (enc_size' n)))"
    unfolding biguint_to_compact_def Let_def enc_size_def [symmetric] compact0_eq [OF assms] option.case adj u1
      enc_size'_def [symmetric]
    using clear s by simp
  then show ?thesis using u32_or_size [OF enc_mantissa'_less s] by blast
qed

text \<open>Decoding what was encoded drops at most the digits below the mantissa.\<close>

lemma dec_enc:
  shows "dec_compact (enc_size' n) (enc_mantissa' n) \<le> n"
    and "(n - dec_compact (enc_size' n) (enc_mantissa' n)) * 2 ^ 15 \<le> n"
proof -
  let ?s = "enc_size n" and ?d = "dec_compact (enc_size' n) (enc_mantissa' n)"
  consider (plain) "?s \<le> 3" "\<not> enc_adj n" | (shifted) "?s \<le> 2" "enc_adj n"
    | (high) "3 < ?s" "\<not> enc_adj n" | (high_shifted) "3 \<le> ?s" "enc_adj n" by linarith
  then have "?d = n \<or> (\<exists>B. ?d = n div B * B \<and> 2 ^ 15 \<le> n div B \<and> 0 < B)"
  proof cases
    case plain
    then show ?thesis by (simp add: dec_compact_def enc_size'_def enc_mantissa'_def enc_mantissa_def)
  next
    case shifted
    have "enc_mantissa n div 256 = n * 256 ^ (2 - ?s)"
      using shifted by (simp add: enc_mantissa_def Suc_diff_le numeral_3_eq_3 numeral_2_eq_2)
    then show ?thesis using shifted by (simp add: dec_compact_def enc_size'_def enc_mantissa'_def)
  next
    case high
    then have "?d = n div 256 ^ (?s - 3) * 256 ^ (?s - 3)" "2 ^ 16 \<le> n div 256 ^ (?s - 3)"
      using enc_mantissa_ge [of n] by (simp_all add: dec_compact_def enc_size'_def enc_mantissa'_def enc_mantissa_def)
    then show ?thesis by (intro disjI2 exI [of _ "256 ^ (?s - 3)"]) simp
  next
    case high_shifted
    let ?B = "256 ^ (?s - 2) :: nat"
    have "?s - 2 = Suc (?s - 3)" using high_shifted(1) by simp
    then have pow: "256 ^ (?s - 3) * 256 = ?B" by simp
    have m: "enc_mantissa n = n div 256 ^ (?s - 3)" using high_shifted(1) by (auto simp: enc_mantissa_def)
    have "enc_mantissa n div 256 = n div ?B" unfolding m pow [symmetric] by (simp add: div_mult2_eq)
    moreover have "2 ^ 15 \<le> enc_mantissa n div 256"
      using high_shifted(2) by (simp add: enc_adj_def less_eq_div_iff_mult_less_eq)
    moreover have "?s + 1 - 3 = ?s - 2" "\<not> ?s + 1 \<le> 3" using high_shifted(1) by simp_all
    ultimately show ?thesis using high_shifted(2)
      by (intro disjI2 exI [of _ ?B]) (simp add: dec_compact_def enc_size'_def enc_mantissa'_def)
  qed
  then show "?d \<le> n" by (metis div_times_less_eq_dividend le_refl)
  from \<open>?d = n \<or> _\<close> show "(n - ?d) * 2 ^ 15 \<le> n"
  proof (elim disjE exE conjE)
    fix B assume d: "?d = n div B * B" and B: "2 ^ 15 \<le> n div B" "0 < B"
    have "n - ?d = n mod B" by (simp add: d minus_div_mult_eq_mod)
    then have "(n - ?d) * 2 ^ 15 \<le> B * (n div B)" using B by (intro mult_le_mono) simp_all
    then show ?thesis using times_div_less_eq_dividend [of B n] by linarith
  qed simp
qed

lemma compact_roundtrip_ex:
  assumes "n < 2 ^ 256"
  shows "\<exists>c m. biguint_to_compact n False = Some c \<and> compact_to_biguint c = Some m \<and> m \<le> n \<and> (n - m) * 2 ^ 15 \<le> n"
proof -
  obtain c where c: "biguint_to_compact n False = Some c" "unat c = enc_size' n * 2 ^ 24 + enc_mantissa' n"
    using biguint_to_compact_eq [OF assms] by blast
  have "enc_size' n \<le> 33" "enc_size' n = 33 \<longrightarrow> enc_mantissa' n \<le> 0xffff"
    using enc_size_le [OF assms] enc_mantissa_less [of n] by (auto simp: enc_size'_def enc_mantissa'_def)
  then have "compact_to_biguint c = Some (dec_compact (enc_size' n) (enc_mantissa' n))"
    using compact_to_biguint_eq [OF c(2) enc_mantissa'_less] by blast
  then show ?thesis using c(1) dec_enc [of n] by blast
qed

section \<open>Retargeting\<close>

lemma unat_windows:
  "unat DIFFICULTY_ADJUST_WINDOW = 2016" "unat BLOCK_TIME_WINDOW = 1209600"
  "unat (BLOCK_TIME_WINDOW * 4) = 4838400" "unat (BLOCK_TIME_WINDOW div 4) = 302400"
  by (simp_all add: const_defs)

text \<open>The elapsed time of a window as the code clamps it: the difference of the two timestamps at 64
  bits, read as unsigned.\<close>

definition window_time :: "u64 \<Rightarrow> u64 \<Rightarrow> nat" where
  "window_time cur first = min 4838400 (max 302400 (unat (cur - first)))"

lemma scaled_target_less:
  assumes "t < 2 ^ 253"
  shows "t * window_time cur first div 1209600 < 2 ^ 256"
proof -
  have "t * window_time cur first \<le> t * 4 * 1209600" by (simp add: window_time_def)
  then have "t * window_time cur first div 1209600 \<le> t * 4 * 1209600 div 1209600" by (rule div_le_mono)
  also have "\<dots> = t * 4" by (rule nonzero_mult_div_cancel_right) simp
  finally have "t * window_time cur first div 1209600 \<le> t * 4" .
  then show ?thesis using assms by simp
qed

definition adj_ts :: "u64 \<Rightarrow> u64" where
  "adj_ts d = (if d > BLOCK_TIME_WINDOW * 4 then BLOCK_TIME_WINDOW * 4
     else if d < BLOCK_TIME_WINDOW div 4 then BLOCK_TIME_WINDOW div 4 else d)"

lemma unat_adj_ts: "unat (adj_ts (cur - first)) = window_time cur first"
  by (simp add: adj_ts_def window_time_def word_less_nat_alt unat_windows)

lemma next_bit_difficulty_adj:
  "next_bit_difficulty ct h bits cur first =
    (if (h + 1) mod DIFFICULTY_ADJUST_WINDOW \<noteq> 0 then Some bits
     else case compact_to_biguint bits of None \<Rightarrow> None
       | Some t \<Rightarrow> map_option (min (min_bit_diff ct))
           (biguint_to_compact (t * unat (adj_ts (cur - first)) div unat BLOCK_TIME_WINDOW) False))"
  unfolding next_bit_difficulty_def adj_ts_def Let_def ..

lemma adjustment_height:
  assumes "unat h + 1 < 2 ^ 64"
  shows "(h + 1) mod DIFFICULTY_ADJUST_WINDOW = 0 \<longleftrightarrow> (unat h + 1) mod 2016 = 0"
proof -
  have "unat (h + 1) = unat h + 1" using assms by (simp add: unat_word_ariths)
  then show ?thesis by (simp only: word_unat_eq_iff unat_mod unat_windows unat_0)
qed

lemma retarget_eq:
  assumes "compact_to_biguint bits = Some t" "t < 2 ^ 253" "(unat h + 1) mod 2016 = 0" "unat h + 1 < 2 ^ 64"
  shows "\<exists>c. biguint_to_compact (t * window_time cur first div 1209600) False = Some c
    \<and> next_bit_difficulty ct h bits cur first = Some (min (min_bit_diff ct) c)"
proof -
  obtain c where c: "biguint_to_compact (t * window_time cur first div 1209600) False = Some c"
    using compact_roundtrip_ex [OF scaled_target_less [OF assms(2), of cur first]] by blast
  have "(h + 1) mod DIFFICULTY_ADJUST_WINDOW = 0" by (rule iffD2 [OF adjustment_height [OF assms(4)] assms(3)])
  then have "next_bit_difficulty ct h bits cur first = Some (min (min_bit_diff ct) c)"
    by (simp only: next_bit_difficulty_adj assms(1) unat_adj_ts unat_windows c option.case option.map if_False simp_thms)
  then show ?thesis using c by blast
qed

lemma window_time_negative: "sint (cur - first) < 0 \<Longrightarrow> window_time cur first = 4838400"
proof -
  assume "sint (cur - first) < 0"
  then have "bit (cur - first) 63" using bit_last_iff [of "cur - first"] by simp
  then have "bit (unat (cur - first)) 63" by (simp add: bit_unsigned_iff)
  then have "odd (unat (cur - first) div 2 ^ 63)" by (rule iffD1 [OF bit_iff_odd])
  then have "2 ^ 63 \<le> unat (cur - first)" by (cases "unat (cur - first) < 2 ^ 63") simp_all
  then show ?thesis by (simp add: window_time_def)
qed

lemma length_pad_headers [simp]: "length (pad_headers k ts d diff) = k"
  by (induction k arbitrary: ts) (simp_all add: Let_def)

section \<open>Properties\<close>



text \<open>
  The reward of a block is its halved subsidy plus its fees, saturating at the largest 64-bit
  value, and no subsidy is paid from the 64th halving on.
\<close>

theorem reward_correct:
  "unat (reward ct height fee) =
    min (50000000000 div 2 ^ (unat height div unat (halving_interval ct)) + unat fee) (2 ^ 64 - 1)"
  using unat_reward_eq [of ct height fee] by (simp add: subsidy_def)

text \<open>
  Claim C29. Encoding a target below \<open>2 ^ 256\<close> in compact form and decoding it succeeds and loses less
  than one part in \<open>2 ^ 15\<close>, never exceeding the target.
\<close>

theorem compact_roundtrip:
  assumes "n < 2 ^ 256"
  shows "\<exists>c m. biguint_to_compact n False = Some c \<and> compact_to_biguint c = Some m
    \<and> m \<le> n \<and> (n - m) * 2 ^ 15 \<le> n"
  using assms by (rule compact_roundtrip_ex)

lemma compact_roundtrip_witness:
  "\<exists>c m. biguint_to_compact 12345678901234567890 False = Some c \<and> compact_to_biguint c = Some m
    \<and> m \<le> 12345678901234567890 \<and> (12345678901234567890 - m) * 2 ^ 15 \<le> 12345678901234567890"
  using compact_roundtrip [of 12345678901234567890] by simp

text \<open>
  Claim C23. \<open>next_bit_difficulty\<close> keeps the bits between adjustment heights; at an adjustment height it
  scales the target by the time of the window, clamped to a factor of four either way, re-encodes it
  with an error below one part in \<open>2 ^ 15\<close> and never returns bits above the network's limit; a window
  with a negative elapsed time counts as the longest one.
\<close>

theorem next_bit_difficulty_correct:
  assumes "compact_to_biguint bits = Some t" "t < 2 ^ 253" "unat h + 1 < 2 ^ 64"
  shows "\<exists>r. next_bit_difficulty ct h bits cur first = Some r
    \<and> ((unat h + 1) mod 2016 \<noteq> 0 \<longrightarrow> r = bits)
    \<and> ((unat h + 1) mod 2016 = 0 \<longrightarrow> r \<le> min_bit_diff ct
        \<and> (\<exists>c m w. r = min (min_bit_diff ct) c \<and> compact_to_biguint c = Some m
             \<and> w = (if sint (cur - first) < 0 then 4 * 1209600
                    else min (4 * 1209600) (max (1209600 div 4) (unat (cur - first))))
             \<and> m \<le> t * w div 1209600 \<and> (t * w div 1209600 - m) * 2 ^ 15 \<le> t * w div 1209600))"
proof (cases "(unat h + 1) mod 2016 = 0")
  case False
  then have "\<not> (h + 1) mod DIFFICULTY_ADJUST_WINDOW = 0" by (simp only: adjustment_height [OF assms(3)] simp_thms)
  then have "next_bit_difficulty ct h bits cur first = Some bits"
    by (simp only: next_bit_difficulty_adj simp_thms if_True)
  then show ?thesis using False by (intro exI [of _ bits]) simp
next
  case True
  let ?n = "t * window_time cur first div 1209600"
  obtain c where c: "biguint_to_compact ?n False = Some c"
    "next_bit_difficulty ct h bits cur first = Some (min (min_bit_diff ct) c)"
    using retarget_eq [OF assms(1,2) True assms(3)] by blast
  from compact_roundtrip_ex [OF scaled_target_less [OF assms(2), of cur first]] obtain m where
    m: "compact_to_biguint c = Some m" "m \<le> ?n" "(?n - m) * 2 ^ 15 \<le> ?n" using c(1) by auto
  have w: "window_time cur first = (if sint (cur - first) < 0 then 4 * 1209600
      else min (4 * 1209600) (max (1209600 div 4) (unat (cur - first))))"
    using window_time_negative [of cur first] by (simp add: window_time_def)
  show ?thesis
  proof (intro exI conjI impI)
    show "next_bit_difficulty ct h bits cur first = Some (min (min_bit_diff ct) c)" by (rule c(2))
    show "compact_to_biguint c = Some m" by (rule m(1))
    show "window_time cur first = (if sint (cur - first) < 0 then 4 * 1209600
      else min (4 * 1209600) (max (1209600 div 4) (unat (cur - first))))" by (rule w)
  qed (use True m in simp_all)
qed

lemma next_bit_difficulty_correct_witness:
  "compact_to_biguint 0x18120f14 = Some (0x120f14 * 256 ^ 21)
    \<and> (\<exists>r. next_bit_difficulty Mainnet 2015 0x18120f14 1209600 0 = Some r \<and> r \<le> min_bit_diff Mainnet)"
proof -
  have t: "compact_to_biguint 0x18120f14 = Some (0x120f14 * 256 ^ 21)"
    by (simp add: compact_to_biguint_def Let_def push_bit_eq_mult)
  then show ?thesis
    using next_bit_difficulty_correct [of "0x18120f14" "0x120f14 * 256 ^ 21" 2015 Mainnet 1209600 0] by auto
qed

text \<open>
  The difficulty window handed to the adjustment always has one entry more than the window,
  ends with the header the cursor starts with and keeps the cursor's headers in reverse order; it
  fails exactly on an empty cursor.
\<close>

theorem difficulty_data_to_vector_correct:
  "case difficulty_data_to_vector cursor of
     None \<Rightarrow> cursor = []
   | Some v \<Rightarrow> cursor \<noteq> [] \<and> length v = 2017
       \<and> take (length cursor) (rev v) = take 2017 cursor \<and> last v = hd cursor"
proof (cases "length cursor < 2017")
  case True
  then show ?thesis
    by (cases cursor) (auto simp: difficulty_data_to_vector_def Let_def unat_windows last_rev hd_append)
next
  case False
  then have "cursor \<noteq> []" "take 2017 cursor \<noteq> []" "hd (take 2017 cursor) = hd cursor" by (auto simp: hd_take)
  then show ?thesis using False
    by (simp add: difficulty_data_to_vector_def Let_def unat_windows last_rev)
qed

end
