(* ===== verification/Tx_Types.thy ===== *)
theory Tx_Types
  imports Consensus
begin

text \<open>
  The elements of a transaction, \<open>core/src/core/transaction.rs\<close>: output and kernel features, inputs,
  outputs, kernels and identifiers, of the coin and of tokens, with the bytes they are written as.
  A writer is its serialization mode and its protocol version; what is hashed is the writing in
  \<open>HashMode\<close> at the local version. The functions of the \<open>secp256k1zkp\<close> crate are the record \<open>secp\<close>, an
  argument of the definitions that call them; \<open>secp_commit_value\<close> is the unwrapped call, which cannot fail
  on a context with the commit capability.
\<close>

section \<open>The secp library\<close>

type_synonym secp_error = nat
type_synonym pubkey = bytes
type_synonym secret_key = bytes
type_synonym message = bytes

record secp =
  secp_K :: secp_sizes
  ZERO_KEY :: secret_key
  message_from_slice :: "bytes \<Rightarrow> secp_error + message"
  to_pubkey :: "commitment \<Rightarrow> secp_error + pubkey"
  aggsig_verify_single :: "signature \<Rightarrow> message \<Rightarrow> pubkey \<Rightarrow> bool"
  aggsig_verify_batch :: "signature list \<Rightarrow> message list \<Rightarrow> pubkey list \<Rightarrow> bool"
  verify_bullet_proof :: "commitment \<Rightarrow> range_proof \<Rightarrow> secp_error + unit"
  verify_bullet_proof_multi :: "commitment list \<Rightarrow> range_proof list \<Rightarrow> secp_error + unit"
  commit_from_vec :: "bytes \<Rightarrow> commitment"
  secp_commit :: "u64 \<Rightarrow> secret_key \<Rightarrow> secp_error + commitment"
  secp_commit_value :: "u64 \<Rightarrow> commitment"
  secp_commit_sum :: "commitment list \<Rightarrow> commitment list \<Rightarrow> secp_error + commitment"
  secp_blind_sum :: "secret_key list \<Rightarrow> secret_key list \<Rightarrow> secp_error + secret_key"
  secret_key_from_slice :: "bytes \<Rightarrow> secp_error + secret_key"

section \<open>Errors\<close>

datatype mnemonic_error = BadWord string | BadChecksum u8 u8 | InvalidLength nat

datatype child_number = NormalChild u32 | HardenedChild u32

datatype extkey_error =
    CannotDeriveFromHardenedKey
  | Ecdsa secp_error
  | InvalidChildNumber child_number
  | RngError string
  | MnemonicError mnemonic_error

datatype keychain_error =
    KeychainSecp secp_error
  | KeyDerivation extkey_error
  | KeychainTransaction string
  | KeychainRangeProof string
  | SwitchCommitment

datatype committed_error =
    CommittedKeychain keychain_error
  | CommittedSecp secp_error
  | KernelSumMismatch
  | InvalidValue
  | TokenSumMismatch

datatype tx_error =
    Secp secp_error
  | Keychain keychain_error
  | TxKernelSumMismatch
  | TooHeavy
  | LockHeight u64
  | RangeProof
  | MerkleProof
  | InvalidProofMessage
  | Committed committed_error
  | AggregationError
  | CutThrough
  | InvalidOutputFeatures
  | InvalidKernelFeatures
  | InvalidTokenKernelFeatures
  | IncorrectSignature
  | Serialization ser_error
  | TokenTypeMismatch
  | IssueTokenKeyRepeated
  | IssueTokenSumMismatch
  | UnreachTokenSupportHeight

section \<open>Token keys and output features\<close>

type_synonym token_key = hash

definition new_zero_key :: token_key where
  "new_zero_key = ZERO_HASH"

definition write_token_key :: "token_key \<Rightarrow> bytes" where
  "write_token_key k = write_hash k"

definition read_token_key :: "reader \<Rightarrow> token_key parse" where
  "read_token_key r = read_hash r"

datatype output_features = Plain | Coinbase | TokenIssue | Token

definition output_features_u8 :: "output_features \<Rightarrow> u8" where
  "output_features_u8 f = (case f of Plain \<Rightarrow> 0 | Coinbase \<Rightarrow> 1 | TokenIssue \<Rightarrow> 98 | Token \<Rightarrow> 99)"

definition output_features_from_u8 :: "u8 \<Rightarrow> output_features option" where
  "output_features_from_u8 b = (if b = 0 then Some Plain else if b = 1 then Some Coinbase
     else if b = 98 then Some TokenIssue else if b = 99 then Some Token else None)"

definition write_output_features :: "output_features \<Rightarrow> bytes" where
  "write_output_features f = write_u8 (output_features_u8 f)"

definition read_output_features :: "reader \<Rightarrow> output_features parse" where
  "read_output_features r =
    rbind (read_u8 r) (\<lambda>(b, r).
      case output_features_from_u8 b of None \<Rightarrow> Inl CorruptedData | Some f \<Rightarrow> Inr (f, r))"

section \<open>Kernel features\<close>

datatype kernel_features =
    PlainKernel u64
  | CoinbaseKernel
  | HeightLocked u64 u64

definition kernel_u8 :: "kernel_features \<Rightarrow> u8" where
  "kernel_u8 f = (case f of PlainKernel _ \<Rightarrow> 0 | CoinbaseKernel \<Rightarrow> 1 | HeightLocked _ _ \<Rightarrow> 2)"

definition write_kernel_v1 :: "kernel_features \<Rightarrow> bytes" where
  "write_kernel_v1 f =
    (let (fee, lock_height) = (case f of PlainKernel fee \<Rightarrow> (fee, 0) | CoinbaseKernel \<Rightarrow> (0, 0)
       | HeightLocked fee lock_height \<Rightarrow> (fee, lock_height))
     in write_u8 (kernel_u8 f) @ write_u64 fee @ write_u64 lock_height)"

definition write_kernel_v2 :: "kernel_features \<Rightarrow> bytes" where
  "write_kernel_v2 f = (case f of
       PlainKernel fee \<Rightarrow> write_u8 (kernel_u8 f) @ write_u64 fee
     | CoinbaseKernel \<Rightarrow> write_u8 (kernel_u8 f)
     | HeightLocked fee lock_height \<Rightarrow> write_u8 (kernel_u8 f) @ write_u64 fee @ write_u64 lock_height)"

definition read_kernel_v1 :: "reader \<Rightarrow> kernel_features parse" where
  "read_kernel_v1 r =
    rbind (read_u8 r) (\<lambda>(feature_byte, r).
    rbind (read_u64 r) (\<lambda>(fee, r).
    rbind (read_u64 r) (\<lambda>(lock_height, r).
      if feature_byte = 0 then
        (if lock_height \<noteq> 0 then Inl CorruptedData else Inr (PlainKernel fee, r))
      else if feature_byte = 1 then
        (if fee \<noteq> 0 then Inl CorruptedData
         else if lock_height \<noteq> 0 then Inl CorruptedData
         else Inr (CoinbaseKernel, r))
      else if feature_byte = 2 then Inr (HeightLocked fee lock_height, r)
      else Inl CorruptedData)))"

definition read_kernel_v2 :: "reader \<Rightarrow> kernel_features parse" where
  "read_kernel_v2 r =
    rbind (read_u8 r) (\<lambda>(feature_byte, r).
      if feature_byte = 0 then rbind (read_u64 r) (\<lambda>(fee, r). Inr (PlainKernel fee, r))
      else if feature_byte = 1 then Inr (CoinbaseKernel, r)
      else if feature_byte = 2 then
        rbind (read_u64 r) (\<lambda>(fee, r). rbind (read_u64 r) (\<lambda>(lock_height, r).
          Inr (HeightLocked fee lock_height, r)))
      else Inl CorruptedData)"

definition write_kernel_features :: "serialization_mode \<Rightarrow> version \<Rightarrow> kernel_features \<Rightarrow> bytes" where
  "write_kernel_features mode v f =
    (if mode = HashMode then write_kernel_v1 f
     else if v \<le> 1 then write_kernel_v1 f else write_kernel_v2 f)"

definition read_kernel_features :: "reader \<Rightarrow> kernel_features parse" where
  "read_kernel_features r = (if rd_version r \<le> 1 then read_kernel_v1 r else read_kernel_v2 r)"

definition kernel_sig_msg :: "(bytes \<Rightarrow> hash) \<Rightarrow> secp \<Rightarrow> kernel_features \<Rightarrow> tx_error + message" where
  "kernel_sig_msg blake S f =
    map_err Secp (message_from_slice S (blake (case f of
       PlainKernel fee \<Rightarrow> write_u8 (kernel_u8 f) @ write_u64 fee
     | CoinbaseKernel \<Rightarrow> write_u8 (kernel_u8 f)
     | HeightLocked fee lock_height \<Rightarrow> write_u8 (kernel_u8 f) @ write_u64 fee @ write_u64 lock_height)))"

datatype token_kernel_features = PlainToken | IssueToken | HeightLockedToken u64

definition token_kernel_u8 :: "token_kernel_features \<Rightarrow> u8" where
  "token_kernel_u8 f = (case f of PlainToken \<Rightarrow> 0 | IssueToken \<Rightarrow> 1 | HeightLockedToken _ \<Rightarrow> 2)"

definition token_kernel_sig_msg ::
  "(bytes \<Rightarrow> hash) \<Rightarrow> secp \<Rightarrow> token_kernel_features \<Rightarrow> token_key \<Rightarrow> tx_error + message" where
  "token_kernel_sig_msg blake S f token_type =
    map_err Secp (message_from_slice S (blake (case f of
       HeightLockedToken lock_height \<Rightarrow>
         write_u8 (token_kernel_u8 f) @ write_token_key token_type @ write_u64 lock_height
     | _ \<Rightarrow> write_u8 (token_kernel_u8 f) @ write_token_key token_type)))"

definition write_token_kernel_features :: "token_kernel_features \<Rightarrow> bytes" where
  "write_token_kernel_features f = (case f of
       HeightLockedToken lock_height \<Rightarrow> write_u8 (token_kernel_u8 f) @ write_u64 lock_height
     | _ \<Rightarrow> write_u8 (token_kernel_u8 f))"

definition read_token_kernel_features :: "reader \<Rightarrow> token_kernel_features parse" where
  "read_token_kernel_features r =
    rbind (read_u8 r) (\<lambda>(b, r).
      if b = 0 then Inr (PlainToken, r)
      else if b = 1 then Inr (IssueToken, r)
      else if b = 2 then rbind (read_u64 r) (\<lambda>(lock_height, r). Inr (HeightLockedToken lock_height, r))
      else Inl CorruptedData)"

section \<open>Kernels\<close>

text \<open>\<open>hashable_ord\<close> compares and equates values by their hash, the digest of what is written in
  \<open>HashMode\<close>.\<close>

record tx_kernel =
  k_features :: kernel_features
  k_excess :: commitment
  k_excess_sig :: signature

definition write_tx_kernel :: "serialization_mode \<Rightarrow> version \<Rightarrow> tx_kernel \<Rightarrow> bytes" where
  "write_tx_kernel mode v k =
    write_kernel_features mode v (k_features k) @ write_commitment (k_excess k) @ write_signature (k_excess_sig k)"

definition read_tx_kernel :: "secp_sizes \<Rightarrow> reader \<Rightarrow> tx_kernel parse" where
  "read_tx_kernel K r =
    rbind (read_kernel_features r) (\<lambda>(f, r).
    rbind (read_commitment K r) (\<lambda>(c, r).
    rbind (read_signature K r) (\<lambda>(s, r).
      Inr (\<lparr>k_features = f, k_excess = c, k_excess_sig = s\<rparr>, r))))"

definition hash_tx_kernel :: "(bytes \<Rightarrow> hash) \<Rightarrow> tx_kernel \<Rightarrow> hash" where
  "hash_tx_kernel blake k = blake (write_tx_kernel HashMode version_local k)"

definition is_coinbase_kernel :: "tx_kernel \<Rightarrow> bool" where
  "is_coinbase_kernel k = (case k_features k of CoinbaseKernel \<Rightarrow> True | _ \<Rightarrow> False)"

definition is_plain_kernel :: "tx_kernel \<Rightarrow> bool" where
  "is_plain_kernel k = (case k_features k of PlainKernel _ \<Rightarrow> True | _ \<Rightarrow> False)"

definition is_height_locked :: "tx_kernel \<Rightarrow> bool" where
  "is_height_locked k = (case k_features k of HeightLocked _ _ \<Rightarrow> True | _ \<Rightarrow> False)"

definition msg_to_sign :: "(bytes \<Rightarrow> hash) \<Rightarrow> secp \<Rightarrow> tx_kernel \<Rightarrow> tx_error + message" where
  "msg_to_sign blake S k = kernel_sig_msg blake S (k_features k)"

definition verify_kernel :: "(bytes \<Rightarrow> hash) \<Rightarrow> secp \<Rightarrow> tx_kernel \<Rightarrow> tx_error + unit" where
  "verify_kernel blake S k =
    rbind (map_err Secp (to_pubkey S (k_excess k))) (\<lambda>pubkey.
    rbind (msg_to_sign blake S k) (\<lambda>msg.
      if \<not> aggsig_verify_single S (k_excess_sig k) msg pubkey then Inl IncorrectSignature else Inr ()))"

text \<open>The loop of \<open>batch_sig_verify\<close> that fills the three vectors.\<close>

fun batch_collect :: "(bytes \<Rightarrow> hash) \<Rightarrow> secp \<Rightarrow> tx_kernel list \<Rightarrow>
    tx_error + signature list \<times> pubkey list \<times> message list" where
  "batch_collect blake S [] = Inr ([], [], [])"
| "batch_collect blake S (k # ks) =
    rbind (map_err Secp (to_pubkey S (k_excess k))) (\<lambda>pubkey.
    rbind (msg_to_sign blake S k) (\<lambda>msg.
    rbind (batch_collect blake S ks) (\<lambda>(sigs, pubkeys, msgs).
      Inr (k_excess_sig k # sigs, pubkey # pubkeys, msg # msgs))))"

definition batch_sig_verify :: "(bytes \<Rightarrow> hash) \<Rightarrow> secp \<Rightarrow> tx_kernel list \<Rightarrow> tx_error + unit" where
  "batch_sig_verify blake S ks =
    rbind (batch_collect blake S ks) (\<lambda>(sigs, pubkeys, msgs).
      if \<not> aggsig_verify_batch S sigs msgs pubkeys then Inl IncorrectSignature else Inr ())"

record token_tx_kernel =
  tk_features :: token_kernel_features
  tk_token_type :: token_key
  tk_excess :: commitment
  tk_excess_sig :: signature

definition write_token_tx_kernel :: "token_tx_kernel \<Rightarrow> bytes" where
  "write_token_tx_kernel k =
    write_token_kernel_features (tk_features k) @ write_token_key (tk_token_type k)
    @ write_commitment (tk_excess k) @ write_signature (tk_excess_sig k)"

definition read_token_tx_kernel :: "secp_sizes \<Rightarrow> reader \<Rightarrow> token_tx_kernel parse" where
  "read_token_tx_kernel K r =
    rbind (read_token_kernel_features r) (\<lambda>(f, r).
    rbind (read_token_key r) (\<lambda>(t, r).
    rbind (read_commitment K r) (\<lambda>(c, r).
    rbind (read_signature K r) (\<lambda>(s, r).
      Inr (\<lparr>tk_features = f, tk_token_type = t, tk_excess = c, tk_excess_sig = s\<rparr>, r)))))"

definition hash_token_tx_kernel :: "(bytes \<Rightarrow> hash) \<Rightarrow> token_tx_kernel \<Rightarrow> hash" where
  "hash_token_tx_kernel blake k = blake (write_token_tx_kernel k)"

definition is_issue_token :: "token_tx_kernel \<Rightarrow> bool" where
  "is_issue_token k = (case tk_features k of IssueToken \<Rightarrow> True | _ \<Rightarrow> False)"

definition is_plain_token :: "token_tx_kernel \<Rightarrow> bool" where
  "is_plain_token k = (case tk_features k of PlainToken \<Rightarrow> True | _ \<Rightarrow> False)"

definition is_height_locked_token :: "token_tx_kernel \<Rightarrow> bool" where
  "is_height_locked_token k = (case tk_features k of HeightLockedToken _ \<Rightarrow> True | _ \<Rightarrow> False)"

definition token_msg_to_sign :: "(bytes \<Rightarrow> hash) \<Rightarrow> secp \<Rightarrow> token_tx_kernel \<Rightarrow> tx_error + message" where
  "token_msg_to_sign blake S k = token_kernel_sig_msg blake S (tk_features k) (tk_token_type k)"

definition verify_token_kernel :: "(bytes \<Rightarrow> hash) \<Rightarrow> secp \<Rightarrow> token_tx_kernel \<Rightarrow> tx_error + unit" where
  "verify_token_kernel blake S k =
    rbind (map_err Secp (to_pubkey S (tk_excess k))) (\<lambda>pubkey.
    rbind (token_msg_to_sign blake S k) (\<lambda>msg.
      if \<not> aggsig_verify_single S (tk_excess_sig k) msg pubkey then Inl IncorrectSignature else Inr ()))"

fun token_batch_collect :: "(bytes \<Rightarrow> hash) \<Rightarrow> secp \<Rightarrow> token_tx_kernel list \<Rightarrow>
    tx_error + signature list \<times> pubkey list \<times> message list" where
  "token_batch_collect blake S [] = Inr ([], [], [])"
| "token_batch_collect blake S (k # ks) =
    rbind (map_err Secp (to_pubkey S (tk_excess k))) (\<lambda>pubkey.
    rbind (token_msg_to_sign blake S k) (\<lambda>msg.
    rbind (token_batch_collect blake S ks) (\<lambda>(sigs, pubkeys, msgs).
      Inr (tk_excess_sig k # sigs, pubkey # pubkeys, msg # msgs))))"

definition token_batch_sig_verify :: "(bytes \<Rightarrow> hash) \<Rightarrow> secp \<Rightarrow> token_tx_kernel list \<Rightarrow> tx_error + unit" where
  "token_batch_sig_verify blake S ks =
    rbind (token_batch_collect blake S ks) (\<lambda>(sigs, pubkeys, msgs).
      if \<not> aggsig_verify_batch S sigs msgs pubkeys then Inl IncorrectSignature else Inr ())"

section \<open>Inputs\<close>

record input =
  i_features :: output_features
  i_commit :: commitment

definition write_input :: "input \<Rightarrow> bytes" where
  "write_input i = write_output_features (i_features i) @ write_commitment (i_commit i)"

definition read_input :: "secp_sizes \<Rightarrow> reader \<Rightarrow> input parse" where
  "read_input K r =
    rbind (read_output_features r) (\<lambda>(f, r).
    rbind (read_commitment K r) (\<lambda>(c, r). Inr (\<lparr>i_features = f, i_commit = c\<rparr>, r)))"

definition hash_input :: "(bytes \<Rightarrow> hash) \<Rightarrow> input \<Rightarrow> hash" where
  "hash_input blake i = blake (write_input i)"

record token_input =
  ti_features :: output_features
  ti_token_type :: token_key
  ti_commit :: commitment

definition write_token_input :: "token_input \<Rightarrow> bytes" where
  "write_token_input i =
    write_output_features (ti_features i) @ write_token_key (ti_token_type i) @ write_commitment (ti_commit i)"

definition read_token_input :: "secp_sizes \<Rightarrow> reader \<Rightarrow> token_input parse" where
  "read_token_input K r =
    rbind (read_output_features r) (\<lambda>(f, r).
    rbind (read_token_key r) (\<lambda>(t, r).
    rbind (read_commitment K r) (\<lambda>(c, r).
      Inr (\<lparr>ti_features = f, ti_token_type = t, ti_commit = c\<rparr>, r))))"

definition hash_token_input :: "(bytes \<Rightarrow> hash) \<Rightarrow> token_input \<Rightarrow> hash" where
  "hash_token_input blake i = blake (write_token_input i)"

section \<open>Outputs\<close>

record output_t =
  o_features :: output_features
  o_commit :: commitment
  o_proof :: range_proof

definition write_output :: "serialization_mode \<Rightarrow> output_t \<Rightarrow> bytes" where
  "write_output mode x =
    write_output_features (o_features x) @ write_commitment (o_commit x)
    @ (if mode \<noteq> HashMode then write_range_proof (o_proof x) else [])"

definition read_output :: "secp_sizes \<Rightarrow> reader \<Rightarrow> output_t parse" where
  "read_output K r =
    rbind (read_output_features r) (\<lambda>(f, r).
    rbind (read_commitment K r) (\<lambda>(c, r).
    rbind (read_range_proof K r) (\<lambda>(p, r).
      Inr (\<lparr>o_features = f, o_commit = c, o_proof = p\<rparr>, r))))"

definition hash_output :: "(bytes \<Rightarrow> hash) \<Rightarrow> output_t \<Rightarrow> hash" where
  "hash_output blake x = blake (write_output HashMode x)"

record token_output =
  to_features :: output_features
  to_token_type :: token_key
  to_commit :: commitment
  to_proof :: range_proof

definition write_token_output :: "serialization_mode \<Rightarrow> token_output \<Rightarrow> bytes" where
  "write_token_output mode x =
    write_output_features (to_features x) @ write_token_key (to_token_type x) @ write_commitment (to_commit x)
    @ (if mode \<noteq> HashMode then write_range_proof (to_proof x) else [])"

definition read_token_output :: "secp_sizes \<Rightarrow> reader \<Rightarrow> token_output parse" where
  "read_token_output K r =
    rbind (read_output_features r) (\<lambda>(f, r).
    rbind (read_token_key r) (\<lambda>(t, r).
    rbind (read_commitment K r) (\<lambda>(c, r).
    rbind (read_range_proof K r) (\<lambda>(p, r).
      Inr (\<lparr>to_features = f, to_token_type = t, to_commit = c, to_proof = p\<rparr>, r)))))"

definition hash_token_output :: "(bytes \<Rightarrow> hash) \<Rightarrow> token_output \<Rightarrow> hash" where
  "hash_token_output blake x = blake (write_token_output HashMode x)"

definition is_coinbase :: "output_t \<Rightarrow> bool" where
  "is_coinbase x \<longleftrightarrow> o_features x = Coinbase"

definition is_plain :: "output_t \<Rightarrow> bool" where
  "is_plain x \<longleftrightarrow> o_features x = Plain"

definition is_tokenissue :: "token_output \<Rightarrow> bool" where
  "is_tokenissue x \<longleftrightarrow> to_features x = TokenIssue"

definition is_token :: "token_output \<Rightarrow> bool" where
  "is_token x \<longleftrightarrow> to_features x = Token"

definition input_is_coinbase :: "input \<Rightarrow> bool" where
  "input_is_coinbase i \<longleftrightarrow> i_features i = Coinbase"

definition input_is_plain :: "input \<Rightarrow> bool" where
  "input_is_plain i \<longleftrightarrow> i_features i = Plain"

definition input_is_tokenissue :: "token_input \<Rightarrow> bool" where
  "input_is_tokenissue i \<longleftrightarrow> ti_features i = TokenIssue"

definition input_is_token :: "token_input \<Rightarrow> bool" where
  "input_is_token i \<longleftrightarrow> ti_features i = Token"

definition verify_proof :: "secp \<Rightarrow> output_t \<Rightarrow> tx_error + unit" where
  "verify_proof S x = map_err Secp (verify_bullet_proof S (o_commit x) (o_proof x))"

definition verify_token_proof :: "secp \<Rightarrow> token_output \<Rightarrow> tx_error + unit" where
  "verify_token_proof S x = map_err Secp (verify_bullet_proof S (to_commit x) (to_proof x))"

definition batch_verify_proofs :: "secp \<Rightarrow> commitment list \<Rightarrow> range_proof list \<Rightarrow> tx_error + unit" where
  "batch_verify_proofs S commits proofs = map_err Secp (verify_bullet_proof_multi S commits proofs)"

section \<open>Identifiers\<close>

record output_identifier =
  oi_features :: output_features
  oi_commit :: commitment

definition write_output_identifier :: "output_identifier \<Rightarrow> bytes" where
  "write_output_identifier x = write_output_features (oi_features x) @ write_commitment (oi_commit x)"

definition read_output_identifier :: "secp_sizes \<Rightarrow> reader \<Rightarrow> output_identifier parse" where
  "read_output_identifier K r =
    rbind (read_output_features r) (\<lambda>(f, r).
    rbind (read_commitment K r) (\<lambda>(c, r). Inr (\<lparr>oi_features = f, oi_commit = c\<rparr>, r)))"

definition identifier_of_output :: "output_t \<Rightarrow> output_identifier" where
  "identifier_of_output x = \<lparr>oi_features = o_features x, oi_commit = o_commit x\<rparr>"

definition identifier_of_input :: "input \<Rightarrow> output_identifier" where
  "identifier_of_input i = \<lparr>oi_features = i_features i, oi_commit = i_commit i\<rparr>"

definition into_output :: "output_identifier \<Rightarrow> range_proof \<Rightarrow> output_t" where
  "into_output x p = \<lparr>o_features = oi_features x, o_commit = oi_commit x, o_proof = p\<rparr>"

record token_output_identifier =
  toi_features :: output_features
  toi_token_type :: token_key
  toi_commit :: commitment

definition write_token_output_identifier :: "token_output_identifier \<Rightarrow> bytes" where
  "write_token_output_identifier x =
    write_output_features (toi_features x) @ write_token_key (toi_token_type x) @ write_commitment (toi_commit x)"

definition read_token_output_identifier :: "secp_sizes \<Rightarrow> reader \<Rightarrow> token_output_identifier parse" where
  "read_token_output_identifier K r =
    rbind (read_output_features r) (\<lambda>(f, r).
    rbind (read_token_key r) (\<lambda>(t, r).
    rbind (read_commitment K r) (\<lambda>(c, r).
      Inr (\<lparr>toi_features = f, toi_token_type = t, toi_commit = c\<rparr>, r))))"

definition identifier_of_token_output :: "token_output \<Rightarrow> token_output_identifier" where
  "identifier_of_token_output x =
    \<lparr>toi_features = to_features x, toi_token_type = to_token_type x, toi_commit = to_commit x\<rparr>"

definition identifier_of_token_input :: "token_input \<Rightarrow> token_output_identifier" where
  "identifier_of_token_input i =
    \<lparr>toi_features = ti_features i, toi_token_type = ti_token_type i, toi_commit = ti_commit i\<rparr>"

definition into_token_output :: "token_output_identifier \<Rightarrow> range_proof \<Rightarrow> token_output" where
  "into_token_output x p =
    \<lparr>to_features = toi_features x, to_token_type = toi_token_type x, to_commit = toi_commit x, to_proof = p\<rparr>"

record token_issue_proof =
  tip_token_type :: token_key
  tip_commit :: commitment
  tip_proof :: range_proof

definition write_token_issue_proof :: "serialization_mode \<Rightarrow> token_issue_proof \<Rightarrow> bytes" where
  "write_token_issue_proof mode x =
    write_token_key (tip_token_type x) @ write_commitment (tip_commit x)
    @ (if mode \<noteq> HashMode then write_range_proof (tip_proof x) else [])"

definition read_token_issue_proof :: "secp_sizes \<Rightarrow> reader \<Rightarrow> token_issue_proof parse" where
  "read_token_issue_proof K r =
    rbind (read_token_key r) (\<lambda>(t, r).
    rbind (read_commitment K r) (\<lambda>(c, r).
    rbind (read_range_proof K r) (\<lambda>(p, r).
      Inr (\<lparr>tip_token_type = t, tip_commit = c, tip_proof = p\<rparr>, r))))"

definition issue_proof_from_token_output :: "token_output \<Rightarrow> token_issue_proof" where
  "issue_proof_from_token_output x =
    \<lparr>tip_token_type = to_token_type x, tip_commit = to_commit x, tip_proof = to_proof x\<rparr>"

section \<open>Codecs\<close>

lemmas codec_rd_wr = hashc.rd_wr commitc.rd_wr blindc.rd_wr sigc.rd_wr rangec.rd_wr

lemma output_features_from_to [simp]: "output_features_from_u8 (output_features_u8 f) = Some f"
  by (cases f) (simp_all add: output_features_u8_def output_features_from_u8_def)

interpretation token_keyc: codec "\<lambda>_. write_token_key" read_token_key "\<lambda>_ k. length k = 32"
  by unfold_locales (simp add: write_token_key_def read_token_key_def hashc.rd_wr)

interpretation output_featuresc: codec "\<lambda>_. write_output_features" read_output_features "\<lambda>_ _. True"
  by unfold_locales (simp add: write_output_features_def read_output_features_def)

lemma read_write_kernel_v1:
  "read_kernel_v1 (adv r n (write_kernel_v1 f @ rest)) = Inr (f, adv r (n + length (write_kernel_v1 f)) rest)"
  by (cases f) (simp_all add: read_kernel_v1_def write_kernel_v1_def kernel_u8_def add.commute)

lemma read_write_kernel_v2:
  "read_kernel_v2 (adv r n (write_kernel_v2 f @ rest)) = Inr (f, adv r (n + length (write_kernel_v2 f)) rest)"
  by (cases f) (simp_all add: read_kernel_v2_def write_kernel_v2_def kernel_u8_def add.commute)

interpretation kernel_featuresc: codec "write_kernel_features FullMode" read_kernel_features "\<lambda>_ _. True"
  by unfold_locales
    (simp add: read_kernel_features_def write_kernel_features_def read_write_kernel_v1 read_write_kernel_v2)

interpretation token_kernel_featuresc:
  codec "\<lambda>_. write_token_kernel_features" read_token_kernel_features "\<lambda>_ _. True"
proof (unfold_locales, goal_cases)
  case (1 r x n rest)
  show ?case by (cases x)
    (simp_all add: read_token_kernel_features_def write_token_kernel_features_def token_kernel_u8_def add.commute)
qed

lemmas tx_codec = codec_rd_wr token_keyc.rd_wr output_featuresc.rd_wr kernel_featuresc.rd_wr
  token_kernel_featuresc.rd_wr

text \<open>A value whose parts have the sizes of their types.\<close>

definition tx_kernel_ok :: "secp_sizes \<Rightarrow> tx_kernel \<Rightarrow> bool" where
  "tx_kernel_ok K k \<longleftrightarrow> fixed_ok (PEDERSEN_COMMITMENT_SIZE K) (k_excess k) \<and> fixed_ok (AGG_SIGNATURE_SIZE K) (k_excess_sig k)"

definition token_tx_kernel_ok :: "secp_sizes \<Rightarrow> token_tx_kernel \<Rightarrow> bool" where
  "token_tx_kernel_ok K k \<longleftrightarrow> length (tk_token_type k) = 32
     \<and> fixed_ok (PEDERSEN_COMMITMENT_SIZE K) (tk_excess k) \<and> fixed_ok (AGG_SIGNATURE_SIZE K) (tk_excess_sig k)"

definition input_ok :: "secp_sizes \<Rightarrow> input \<Rightarrow> bool" where
  "input_ok K i \<longleftrightarrow> fixed_ok (PEDERSEN_COMMITMENT_SIZE K) (i_commit i)"

definition token_input_ok :: "secp_sizes \<Rightarrow> token_input \<Rightarrow> bool" where
  "token_input_ok K i \<longleftrightarrow> length (ti_token_type i) = 32 \<and> fixed_ok (PEDERSEN_COMMITMENT_SIZE K) (ti_commit i)"

definition output_ok :: "secp_sizes \<Rightarrow> output_t \<Rightarrow> bool" where
  "output_ok K x \<longleftrightarrow> fixed_ok (PEDERSEN_COMMITMENT_SIZE K) (o_commit x) \<and> range_proof_ok K (o_proof x)"

definition token_output_ok :: "secp_sizes \<Rightarrow> token_output \<Rightarrow> bool" where
  "token_output_ok K x \<longleftrightarrow> length (to_token_type x) = 32
     \<and> fixed_ok (PEDERSEN_COMMITMENT_SIZE K) (to_commit x) \<and> range_proof_ok K (to_proof x)"

definition output_identifier_ok :: "secp_sizes \<Rightarrow> output_identifier \<Rightarrow> bool" where
  "output_identifier_ok K x \<longleftrightarrow> fixed_ok (PEDERSEN_COMMITMENT_SIZE K) (oi_commit x)"

definition token_output_identifier_ok :: "secp_sizes \<Rightarrow> token_output_identifier \<Rightarrow> bool" where
  "token_output_identifier_ok K x \<longleftrightarrow> length (toi_token_type x) = 32
     \<and> fixed_ok (PEDERSEN_COMMITMENT_SIZE K) (toi_commit x)"

definition token_issue_proof_ok :: "secp_sizes \<Rightarrow> token_issue_proof \<Rightarrow> bool" where
  "token_issue_proof_ok K x \<longleftrightarrow> length (tip_token_type x) = 32
     \<and> fixed_ok (PEDERSEN_COMMITMENT_SIZE K) (tip_commit x) \<and> range_proof_ok K (tip_proof x)"

lemmas tx_ok_defs = tx_kernel_ok_def token_tx_kernel_ok_def input_ok_def token_input_ok_def output_ok_def
  token_output_ok_def output_identifier_ok_def token_output_identifier_ok_def token_issue_proof_ok_def

interpretation tx_kernelc: codec "write_tx_kernel FullMode" "read_tx_kernel K" "\<lambda>_. tx_kernel_ok K" for K
  by unfold_locales (simp add: read_tx_kernel_def write_tx_kernel_def tx_ok_defs tx_codec add.assoc)

interpretation token_tx_kernelc:
  codec "\<lambda>_. write_token_tx_kernel" "read_token_tx_kernel K" "\<lambda>_. token_tx_kernel_ok K" for K
  by unfold_locales (simp add: read_token_tx_kernel_def write_token_tx_kernel_def tx_ok_defs tx_codec add.assoc)

interpretation inputc: codec "\<lambda>_. write_input" "read_input K" "\<lambda>_. input_ok K" for K
  by unfold_locales (simp add: read_input_def write_input_def tx_ok_defs tx_codec add.assoc)

interpretation token_inputc: codec "\<lambda>_. write_token_input" "read_token_input K" "\<lambda>_. token_input_ok K" for K
  by unfold_locales (simp add: read_token_input_def write_token_input_def tx_ok_defs tx_codec add.assoc)

interpretation outputc: codec "\<lambda>_. write_output FullMode" "read_output K" "\<lambda>_. output_ok K" for K
  by unfold_locales (simp add: read_output_def write_output_def tx_ok_defs tx_codec add.assoc)

interpretation token_outputc:
  codec "\<lambda>_. write_token_output FullMode" "read_token_output K" "\<lambda>_. token_output_ok K" for K
  by unfold_locales (simp add: read_token_output_def write_token_output_def tx_ok_defs tx_codec add.assoc)

interpretation output_identifierc:
  codec "\<lambda>_. write_output_identifier" "read_output_identifier K" "\<lambda>_. output_identifier_ok K" for K
  by unfold_locales (simp add: read_output_identifier_def write_output_identifier_def tx_ok_defs tx_codec add.assoc)

interpretation token_output_identifierc:
  codec "\<lambda>_. write_token_output_identifier" "read_token_output_identifier K" "\<lambda>_. token_output_identifier_ok K" for K
  by unfold_locales
    (simp add: read_token_output_identifier_def write_token_output_identifier_def tx_ok_defs tx_codec add.assoc)

interpretation token_issue_proofc:
  codec "\<lambda>_. write_token_issue_proof FullMode" "read_token_issue_proof K" "\<lambda>_. token_issue_proof_ok K" for K
  by unfold_locales (simp add: read_token_issue_proof_def write_token_issue_proof_def tx_ok_defs tx_codec add.assoc)

section \<open>Canonical encodings\<close>

text \<open>
  A codec is canonical when its reader accepts nothing but what its writer writes: a value has one
  encoding only.
\<close>

context codec
begin

lemma rd_at:
  "rd_source r = wr (rd_version r) x @ rest \<Longrightarrow> wf (rd_version r) x \<Longrightarrow>
     rd r = Inr (x, adv r (length (wr (rd_version r) x)) rest)"
  using rd_wr [of r x 0 rest] adv_0 [of r] by simp

end

locale canonical_codec = codec +
  assumes wr_rd: "rd r = Inr (x, r') \<Longrightarrow> wf (rd_version r) x
    \<and> (\<exists>rest. rd_source r = wr (rd_version r) x @ rest \<and> r' = adv r (length (wr (rd_version r) x)) rest)"
begin

lemma rd_iff:
  "rd r = Inr (x, r') \<longleftrightarrow> wf (rd_version r) x
    \<and> (\<exists>rest. rd_source r = wr (rd_version r) x @ rest \<and> r' = adv r (length (wr (rd_version r) x)) rest)"
proof
  assume "wf (rd_version r) x
    \<and> (\<exists>rest. rd_source r = wr (rd_version r) x @ rest \<and> r' = adv r (length (wr (rd_version r) x)) rest)"
  then show "rd r = Inr (x, r')" using rd_at by blast
qed (rule wr_rd)

lemma one_encoding:
  assumes "rd r = Inr (x, a)" "rd s = Inr (x, b)" "rd_version r = rd_version s"
    "rd_source a = rd_source b"
  shows "rd_source r = rd_source s"
  using wr_rd [OF assms(1)] wr_rd [OF assms(2)] assms(3,4) by auto

end

lemma adv_adv [simp]: "adv (adv r n a) m b = adv r (n + m) b"
  by (simp add: adv_def count_read_def split: reader_kind.splits)

lemma read_exact_iff:
  "read_exact r k = Inr (x, r') \<longleftrightarrow> length x = k \<and> (\<exists>rest. rd_source r = x @ rest \<and> r' = adv r k rest)"
  (is "?l \<longleftrightarrow> ?r")
proof
  assume ?l
  then have "k \<le> length (rd_source r)" "x = take k (rd_source r)" "r' = adv r k (drop k (rd_source r))"
    by (auto simp: read_exact_def adv_def split: if_splits)
  then show ?r by (metis append_take_drop_id length_take min.absorb2)
next
  assume ?r
  then obtain rest where "length x = k" "rd_source r = x @ rest" "r' = adv r k rest" by blast
  moreover then have "r = adv r 0 (x @ rest)" using adv_0 [of r] by simp
  ultimately show ?l using read_exact_adv [of x k r 0 rest] by simp
qed

lemma read_fixed_bytes_iff:
  assumes "k \<le> 100000"
  shows "read_fixed_bytes r k = Inr (x, r') \<longleftrightarrow>
    length x = k \<and> (\<exists>rest. rd_source r = x @ rest \<and> r' = adv r k rest)"
  using assms by (simp add: read_fixed_bytes_def read_exact_iff split: reader_kind.splits)

lemma unat_of_be_val:
  assumes "LENGTH('a::len) = 8 * k" "length b = k"
  shows "be_bytes k (unat (of_nat (be_val b) :: 'a word)) = b"
proof -
  have "be_val b < 2 ^ LENGTH('a)" using be_val_less [of b] assms by (simp add: power_mult)
  then have "unat (of_nat (be_val b) :: 'a word) = be_val b" by (simp add: unat_of_nat)
  then show ?thesis using be_bytes_be_val [OF assms(2)] by simp
qed

lemma read_be_iff:
  assumes "LENGTH('a::len) = 8 * k"
  shows "read_be k r = Inr (w :: 'a word, r') \<longleftrightarrow>
    (\<exists>rest. rd_source r = be_bytes k (unat w) @ rest \<and> r' = adv r k rest)"
proof
  assume "read_be k r = Inr (w, r')"
  then show "\<exists>rest. rd_source r = be_bytes k (unat w) @ rest \<and> r' = adv r k rest"
    using unat_of_be_val [OF assms] by (auto simp: read_be_def rbind_eq_Inr read_exact_iff)
next
  assume "\<exists>rest. rd_source r = be_bytes k (unat w) @ rest \<and> r' = adv r k rest"
  then have "read_exact r k = Inr (be_bytes k (unat w), r')" by (simp add: read_exact_iff)
  then show "read_be k r = Inr (w, r')" using word_of_be_bytes [OF assms, of w] by (simp add: read_be_def)
qed

lemma read_u8_iff: "read_u8 r = Inr (w, r') \<longleftrightarrow> (\<exists>rest. rd_source r = write_u8 w @ rest \<and> r' = adv r 1 rest)"
  unfolding read_u8_def write_u8_def by (rule read_be_iff) simp

lemma read_u64_iff: "read_u64 r = Inr (w, r') \<longleftrightarrow> (\<exists>rest. rd_source r = write_u64 w @ rest \<and> r' = adv r 8 rest)"
  unfolding read_u64_def write_u64_def by (rule read_be_iff) simp

interpretation u8cc: canonical_codec "\<lambda>_. write_u8" read_u8 "\<lambda>_ _. True"
  by unfold_locales (simp add: read_u8_iff)

interpretation u64cc: canonical_codec "\<lambda>_. write_u64" read_u64 "\<lambda>_ _. True"
  by unfold_locales (simp add: read_u64_iff)

interpretation token_keycc: canonical_codec "\<lambda>_. write_token_key" read_token_key "\<lambda>_ k. length k = 32"
  by unfold_locales
    (auto simp: read_token_key_def write_token_key_def read_hash_def write_hash_def hash_LEN_def read_fixed_bytes_iff)

lemma output_features_from_u8_iff: "output_features_from_u8 b = Some f \<longleftrightarrow> b = output_features_u8 f"
  by (cases f) (auto simp: output_features_from_u8_def output_features_u8_def split: if_splits)

interpretation output_featurescc: canonical_codec "\<lambda>_. write_output_features" read_output_features "\<lambda>_ _. True"
  by unfold_locales
    (auto simp: read_output_features_def write_output_features_def rbind_eq_Inr read_u8_iff
      output_features_from_u8_iff split: option.splits)

lemma read_kernel_v1_canonical:
  "read_kernel_v1 r = Inr (f, r') \<Longrightarrow>
    \<exists>rest. rd_source r = write_kernel_v1 f @ rest \<and> r' = adv r (length (write_kernel_v1 f)) rest"
  by (auto simp: read_kernel_v1_def rbind_eq_Inr read_u8_iff read_u64_iff write_kernel_v1_def kernel_u8_def
      split: if_splits)

lemma read_kernel_v2_canonical:
  "read_kernel_v2 r = Inr (f, r') \<Longrightarrow>
    \<exists>rest. rd_source r = write_kernel_v2 f @ rest \<and> r' = adv r (length (write_kernel_v2 f)) rest"
  by (auto simp: read_kernel_v2_def rbind_eq_Inr read_u8_iff read_u64_iff write_kernel_v2_def kernel_u8_def
      split: if_splits)

interpretation kernel_featurescc: canonical_codec "write_kernel_features FullMode" read_kernel_features "\<lambda>_ _. True"
  using read_kernel_v1_canonical read_kernel_v2_canonical
  by unfold_locales (auto simp: read_kernel_features_def write_kernel_features_def split: if_splits)

interpretation token_kernel_featurescc:
  canonical_codec "\<lambda>_. write_token_kernel_features" read_token_kernel_features "\<lambda>_ _. True"
  by unfold_locales
    (auto simp: read_token_kernel_features_def write_token_kernel_features_def rbind_eq_Inr read_u8_iff read_u64_iff
      token_kernel_u8_def split: if_splits)

lemmas canonical_rd = token_keycc.rd_iff output_featurescc.rd_iff kernel_featurescc.rd_iff
  token_kernel_featurescc.rd_iff

text \<open>The sizes of the library are small enough for a single read.\<close>

definition sizes_ok :: "secp_sizes \<Rightarrow> bool" where
  "sizes_ok K \<longleftrightarrow> PEDERSEN_COMMITMENT_SIZE K \<le> 100000 \<and> MAX_PROOF_SIZE K \<le> 100000
     \<and> AGG_SIGNATURE_SIZE K \<le> 100000 \<and> SECRET_KEY_SIZE K \<le> 100000"

lemma tx_kernel_canonical:
  assumes "sizes_ok K" "read_tx_kernel K r = Inr (k, r')"
  shows "tx_kernel_ok K k \<and> (\<exists>rest. rd_source r = write_tx_kernel FullMode (rd_version r) k @ rest
    \<and> r' = adv r (length (write_tx_kernel FullMode (rd_version r) k)) rest)"
  using assms
  by (auto simp: sizes_ok_def read_tx_kernel_def write_tx_kernel_def rbind_eq_Inr kernel_featurescc.rd_iff
      read_commitment_def read_signature_def read_fixed_bytes_iff tx_kernel_ok_def fixed_ok_def
      write_commitment_def write_signature_def add.assoc)

lemma token_tx_kernel_canonical:
  assumes "sizes_ok K" "read_token_tx_kernel K r = Inr (k, r')"
  shows "token_tx_kernel_ok K k \<and> (\<exists>rest. rd_source r = write_token_tx_kernel k @ rest
    \<and> r' = adv r (length (write_token_tx_kernel k)) rest)"
  using assms
  by (auto simp: sizes_ok_def read_token_tx_kernel_def write_token_tx_kernel_def rbind_eq_Inr canonical_rd
      read_commitment_def read_signature_def read_fixed_bytes_iff token_tx_kernel_ok_def fixed_ok_def
      write_commitment_def write_signature_def add.assoc)

section \<open>Properties\<close>

text \<open>
  A kernel, of the coin or of a token, is read from a byte stream exactly when the stream
  starts with what is written for it at the reader's protocol version: writing and reading are
  inverse, each kernel has one encoding per version, and no other bytes are accepted.
\<close>

theorem kernel_encoding_canonical:
  assumes "sizes_ok K"
  shows "(read_tx_kernel K r = Inr (k, r') \<longleftrightarrow> tx_kernel_ok K k
      \<and> (\<exists>rest. rd_source r = write_tx_kernel FullMode (rd_version r) k @ rest
           \<and> r' = adv r (length (write_tx_kernel FullMode (rd_version r) k)) rest))
    \<and> (read_token_tx_kernel K r = Inr (t, r') \<longleftrightarrow> token_tx_kernel_ok K t
      \<and> (\<exists>rest. rd_source r = write_token_tx_kernel t @ rest
           \<and> r' = adv r (length (write_token_tx_kernel t)) rest))"
  using tx_kernel_canonical [OF assms, of r k r'] token_tx_kernel_canonical [OF assms, of r t r']
    tx_kernelc.rd_at [of r k _ K] token_tx_kernelc.rd_at [of r t _ K] by blast

definition example_sizes :: secp_sizes where
  "example_sizes = \<lparr>PEDERSEN_COMMITMENT_SIZE = 1, MAX_PROOF_SIZE = 1, AGG_SIGNATURE_SIZE = 1, SECRET_KEY_SIZE = 1\<rparr>"

lemma kernel_encoding_canonical_witness:
  "read_tx_kernel example_sizes (BinReader_new [1, 7, 9, 5] 2)
    = Inr (\<lparr>k_features = CoinbaseKernel, k_excess = [7], k_excess_sig = [9]\<rparr>, BinReader_new [5] 2)"
  using kernel_encoding_canonical [of example_sizes "BinReader_new [1, 7, 9, 5] 2"
      "\<lparr>k_features = CoinbaseKernel, k_excess = [7], k_excess_sig = [9]\<rparr>" "BinReader_new [5] 2", THEN conjunct1]
  by (simp add: example_sizes_def sizes_ok_def tx_kernel_ok_def fixed_ok_def BinReader_new_def adv_def count_read_def
      write_tx_kernel_def write_kernel_features_def write_kernel_v2_def kernel_u8_def write_commitment_def
      write_signature_def write_u8_def be_bytes_def word_le_nat_alt)

end
