(* ===== verification/Committed.thy ===== *)
theory Committed
  imports Tx_Types "HOL-Library.AList"
begin

text \<open>
  Sums of commitments, \<open>core/src/core/committed.rs\<close> and \<open>core/src/core/block_sums.rs\<close>. An implementor of the
  trait \<open>Committed\<close> is the record of the vectors and maps it returns. A \<open>HashMap\<close> is an association list with
  distinct keys in insertion order; Rust leaves the order open, and acceptance below depends on the
  map only. A signed 64-bit overage is a word whose sign is that of \<open>sint\<close>.
\<close>

section \<open>Blinding factors\<close>

definition blinding_from_slice :: "secp \<Rightarrow> bytes \<Rightarrow> blinding_factor" where
  "blinding_from_slice S data =
    (let n = SECRET_KEY_SIZE (secp_K S) in take n data @ replicate (n - length data) 0)"

definition blinding_from_secret_key :: "secp \<Rightarrow> secret_key \<Rightarrow> blinding_factor" where
  "blinding_from_secret_key S skey = blinding_from_slice S skey"

definition blinding_zero :: "secp \<Rightarrow> blinding_factor" where
  "blinding_zero S = blinding_from_secret_key S (ZERO_KEY S)"

definition blinding_secret_key :: "secp \<Rightarrow> blinding_factor \<Rightarrow> keychain_error + secret_key" where
  "blinding_secret_key S b =
    (if b = blinding_zero S then Inr (ZERO_KEY S)
     else map_err KeychainSecp (secret_key_from_slice S b))"

definition to_secrets :: "secp \<Rightarrow> blinding_factor list \<Rightarrow> secret_key list" where
  "to_secrets S bf =
    filter_map (\<lambda>x. case blinding_secret_key S x of Inl _ \<Rightarrow> None | Inr k \<Rightarrow> Some k)
      (filter (\<lambda>x. x \<noteq> blinding_zero S) bf)"

definition blinding_add :: "secp \<Rightarrow> blinding_factor \<Rightarrow> blinding_factor \<Rightarrow> keychain_error + blinding_factor" where
  "blinding_add S a b =
    (let keys = to_secrets S [a, b]
     in if keys = [] then Inr (blinding_zero S)
        else rbind (map_err KeychainSecp (secp_blind_sum S keys []))
          (\<lambda>k. Inr (blinding_from_secret_key S k)))"

definition sum_kernel_offsets ::
  "secp \<Rightarrow> blinding_factor list \<Rightarrow> blinding_factor list \<Rightarrow> committed_error + blinding_factor" where
  "sum_kernel_offsets S positive negative =
    (let pos = to_secrets S positive; neg = to_secrets S negative
     in if pos = [] then Inr (blinding_zero S)
        else rbind (map_err CommittedSecp (secp_blind_sum S pos neg))
          (\<lambda>k. Inr (blinding_from_secret_key S k)))"

section \<open>Sums of commitments\<close>

definition commit_to_zero_value :: "secp \<Rightarrow> commitment" where
  "commit_to_zero_value S = commit_from_vec S [0]"

definition sum_commits :: "secp \<Rightarrow> commitment list \<Rightarrow> commitment list \<Rightarrow> committed_error + commitment" where
  "sum_commits S positive negative =
    (let zero_commit = commit_to_zero_value S;
         pos = filter (\<lambda>x. x \<noteq> zero_commit) positive;
         neg = filter (\<lambda>x. x \<noteq> zero_commit) negative
     in if pos = [] \<and> neg = [] then Inr zero_commit
        else map_err CommittedSecp (secp_commit_sum S pos neg))"

type_synonym 'v token_map = "(token_key \<times> 'v) list"

record committed =
  inputs_committed :: "commitment list"
  outputs_committed :: "commitment list"
  kernels_committed :: "commitment list"
  token_inputs_committed :: "commitment list token_map"
  token_outputs_committed :: "commitment list token_map"
  token_kernels_committed :: "commitment list token_map"

definition sum_kernel_excesses ::
  "secp \<Rightarrow> committed \<Rightarrow> blinding_factor \<Rightarrow> committed_error + commitment \<times> commitment" where
  "sum_kernel_excesses S cm offset =
    rbind (sum_commits S (kernels_committed cm) []) (\<lambda>kernel_sum.
    rbind (if offset \<noteq> blinding_zero S
           then rbind (map_err CommittedKeychain (blinding_secret_key S offset)) (\<lambda>key.
                rbind (map_err CommittedSecp (secp_commit S 0 key)) (\<lambda>offset_commit.
                  Inr [kernel_sum, offset_commit]))
           else Inr [kernel_sum]) (\<lambda>commits.
    rbind (map_err CommittedSecp (secp_commit_sum S commits [])) (\<lambda>kernel_sum_plus_offset.
      Inr (kernel_sum, kernel_sum_plus_offset))))"

definition checked_abs :: "u64 \<Rightarrow> u64 option" where
  "checked_abs x = (if x = 0x8000000000000000 then None else Some (if sint x < 0 then - x else x))"

definition sum_commitments :: "secp \<Rightarrow> committed \<Rightarrow> u64 \<Rightarrow> committed_error + commitment" where
  "sum_commitments S cm overage =
    (if overage \<noteq> 0
     then case checked_abs overage of
            None \<Rightarrow> Inl InvalidValue
          | Some overage_abs \<Rightarrow>
              (let over_commit = secp_commit_value S overage_abs
               in if sint overage < 0
                  then sum_commits S (outputs_committed cm) (inputs_committed cm @ [over_commit])
                  else sum_commits S (outputs_committed cm @ [over_commit]) (inputs_committed cm))
     else sum_commits S (outputs_committed cm) (inputs_committed cm))"

definition verify_kernel_sums ::
  "secp \<Rightarrow> committed \<Rightarrow> u64 \<Rightarrow> blinding_factor \<Rightarrow> committed_error + commitment \<times> commitment" where
  "verify_kernel_sums S cm overage kernel_offset =
    rbind (sum_commitments S cm overage) (\<lambda>utxo_sum.
    rbind (sum_kernel_excesses S cm kernel_offset) (\<lambda>(kernel_sum, kernel_sum_plus_offset).
      if utxo_sum \<noteq> kernel_sum_plus_offset then Inl KernelSumMismatch
      else Inr (utxo_sum, kernel_sum)))"

section \<open>Token sums\<close>

record block_token_sums =
  token_issue_commit_map :: "commitment token_map"
  token_utxo_sum_map :: "commitment token_map"
  token_kernel_sum_map :: "commitment token_map"

fun sum_token_map :: "secp \<Rightarrow> commitment list token_map \<Rightarrow> committed_error + commitment token_map" where
  "sum_token_map S [] = Inr []"
| "sum_token_map S ((k, commits) # m) =
    rbind (sum_commits S commits []) (\<lambda>c.
    rbind (sum_token_map S m) (\<lambda>m'. Inr ((k, c) # m')))"

definition verify_token_sum ::
  "secp \<Rightarrow> commitment token_map \<Rightarrow> commitment token_map \<Rightarrow> token_key \<times> commitment \<Rightarrow> committed_error + unit" where
  "verify_token_sum S outputs kernels = (\<lambda>(key, input_commit).
    case map_of outputs key of
      Some output_commit \<Rightarrow>
        (case map_of kernels key of
           Some kernel_commit \<Rightarrow>
             if kernel_commit = commit_to_zero_value S
             then (if output_commit \<noteq> input_commit then Inl TokenSumMismatch else Inr ())
             else rbind (sum_commits S [output_commit] [input_commit]) (\<lambda>commit_sum.
                    if commit_sum \<noteq> kernel_commit then Inl TokenSumMismatch else Inr ())
         | None \<Rightarrow> Inl TokenSumMismatch)
    | None \<Rightarrow> Inl TokenSumMismatch)"

text \<open>A loop whose body may return early with an error.\<close>

fun for_each :: "('a \<Rightarrow> 'e + unit) \<Rightarrow> 'a list \<Rightarrow> 'e + unit" where
  "for_each f [] = Inr ()"
| "for_each f (x # xs) = rbind (f x) (\<lambda>_. for_each f xs)"

definition verify_token_kernel_sum :: "secp \<Rightarrow> committed \<Rightarrow> committed_error + block_token_sums" where
  "verify_token_kernel_sum S cm =
    (if length (token_inputs_committed cm) \<noteq> length (token_outputs_committed cm)
        \<or> length (token_outputs_committed cm) \<noteq> length (token_kernels_committed cm)
     then Inl TokenSumMismatch
     else
      rbind (sum_token_map S (token_inputs_committed cm)) (\<lambda>inputs.
      rbind (sum_token_map S (token_outputs_committed cm)) (\<lambda>outputs.
      rbind (sum_token_map S (token_kernels_committed cm)) (\<lambda>kernels.
      rbind (for_each (verify_token_sum S outputs kernels) inputs) (\<lambda>_.
        Inr \<lparr>token_issue_commit_map = inputs, token_utxo_sum_map = outputs, token_kernel_sum_map = kernels\<rparr>)))))"

section \<open>Block sums\<close>

record block_sums =
  utxo_sum :: commitment
  kernel_sum :: commitment

definition write_block_sums :: "block_sums \<Rightarrow> bytes" where
  "write_block_sums b = utxo_sum b @ kernel_sum b"

definition read_block_sums :: "secp_sizes \<Rightarrow> reader \<Rightarrow> block_sums parse" where
  "read_block_sums K r =
    rbind (read_commitment K r) (\<lambda>(u, r).
    rbind (read_commitment K r) (\<lambda>(k, r). Inr (\<lparr>utxo_sum = u, kernel_sum = k\<rparr>, r)))"

definition block_sums_default :: "secp \<Rightarrow> block_sums" where
  "block_sums_default S = \<lparr>utxo_sum = commit_to_zero_value S, kernel_sum = commit_to_zero_value S\<rparr>"

definition with_block_sums :: "block_sums \<Rightarrow> committed \<Rightarrow> committed" where
  "with_block_sums b cm =
    \<lparr>inputs_committed = inputs_committed cm,
     outputs_committed = utxo_sum b # outputs_committed cm,
     kernels_committed = kernel_sum b # kernels_committed cm,
     token_inputs_committed = [], token_outputs_committed = [], token_kernels_committed = []\<rparr>"

definition write_token_commits :: "commitment token_map \<Rightarrow> bytes" where
  "write_token_commits m =
    write_u16 (of_nat (length m)) @ concat (map (\<lambda>(t, c). write_token_key t @ c) m)"

definition write_block_token_sums :: "block_token_sums \<Rightarrow> bytes" where
  "write_block_token_sums b =
    write_token_commits (token_issue_commit_map b) @ write_token_commits (token_utxo_sum_map b)
    @ write_token_commits (token_kernel_sum_map b)"

primrec read_token_commits_loop ::
  "secp_sizes \<Rightarrow> nat \<Rightarrow> commitment token_map \<Rightarrow> reader \<Rightarrow> commitment token_map parse" where
  "read_token_commits_loop K 0 m r = Inr (m, r)"
| "read_token_commits_loop K (Suc n) m r =
    rbind (read_token_key r) (\<lambda>(t, r).
    rbind (read_commitment K r) (\<lambda>(c, r).
      read_token_commits_loop K n (AList.update t c m) r))"

definition read_token_commits :: "secp_sizes \<Rightarrow> reader \<Rightarrow> commitment token_map parse" where
  "read_token_commits K r =
    rbind (read_u16 r) (\<lambda>(len, r). read_token_commits_loop K (unat len) [] r)"

definition read_block_token_sums :: "secp_sizes \<Rightarrow> reader \<Rightarrow> block_token_sums parse" where
  "read_block_token_sums K r =
    rbind (read_token_commits K r) (\<lambda>(issue, r).
    rbind (read_token_commits K r) (\<lambda>(utxo, r).
    rbind (read_token_commits K r) (\<lambda>(kern, r).
      Inr (\<lparr>token_issue_commit_map = issue, token_utxo_sum_map = utxo, token_kernel_sum_map = kern\<rparr>, r))))"

definition block_token_sums_default :: block_token_sums where
  "block_token_sums_default =
    \<lparr>token_issue_commit_map = [], token_utxo_sum_map = [], token_kernel_sum_map = []\<rparr>"

text \<open>\<open>insert\<close> for every entry of the stored map, replacing what the block has for the token.\<close>

definition insert_all :: "commitment token_map \<Rightarrow> commitment list token_map \<Rightarrow> commitment list token_map" where
  "insert_all stored m = foldl (\<lambda>m (k, c). AList.update k [c] m) m stored"

definition with_block_token_sums :: "block_token_sums \<Rightarrow> committed \<Rightarrow> committed" where
  "with_block_token_sums b cm =
    \<lparr>inputs_committed = [], outputs_committed = [], kernels_committed = [],
     token_inputs_committed = insert_all (token_issue_commit_map b) (token_inputs_committed cm),
     token_outputs_committed = insert_all (token_utxo_sum_map b) (token_outputs_committed cm),
     token_kernels_committed = insert_all (token_kernel_sum_map b) (token_kernels_committed cm)\<rparr>"

section \<open>Kernel sums\<close>

text \<open>
  What the code relies on in the secp library: a commitment stands for an element \<open>val\<close> of an abelian
  group, \<open>commit_sum\<close> adds and subtracts, \<open>commit_value\<close> is the amount times the value generator,
  \<open>commit(0, key)\<close> the key times the blinding generator, and the zero commitment stands for zero.
\<close>

definition pedersen ::
  "secp \<Rightarrow> (commitment \<Rightarrow> 'g::ab_group_add) \<Rightarrow> (nat \<Rightarrow> 'g) \<Rightarrow> (secret_key \<Rightarrow> 'g) \<Rightarrow> bool" where
  "pedersen S val amt blind \<longleftrightarrow>
    (\<forall>pos neg c. secp_commit_sum S pos neg = Inr c \<longrightarrow> val c = sum_list (map val pos) - sum_list (map val neg))
    \<and> (\<forall>v. val (secp_commit_value S v) = amt (unat v))
    \<and> (\<forall>key c. secp_commit S 0 key = Inr c \<longrightarrow> val c = blind key)
    \<and> val (commit_to_zero_value S) = 0"

definition overage_amt :: "(nat \<Rightarrow> 'g::ab_group_add) \<Rightarrow> u64 \<Rightarrow> 'g" where
  "overage_amt amt overage = (if overage = 0 then 0
     else if sint overage < 0 then - amt (unat (- overage)) else amt (unat overage))"

definition offset_val :: "secp \<Rightarrow> (secret_key \<Rightarrow> 'g::ab_group_add) \<Rightarrow> blinding_factor \<Rightarrow> 'g" where
  "offset_val S blind offset = (if offset = blinding_zero S then 0
     else case blinding_secret_key S offset of Inl _ \<Rightarrow> 0 | Inr key \<Rightarrow> blind key)"

abbreviation vals :: "(commitment \<Rightarrow> 'g::ab_group_add) \<Rightarrow> commitment list \<Rightarrow> 'g" where
  "vals val cs \<equiv> sum_list (map val cs)"

lemma vals_nonzero: "val z = 0 \<Longrightarrow> vals val (filter (\<lambda>x. x \<noteq> z) cs) = vals val cs"
  by (induction cs) auto

lemma sum_commits_val:
  assumes "pedersen S val amt blind" "sum_commits S pos neg = Inr c"
  shows "val c = vals val pos - vals val neg"
proof -
  have z: "val (commit_to_zero_value S) = 0" using assms(1) by (simp add: pedersen_def)
  have "val c = vals val (filter (\<lambda>x. x \<noteq> commit_to_zero_value S) pos)
      - vals val (filter (\<lambda>x. x \<noteq> commit_to_zero_value S) neg)"
    using assms by (auto simp: sum_commits_def pedersen_def Let_def split: if_splits)
  then show ?thesis by (simp add: vals_nonzero [where val = val, OF z])
qed

lemma sum_commitments_val:
  assumes "pedersen S val amt blind" "sum_commitments S cm overage = Inr c"
  shows "val c = vals val (outputs_committed cm) - vals val (inputs_committed cm) + overage_amt amt overage"
proof -
  have v: "val (secp_commit_value S x) = amt (unat x)" for x using assms(1) by (simp add: pedersen_def)
  show ?thesis using assms(2)
    by (auto simp: sum_commitments_def checked_abs_def overage_amt_def Let_def v
        dest!: sum_commits_val [OF assms(1)] split: if_splits)
qed

lemma sum_kernel_excesses_val:
  assumes "pedersen S val amt blind" "sum_kernel_excesses S cm offset = Inr (k, ko)"
  shows "val k = vals val (kernels_committed cm) \<and> val ko = val k + offset_val S blind offset"
  using assms sum_commits_val [OF assms(1), of "kernels_committed cm" "[]"]
  by (cases "offset = blinding_zero S")
    (auto simp: sum_kernel_excesses_def rbind_eq_Inr offset_val_def pedersen_def)

lemma verify_kernel_sums_val:
  assumes "pedersen S val amt blind" "verify_kernel_sums S cm overage offset = Inr (u, k)"
  shows "val u = vals val (outputs_committed cm) - vals val (inputs_committed cm) + overage_amt amt overage"
    and "val k = vals val (kernels_committed cm)"
    and "val u = val k + offset_val S blind offset"
proof -
  have *: "sum_commitments S cm overage = Inr u" "sum_kernel_excesses S cm offset = Inr (k, u)"
    using assms(2) by (auto simp: verify_kernel_sums_def rbind_eq_Inr split: if_split_asm)
  show "val u = vals val (outputs_committed cm) - vals val (inputs_committed cm) + overage_amt amt overage"
    using sum_commitments_val [OF assms(1) *(1)] .
  show "val k = vals val (kernels_committed cm)" "val u = val k + offset_val S blind offset"
    using sum_kernel_excesses_val [OF assms(1) *(2)] by simp_all
qed

section \<open>Token sums\<close>

lemma sum_token_map_eq:
  "sum_token_map S m = Inr m' \<longleftrightarrow> list_all2 (\<lambda>(k, cs) (k', c). k' = k \<and> sum_commits S cs [] = Inr c) m m'"
proof (induction m arbitrary: m')
  case (Cons x m)
  show ?case
    by (cases x) (auto simp: rbind_eq_Inr list_all2_Cons1 Cons.IH)
qed auto

lemma list_all2_map_of:
  assumes "list_all2 (\<lambda>(k, cs) (k', c). k' = k \<and> P cs c) m m'"
  shows "map fst m' = map fst m" "length m' = length m"
    "map_of m k = Some cs \<Longrightarrow> \<exists>c. map_of m' k = Some c \<and> P cs c"
    "map_of m' k = Some c \<Longrightarrow> \<exists>cs. map_of m k = Some cs \<and> P cs c"
  using assms by (induction rule: list_all2_induct) (auto split: if_splits)

lemma for_each_ok: "for_each f xs = Inr () \<longleftrightarrow> (\<forall>x \<in> set xs. f x = Inr ())"
  by (induction xs) (auto simp: rbind_eq_Inr)

lemma map_of_insert_all:
  "map_of (insert_all st m) k = (case map_of (rev st) k of Some c \<Rightarrow> Some [c] | None \<Rightarrow> map_of m k)"
  unfolding insert_all_def
  by (induction st arbitrary: m rule: rev_induct) (auto simp: update_conv map_of_append split: option.splits)

lemma distinct_insert_all: "distinct (map fst m) \<Longrightarrow> distinct (map fst (insert_all st m))"
  unfolding insert_all_def by (induction st arbitrary: m) (auto simp: distinct_update)

text \<open>What acceptance means, on the maps: a token balances when its outputs less its inputs are its
  kernels, or its kernels are the zero commitment and its outputs equal its inputs.\<close>

definition token_balanced :: "secp \<Rightarrow> commitment \<Rightarrow> commitment \<Rightarrow> commitment \<Rightarrow> bool" where
  "token_balanced S i out k \<longleftrightarrow>
    (if k = commit_to_zero_value S then out = i else sum_commits S [out] [i] = Inr k)"

lemma verify_token_sum_ok:
  "verify_token_sum S outputs kernels (t, i) = Inr () \<longleftrightarrow>
    (\<exists>out k. map_of outputs t = Some out \<and> map_of kernels t = Some k \<and> token_balanced S i out k)"
  by (auto simp: verify_token_sum_def token_balanced_def rbind_eq_Inr split: option.splits if_splits)

lemma length_alist_card: "distinct (map fst m) \<Longrightarrow> length m = card (dom (map_of m))"
  by (metis dom_map_of_conv_image_fst distinct_card length_map set_map)

definition token_sums_ok :: "secp \<Rightarrow> commitment list token_map \<Rightarrow> bool" where
  "token_sums_ok S m \<longleftrightarrow> (\<forall>t cs. map_of m t = Some cs \<longrightarrow> (\<exists>c. sum_commits S cs [] = Inr c))"

lemma sum_token_map_ok:
  assumes "distinct (map fst m)"
  shows "(\<exists>m'. sum_token_map S m = Inr m') \<longleftrightarrow> token_sums_ok S m"
  using assms
proof (induction m)
  case (Cons x m)
  obtain k cs where x: "x = (k, cs)" by (cases x)
  have "token_sums_ok S (x # m) \<longleftrightarrow> (\<exists>c. sum_commits S cs [] = Inr c) \<and> token_sums_ok S m"
    using Cons.prems by (auto simp: token_sums_ok_def x map_of_eq_None_iff rev_image_eqI dest: map_of_SomeD split: if_splits)
  then show ?case using Cons by (auto simp: x rbind_eq_Inr)
qed (simp add: token_sums_ok_def)

lemma sum_token_map_of:
  assumes "sum_token_map S m = Inr m'"
  shows "length m' = length m" "map fst m' = map fst m"
    "map_of m' t = Some c \<longleftrightarrow> (\<exists>cs. map_of m t = Some cs \<and> sum_commits S cs [] = Inr c)"
proof -
  note * = list_all2_map_of [OF assms [unfolded sum_token_map_eq]]
  show "length m' = length m" "map fst m' = map fst m" using *(1,2) by simp_all
  show "map_of m' t = Some c \<longleftrightarrow> (\<exists>cs. map_of m t = Some cs \<and> sum_commits S cs [] = Inr c)"
    using *(3) [of t] *(4) [of t c] by fastforce
qed

text \<open>The condition under which the token sums of an implementor verify.\<close>

definition token_sums_balance :: "secp \<Rightarrow> committed \<Rightarrow> bool" where
  "token_sums_balance S cm \<longleftrightarrow>
    card (dom (map_of (token_inputs_committed cm))) = card (dom (map_of (token_outputs_committed cm)))
    \<and> card (dom (map_of (token_outputs_committed cm))) = card (dom (map_of (token_kernels_committed cm)))
    \<and> token_sums_ok S (token_inputs_committed cm) \<and> token_sums_ok S (token_outputs_committed cm)
    \<and> token_sums_ok S (token_kernels_committed cm)
    \<and> (\<forall>t is i. map_of (token_inputs_committed cm) t = Some is \<longrightarrow> sum_commits S is [] = Inr i \<longrightarrow>
         (\<exists>os ks out k. map_of (token_outputs_committed cm) t = Some os \<and> sum_commits S os [] = Inr out
            \<and> map_of (token_kernels_committed cm) t = Some ks \<and> sum_commits S ks [] = Inr k
            \<and> token_balanced S i out k))"

definition token_keys_distinct :: "committed \<Rightarrow> bool" where
  "token_keys_distinct cm \<longleftrightarrow> distinct (map fst (token_inputs_committed cm))
     \<and> distinct (map fst (token_outputs_committed cm)) \<and> distinct (map fst (token_kernels_committed cm))"

lemma verify_token_kernel_sum_iff:
  assumes "token_keys_distinct cm"
  shows "(\<exists>b. verify_token_kernel_sum S cm = Inr b) \<longleftrightarrow> token_sums_balance S cm"
proof -
  let ?I = "token_inputs_committed cm" and ?O = "token_outputs_committed cm" and ?K = "token_kernels_committed cm"
  have d: "distinct (map fst ?I)" "distinct (map fst ?O)" "distinct (map fst ?K)"
    using assms by (simp_all add: token_keys_distinct_def)
  note len = length_alist_card [OF d(1)] length_alist_card [OF d(2)] length_alist_card [OF d(3)]
  note ok = sum_token_map_ok [OF d(1), of S] sum_token_map_ok [OF d(2), of S] sum_token_map_ok [OF d(3), of S]
  show ?thesis
  proof (cases "token_sums_ok S ?I \<and> token_sums_ok S ?O \<and> token_sums_ok S ?K")
    case False
    then have "\<nexists>b. verify_token_kernel_sum S cm = Inr b"
      using ok by (auto simp: verify_token_kernel_sum_def rbind_eq_Inr split: if_split_asm)
    then show ?thesis using False unfolding token_sums_balance_def by blast
  next
    case True
    then obtain i out k where sums: "sum_token_map S ?I = Inr i" "sum_token_map S ?O = Inr out" "sum_token_map S ?K = Inr k"
      using ok by blast
    have "distinct (map fst i)" using sum_token_map_of(2) [OF sums(1)] d(1) by simp
    then have "for_each (verify_token_sum S out k) i = Inr () \<longleftrightarrow>
      (\<forall>t c. map_of i t = Some c \<longrightarrow> verify_token_sum S out k (t, c) = Inr ())"
      by (auto simp: for_each_ok)
    then have "for_each (verify_token_sum S out k) i = Inr () \<longleftrightarrow>
      (\<forall>t is c. map_of ?I t = Some is \<longrightarrow> sum_commits S is [] = Inr c \<longrightarrow>
         (\<exists>os ks out k. map_of ?O t = Some os \<and> sum_commits S os [] = Inr out
            \<and> map_of ?K t = Some ks \<and> sum_commits S ks [] = Inr k \<and> token_balanced S c out k))"
      by (simp add: verify_token_sum_ok sum_token_map_of(3) [OF sums(1)] sum_token_map_of(3) [OF sums(2)]
          sum_token_map_of(3) [OF sums(3)]) blast
    then show ?thesis using True
      by (auto simp: verify_token_kernel_sum_def token_sums_balance_def sums len rbind_eq_Inr)
  qed
qed

section \<open>Block sums\<close>

definition block_sums_ok :: "secp_sizes \<Rightarrow> block_sums \<Rightarrow> bool" where
  "block_sums_ok K b \<longleftrightarrow>
    fixed_ok (PEDERSEN_COMMITMENT_SIZE K) (utxo_sum b) \<and> fixed_ok (PEDERSEN_COMMITMENT_SIZE K) (kernel_sum b)"

interpretation block_sumsc: codec "\<lambda>_. write_block_sums" "read_block_sums K" "\<lambda>_. block_sums_ok K" for K
  by unfold_locales
    (simp add: write_block_sums_def read_block_sums_def block_sums_ok_def add.assoc
      commitc.rd_wr [unfolded write_commitment_def])

definition token_commits_ok :: "secp_sizes \<Rightarrow> commitment token_map \<Rightarrow> bool" where
  "token_commits_ok K m \<longleftrightarrow> length m < 2 ^ 16 \<and> distinct (map fst m)
    \<and> (\<forall>(t, c) \<in> set m. length t = 32 \<and> fixed_ok (PEDERSEN_COMMITMENT_SIZE K) c)"

lemma update_new: "k \<notin> fst ` set m \<Longrightarrow> AList.update k v m = m @ [(k, v)]"
  by (induction m) auto

lemma read_token_commits_loop_wr:
  assumes "\<forall>(t, c) \<in> set m. length t = 32 \<and> fixed_ok (PEDERSEN_COMMITMENT_SIZE K) c"
    "distinct (map fst (acc @ m))"
  shows "read_token_commits_loop K (length m) acc
      (adv r n (concat (map (\<lambda>(t, c). write_token_key t @ c) m) @ rest))
    = Inr (acc @ m, adv r (n + length (concat (map (\<lambda>(t, c). write_token_key t @ c) m))) rest)"
  using assms
proof (induction m arbitrary: acc n)
  case (Cons x m)
  obtain t c where x: "x = (t, c)" by (cases x)
  have "t \<notin> fst ` set acc" using Cons.prems(2) by (auto simp: x)
  then show ?case
    using Cons.prems Cons.IH [of "acc @ [(t, c)]"]
      token_keyc.rd_wr [where x = t and r = r and n = n]
      commitc.rd_wr [where x = c and K = K and r = r, unfolded write_commitment_def]
    by (simp add: x update_new add.assoc)
qed simp

interpretation token_commitsc: codec "\<lambda>_. write_token_commits" "read_token_commits K" "\<lambda>_. token_commits_ok K" for K
proof (unfold_locales, goal_cases)
  case (1 r m n rest)
  then have "unat (of_nat (length m) :: u16) = length m" by (simp add: token_commits_ok_def unat_of_nat)
  then show ?case using 1 read_token_commits_loop_wr [of m K "[]" r "n + 2" rest]
    by (simp add: read_token_commits_def write_token_commits_def token_commits_ok_def add.assoc)
qed

definition block_token_sums_ok :: "secp_sizes \<Rightarrow> block_token_sums \<Rightarrow> bool" where
  "block_token_sums_ok K b \<longleftrightarrow> token_commits_ok K (token_issue_commit_map b)
    \<and> token_commits_ok K (token_utxo_sum_map b) \<and> token_commits_ok K (token_kernel_sum_map b)"

interpretation block_token_sumsc:
  codec "\<lambda>_. write_block_token_sums" "read_block_token_sums K" "\<lambda>_. block_token_sums_ok K" for K
  by unfold_locales
    (simp add: read_block_token_sums_def write_block_token_sums_def block_token_sums_ok_def token_commitsc.rd_wr add.assoc)

lemma option_eqI: "(\<And>c. x = Some c \<longleftrightarrow> y = Some c) \<Longrightarrow> x = y"
  by (cases x; cases y) auto

definition no_tokens :: committed where
  "no_tokens = \<lparr>inputs_committed = [], outputs_committed = [], kernels_committed = [],
     token_inputs_committed = [], token_outputs_committed = [], token_kernels_committed = []\<rparr>"

section \<open>Properties\<close>

text \<open>A small group of commitments for concrete instances: a byte, added modulo 256.\<close>

definition byte_val :: "bytes \<Rightarrow> u8" where
  "byte_val c = (case c of [] \<Rightarrow> 0 | b # _ \<Rightarrow> b)"

definition example_secp :: secp where
  "example_secp = \<lparr>secp_K = example_sizes, ZERO_KEY = [0], message_from_slice = Inr, to_pubkey = Inr,
     aggsig_verify_single = (\<lambda>_ _ _. True), aggsig_verify_batch = (\<lambda>_ _ _. True),
     verify_bullet_proof = (\<lambda>c p. if proof_bytes p = c then Inr () else Inl 1),
     verify_bullet_proof_multi = (\<lambda>cs ps. if map proof_bytes ps = cs then Inr () else Inl 1),
     commit_from_vec = (\<lambda>v. v), secp_commit = (\<lambda>v k. Inr [ucast v + byte_val k]),
     secp_commit_value = (\<lambda>v. [ucast v]),
     secp_commit_sum = (\<lambda>pos neg. Inr [sum_list (map byte_val pos) - sum_list (map byte_val neg)]),
     secp_blind_sum = (\<lambda>pos neg. Inr [sum_list (map byte_val pos) - sum_list (map byte_val neg)]),
     secret_key_from_slice = Inr\<rparr>"

lemma pedersen_example: "pedersen example_secp byte_val of_nat byte_val"
  by (auto simp: pedersen_def example_secp_def byte_val_def commit_to_zero_value_def)

text \<open>
  Claim C13. When \<open>verify_kernel_sums\<close> accepts, the outputs plus the overage equal the inputs plus the
  kernel excesses plus the kernel offset: no value is created or destroyed except the overage. The
  two sums it returns stand for the outputs less the inputs with the overage, and for the kernels.
\<close>

theorem verify_kernel_sums_sound:
  assumes "pedersen S val amt blind" "verify_kernel_sums S cm overage offset = Inr (u, k)"
  shows "vals val (outputs_committed cm) + overage_amt amt overage
      = vals val (inputs_committed cm) + vals val (kernels_committed cm) + offset_val S blind offset
    \<and> val u = vals val (outputs_committed cm) - vals val (inputs_committed cm) + overage_amt amt overage
    \<and> val k = vals val (kernels_committed cm)"
  using verify_kernel_sums_val [OF assms] by (simp add: algebra_simps)

lemma verify_kernel_sums_sound_witness:
  "verify_kernel_sums example_secp \<lparr>inputs_committed = [[5]], outputs_committed = [[3]], kernels_committed = [[1]],
      token_inputs_committed = [], token_outputs_committed = [], token_kernels_committed = []\<rparr> 4 [1] = Inr ([2], [1])
   \<and> vals byte_val [[3]] + overage_amt of_nat 4 = vals byte_val [[5]] + vals byte_val [[1]] + offset_val example_secp byte_val [1]"
proof -
  let ?cm = "\<lparr>inputs_committed = [[5]], outputs_committed = [[3]], kernels_committed = [[1]],
      token_inputs_committed = [], token_outputs_committed = [], token_kernels_committed = []\<rparr> :: committed"
  have "verify_kernel_sums example_secp ?cm 4 [1] = Inr ([2], [1])" by code_simp
  then show ?thesis using verify_kernel_sums_sound [OF pedersen_example, of ?cm 4 "[1]" "[2]" "[1]"] by simp
qed

text \<open>
  Claim C30. \<open>verify_token_kernel_sum\<close> accepts exactly when inputs, outputs and kernels have equally many
  tokens, every sum of commitments can be computed, and every token among the inputs has outputs and
  kernels that balance with it. The order in which the maps are traversed does not matter.
\<close>

theorem verify_token_kernel_sum_correct:
  assumes "token_keys_distinct cm"
  shows "(\<exists>b. verify_token_kernel_sum S cm = Inr b) \<longleftrightarrow> token_sums_balance S cm"
  using assms by (rule verify_token_kernel_sum_iff)

lemma verify_token_kernel_sum_correct_witness:
  "\<exists>b. verify_token_kernel_sum example_secp \<lparr>inputs_committed = [], outputs_committed = [], kernels_committed = [],
      token_inputs_committed = [([1], [[5]])], token_outputs_committed = [([1], [[3], [4]])],
      token_kernels_committed = [([1], [[2]])]\<rparr> = Inr b"
  (is "\<exists>b. verify_token_kernel_sum _ ?cm = Inr b")
proof -
  have "token_keys_distinct ?cm" by (simp add: token_keys_distinct_def)
  moreover have "token_sums_balance example_secp ?cm"
    by (simp add: token_sums_balance_def token_sums_ok_def sum_commits_def commit_to_zero_value_def example_secp_def
        byte_val_def token_balanced_def)
  ultimately show ?thesis using verify_token_kernel_sum_correct [of ?cm example_secp] by blast
qed



end
