(* ===== verification/Transaction.thy ===== *)
theory Transaction
  imports Committed "HOL-Library.Sublist"
begin

text \<open>
  Transactions, \<open>core/src/core/transaction.rs\<close>: the body shared by transactions and blocks, its weights, the
  checks on it, cut-through, aggregation and de-aggregation, with the verifier cache of
  \<open>core/src/core/verifier_cache.rs\<close>. \<open>usize\<close> is 64 bits wide. Values are ordered and equated by their hash;
  where an unstable sort leaves the order of equal hashes open, the model keeps them in place.
\<close>

section \<open>The verifier cache\<close>

text \<open>
  The LRU map of the crate \<open>lru_cache\<close> is a parameter: \<open>contains_key\<close> refreshes the entry it finds and so
  returns a new state, as does \<open>insert\<close>.
\<close>

record 'c lru_ops =
  lru_contains_key :: "'c \<Rightarrow> hash \<Rightarrow> bool \<times> 'c"
  lru_insert :: "'c \<Rightarrow> hash \<Rightarrow> 'c"
  lru_new :: "u64 \<Rightarrow> 'c"

record 'c verifier_cache =
  kernel_sig_verification_cache :: 'c
  rangeproof_verification_cache :: 'c

definition verifier_cache_new :: "'c lru_ops \<Rightarrow> 'c verifier_cache" where
  "verifier_cache_new L = \<lparr>kernel_sig_verification_cache = lru_new L 50000,
     rangeproof_verification_cache = lru_new L 50000\<rparr>"

definition hash_range_proof :: "(bytes \<Rightarrow> hash) \<Rightarrow> range_proof \<Rightarrow> hash" where
  "hash_range_proof blake p = blake (write_range_proof p)"

fun lru_filter :: "'c lru_ops \<Rightarrow> ('a \<Rightarrow> hash) \<Rightarrow> 'c \<Rightarrow> 'a list \<Rightarrow> 'a list \<times> 'c" where
  "lru_filter L key c [] = ([], c)"
| "lru_filter L key c (x # xs) =
    (let (found, c) = lru_contains_key L c (key x);
         (ys, c) = lru_filter L key c xs
     in (if found then ys else x # ys, c))"

definition filter_kernel_sig_unverified ::
  "(bytes \<Rightarrow> hash) \<Rightarrow> 'c lru_ops \<Rightarrow> 'c verifier_cache \<Rightarrow> tx_kernel list \<Rightarrow> tx_kernel list \<times> 'c verifier_cache" where
  "filter_kernel_sig_unverified blake L vc ks =
    (let (r, c) = lru_filter L (hash_tx_kernel blake) (kernel_sig_verification_cache vc) ks
     in (r, vc\<lparr>kernel_sig_verification_cache := c\<rparr>))"

definition filter_token_kernel_sig_unverified ::
  "(bytes \<Rightarrow> hash) \<Rightarrow> 'c lru_ops \<Rightarrow> 'c verifier_cache \<Rightarrow> token_tx_kernel list \<Rightarrow> token_tx_kernel list \<times> 'c verifier_cache" where
  "filter_token_kernel_sig_unverified blake L vc ks =
    (let (r, c) = lru_filter L (hash_token_tx_kernel blake) (kernel_sig_verification_cache vc) ks
     in (r, vc\<lparr>kernel_sig_verification_cache := c\<rparr>))"

definition filter_rangeproof_unverified ::
  "(bytes \<Rightarrow> hash) \<Rightarrow> 'c lru_ops \<Rightarrow> 'c verifier_cache \<Rightarrow> output_t list \<Rightarrow> output_t list \<times> 'c verifier_cache" where
  "filter_rangeproof_unverified blake L vc outs =
    (let (r, c) = lru_filter L (\<lambda>x. hash_range_proof blake (o_proof x)) (rangeproof_verification_cache vc) outs
     in (r, vc\<lparr>rangeproof_verification_cache := c\<rparr>))"

definition filter_token_rangeproof_unverified ::
  "(bytes \<Rightarrow> hash) \<Rightarrow> 'c lru_ops \<Rightarrow> 'c verifier_cache \<Rightarrow> token_output list \<Rightarrow> token_output list \<times> 'c verifier_cache" where
  "filter_token_rangeproof_unverified blake L vc outs =
    (let (r, c) = lru_filter L (\<lambda>x. hash_range_proof blake (to_proof x)) (rangeproof_verification_cache vc) outs
     in (r, vc\<lparr>rangeproof_verification_cache := c\<rparr>))"

definition add_kernel_sig_verified ::
  "(bytes \<Rightarrow> hash) \<Rightarrow> 'c lru_ops \<Rightarrow> tx_kernel list \<Rightarrow> 'c verifier_cache \<Rightarrow> 'c verifier_cache" where
  "add_kernel_sig_verified blake L ks vc = vc\<lparr>kernel_sig_verification_cache :=
     foldl (\<lambda>c k. lru_insert L c (hash_tx_kernel blake k)) (kernel_sig_verification_cache vc) ks\<rparr>"

definition add_token_kernel_sig_verified ::
  "(bytes \<Rightarrow> hash) \<Rightarrow> 'c lru_ops \<Rightarrow> token_tx_kernel list \<Rightarrow> 'c verifier_cache \<Rightarrow> 'c verifier_cache" where
  "add_token_kernel_sig_verified blake L ks vc = vc\<lparr>kernel_sig_verification_cache :=
     foldl (\<lambda>c k. lru_insert L c (hash_token_tx_kernel blake k)) (kernel_sig_verification_cache vc) ks\<rparr>"

definition add_rangeproof_verified ::
  "(bytes \<Rightarrow> hash) \<Rightarrow> 'c lru_ops \<Rightarrow> output_t list \<Rightarrow> 'c verifier_cache \<Rightarrow> 'c verifier_cache" where
  "add_rangeproof_verified blake L outs vc = vc\<lparr>rangeproof_verification_cache :=
     foldl (\<lambda>c x. lru_insert L c (hash_range_proof blake (o_proof x))) (rangeproof_verification_cache vc) outs\<rparr>"

definition add_token_rangeproof_verified ::
  "(bytes \<Rightarrow> hash) \<Rightarrow> 'c lru_ops \<Rightarrow> token_output list \<Rightarrow> 'c verifier_cache \<Rightarrow> 'c verifier_cache" where
  "add_token_rangeproof_verified blake L outs vc = vc\<lparr>rangeproof_verification_cache :=
     foldl (\<lambda>c x. lru_insert L c (hash_range_proof blake (to_proof x))) (rangeproof_verification_cache vc) outs\<rparr>"

section \<open>The transaction body\<close>

datatype weighting = AsTransaction | AsLimitedTransaction u64 | AsBlock | NoLimit

record transaction_body =
  b_inputs :: "input list"
  b_token_inputs :: "token_input list"
  b_outputs :: "output_t list"
  b_token_outputs :: "token_output list"
  b_kernels :: "tx_kernel list"
  b_token_kernels :: "token_tx_kernel list"

definition body_empty :: transaction_body where
  "body_empty = \<lparr>b_inputs = [], b_token_inputs = [], b_outputs = [], b_token_outputs = [],
     b_kernels = [], b_token_kernels = []\<rparr>"

text \<open>\<open>entry(key).or_insert(vec![])\<close> followed by \<open>push\<close>.\<close>

definition entry_push :: "token_key \<Rightarrow> commitment \<Rightarrow> commitment list token_map \<Rightarrow> commitment list token_map" where
  "entry_push k c m = AList.update k ((case map_of m k of None \<Rightarrow> [] | Some v \<Rightarrow> v) @ [c]) m"

definition body_token_inputs_committed :: "transaction_body \<Rightarrow> commitment list token_map" where
  "body_token_inputs_committed b =
    foldl (\<lambda>m i. entry_push (ti_token_type i) (ti_commit i) m) [] (b_token_inputs b)"

definition body_token_outputs_committed :: "transaction_body \<Rightarrow> commitment list token_map" where
  "body_token_outputs_committed b =
    foldl (\<lambda>m x. if is_token x then entry_push (to_token_type x) (to_commit x) m else m) [] (b_token_outputs b)"

definition body_token_kernels_committed :: "transaction_body \<Rightarrow> commitment list token_map" where
  "body_token_kernels_committed b =
    foldl (\<lambda>m k. if is_plain_token k then entry_push (tk_token_type k) (tk_excess k) m else m) [] (b_token_kernels b)"

definition body_committed :: "transaction_body \<Rightarrow> committed" where
  "body_committed b =
    \<lparr>inputs_committed = map i_commit (b_inputs b),
     outputs_committed = map o_commit (b_outputs b),
     kernels_committed = map k_excess (b_kernels b),
     token_inputs_committed = body_token_inputs_committed b,
     token_outputs_committed = body_token_outputs_committed b,
     token_kernels_committed = body_token_kernels_committed b\<rparr>"

definition body_fee :: "transaction_body \<Rightarrow> u64" where
  "body_fee b = foldl sat_add 0 (filter_map
     (\<lambda>k. case k_features k of CoinbaseKernel \<Rightarrow> None | PlainKernel fee \<Rightarrow> Some fee | HeightLocked fee _ \<Rightarrow> Some fee)
     (b_kernels b))"

definition body_overage :: "transaction_body \<Rightarrow> u64" where
  "body_overage b = body_fee b"

definition usize :: "'a list \<Rightarrow> u64" where
  "usize xs = of_nat (length xs)"

definition weight :: "u64 \<Rightarrow> u64 \<Rightarrow> u64 \<Rightarrow> u64 \<Rightarrow> u64 \<Rightarrow> u64 \<Rightarrow> u64" where
  "weight input_len output_len kernel_len token_input_len token_output_len token_kernel_len =
    (let body_weight = sat_sub (sat_add (sat_mul output_len 4) kernel_len) input_len;
         body_token_weight = sat_sub (sat_add (sat_mul token_output_len 4) token_kernel_len) token_input_len
     in max (body_weight + body_token_weight) 1)"

definition weight_as_block :: "u64 \<Rightarrow> u64 \<Rightarrow> u64 \<Rightarrow> u64 \<Rightarrow> u64 \<Rightarrow> u64 \<Rightarrow> u64" where
  "weight_as_block input_len output_len kernel_len token_input_len token_output_len token_kernel_len =
    (let weight = sat_add (sat_add (sat_mul input_len (of_nat BLOCK_INPUT_WEIGHT))
            (sat_mul output_len (of_nat BLOCK_OUTPUT_WEIGHT))) (sat_mul kernel_len (of_nat BLOCK_KERNEL_WEIGHT));
         token_weight = sat_add (sat_add (sat_mul token_input_len (of_nat BLOCK_INPUT_WEIGHT))
            (sat_mul token_output_len (of_nat BLOCK_OUTPUT_WEIGHT))) (sat_mul token_kernel_len (of_nat BLOCK_KERNEL_WEIGHT))
     in weight + token_weight)"

definition body_weight :: "transaction_body \<Rightarrow> u64" where
  "body_weight b = weight (usize (b_inputs b)) (usize (b_outputs b)) (usize (b_kernels b))
     (usize (b_token_inputs b)) (usize (b_token_outputs b)) (usize (b_token_kernels b))"

definition body_weight_as_block :: "transaction_body \<Rightarrow> u64" where
  "body_weight_as_block b = weight_as_block (usize (b_inputs b)) (usize (b_outputs b)) (usize (b_kernels b))
     (usize (b_token_inputs b)) (usize (b_token_outputs b)) (usize (b_token_kernels b))"

definition iter_max :: "u64 list \<Rightarrow> u64 option" where
  "iter_max xs = (if xs = [] then None else Some (Max (set xs)))"

definition body_lock_height :: "transaction_body \<Rightarrow> u64" where
  "body_lock_height b =
    (let kernel_height = unwrap_or 0 (iter_max (filter_map
           (\<lambda>k. case k_features k of HeightLocked _ lock_height \<Rightarrow> Some lock_height | _ \<Rightarrow> None) (b_kernels b)));
         token_kernel_height = unwrap_or 0 (iter_max (filter_map
           (\<lambda>k. case tk_features k of HeightLockedToken lock_height \<Rightarrow> Some lock_height | _ \<Rightarrow> None) (b_token_kernels b)))
     in if kernel_height > token_kernel_height then kernel_height else token_kernel_height)"

section \<open>Checks on the body\<close>

definition verify_weight :: "chain_types \<Rightarrow> transaction_body \<Rightarrow> weighting \<Rightarrow> tx_error + unit" where
  "verify_weight ct b w =
    (let coinbase_weight = of_nat BLOCK_OUTPUT_WEIGHT + of_nat BLOCK_KERNEL_WEIGHT;
         check = (\<lambda>max_weight. if body_weight_as_block b > max_weight then Inl TooHeavy else Inr ())
     in case w of
          AsTransaction \<Rightarrow> check (sat_sub (of_nat (max_block_weight ct)) coinbase_weight)
        | AsLimitedTransaction max_weight \<Rightarrow>
            check (sat_sub (min (of_nat (max_block_weight ct)) max_weight) coinbase_weight)
        | AsBlock \<Rightarrow> check (of_nat (max_block_weight ct))
        | NoLimit \<Rightarrow> Inr ())"

definition verify_sorted :: "(bytes \<Rightarrow> hash) \<Rightarrow> transaction_body \<Rightarrow> tx_error + unit" where
  "verify_sorted blake b = map_err Serialization (
    rbind (verify_sorted_and_unique (hash_input blake) (b_inputs b)) (\<lambda>_.
    rbind (verify_sorted_and_unique (hash_token_input blake) (b_token_inputs b)) (\<lambda>_.
    rbind (verify_sorted_and_unique (hash_output blake) (b_outputs b)) (\<lambda>_.
    rbind (verify_sorted_and_unique (hash_token_output blake) (b_token_outputs b)) (\<lambda>_.
    rbind (verify_sorted_and_unique (hash_tx_kernel blake) (b_kernels b)) (\<lambda>_.
    verify_sorted_and_unique (hash_token_tx_kernel blake) (b_token_kernels b)))))))"

fun cut_through_walk :: "hash list \<Rightarrow> hash list \<Rightarrow> tx_error + unit" where
  "cut_through_walk (ih # ins) (oh # outs) =
    (if ih < oh then cut_through_walk ins (oh # outs)
     else if ih > oh then cut_through_walk (ih # ins) outs
     else Inl CutThrough)"
| "cut_through_walk ins outs = Inr ()"

definition verify_cut_through :: "(bytes \<Rightarrow> hash) \<Rightarrow> transaction_body \<Rightarrow> tx_error + unit" where
  "verify_cut_through blake b =
    cut_through_walk (map (hash_input blake) (b_inputs b)) (map (hash_output blake) (b_outputs b))"

definition verify_output_features :: "transaction_body \<Rightarrow> tx_error + unit" where
  "verify_output_features b =
    (if list_ex (\<lambda>x. \<not> is_plain x) (b_outputs b) then Inl InvalidOutputFeatures else Inr ())"

definition verify_token_input_features :: "transaction_body \<Rightarrow> tx_error + unit" where
  "verify_token_input_features b =
    (if list_ex (\<lambda>x. \<not> input_is_token x \<and> \<not> input_is_tokenissue x) (b_token_inputs b)
     then Inl InvalidOutputFeatures else Inr ())"

definition verify_token_output_features :: "transaction_body \<Rightarrow> tx_error + unit" where
  "verify_token_output_features b =
    (if list_ex (\<lambda>x. \<not> is_token x \<and> \<not> is_tokenissue x) (b_token_outputs b)
     then Inl InvalidOutputFeatures else Inr ())"

definition verify_kernel_features :: "transaction_body \<Rightarrow> tx_error + unit" where
  "verify_kernel_features b =
    (if list_ex is_coinbase_kernel (b_kernels b) then Inl InvalidKernelFeatures else Inr ())"

definition verify_features :: "transaction_body \<Rightarrow> tx_error + unit" where
  "verify_features b =
    rbind (verify_output_features b) (\<lambda>_.
    rbind (verify_token_input_features b) (\<lambda>_.
    rbind (verify_token_output_features b) (\<lambda>_. verify_kernel_features b)))"

definition body_validate_read :: "chain_types \<Rightarrow> (bytes \<Rightarrow> hash) \<Rightarrow> transaction_body \<Rightarrow> weighting \<Rightarrow> tx_error + unit" where
  "body_validate_read ct blake b w =
    rbind (verify_weight ct b w) (\<lambda>_.
    rbind (verify_sorted blake b) (\<lambda>_. verify_cut_through blake b))"

text \<open>\<open>all\<close> over \<open>HashSet::insert\<close>: the set with all the keys, or nothing at the first repetition.\<close>

fun insert_unique :: "token_key list \<Rightarrow> token_key list \<Rightarrow> token_key list option" where
  "insert_unique seen [] = Some seen"
| "insert_unique seen (t # ts) = (if t \<in> set seen then None else insert_unique (t # seen) ts)"

definition validate_issue_token_output :: "transaction_body \<Rightarrow> tx_error + unit" where
  "validate_issue_token_output b =
    (case insert_unique [] (map to_token_type (filter is_tokenissue (b_token_outputs b))) of
       None \<Rightarrow> Inl IssueTokenKeyRepeated
     | Some output_set \<Rightarrow>
       (case insert_unique [] (map tk_token_type (filter is_issue_token (b_token_kernels b))) of
          None \<Rightarrow> Inl IssueTokenKeyRepeated
        | Some kernel_set \<Rightarrow>
            if length output_set \<noteq> length kernel_set then Inl IssueTokenSumMismatch
            else if list_ex (\<lambda>t. t \<notin> set kernel_set) output_set then Inl IssueTokenSumMismatch
            else Inr ()))"

definition body_validate_token_height :: "chain_types \<Rightarrow> transaction_body \<Rightarrow> u64 \<Rightarrow> tx_error + unit" where
  "body_validate_token_height ct b height =
    (if height < support_token_height ct \<and> length (b_token_kernels b) > 0
     then Inl UnreachTokenSupportHeight else Inr ())"

section \<open>Full validation of the body\<close>

text \<open>The verifier state is threaded through the calls; it is returned with errors as well, since
  looking an entry up already refreshes it.\<close>

definition body_validate ::
  "chain_types \<Rightarrow> (bytes \<Rightarrow> hash) \<Rightarrow> secp \<Rightarrow> 'c lru_ops \<Rightarrow> transaction_body \<Rightarrow> weighting \<Rightarrow> 'c verifier_cache \<Rightarrow>
     (tx_error + unit) \<times> 'c verifier_cache" where
  "body_validate ct blake S L b w vc =
    (case rbind (body_validate_read ct blake b w) (\<lambda>_. validate_issue_token_output b) of
       Inl e \<Rightarrow> (Inl e, vc)
     | Inr _ \<Rightarrow>
    let (outs, vc) = filter_rangeproof_unverified blake L vc (b_outputs b)
    in case (if outs \<noteq> [] then batch_verify_proofs S (map o_commit outs) (map o_proof outs) else Inr ()) of
       Inl e \<Rightarrow> (Inl e, vc)
     | Inr _ \<Rightarrow>
    let (token_outs, vc) = filter_token_rangeproof_unverified blake L vc (b_token_outputs b)
    in case (if token_outs \<noteq> [] then batch_verify_proofs S (map to_commit token_outs) (map to_proof token_outs) else Inr ()) of
       Inl e \<Rightarrow> (Inl e, vc)
     | Inr _ \<Rightarrow>
    let (ks, vc) = filter_kernel_sig_unverified blake L vc (b_kernels b)
    in case batch_sig_verify blake S ks of
       Inl e \<Rightarrow> (Inl e, vc)
     | Inr _ \<Rightarrow>
    let (tks, vc) = filter_token_kernel_sig_unverified blake L vc (b_token_kernels b)
    in case token_batch_sig_verify blake S tks of
       Inl e \<Rightarrow> (Inl e, vc)
     | Inr _ \<Rightarrow>
       (Inr (), add_token_kernel_sig_verified blake L tks (add_kernel_sig_verified blake L ks
          (add_token_rangeproof_verified blake L token_outs (add_rangeproof_verified blake L outs vc)))))"

section \<open>Building bodies\<close>

definition body_sort :: "(bytes \<Rightarrow> hash) \<Rightarrow> transaction_body \<Rightarrow> transaction_body" where
  "body_sort blake b =
    \<lparr>b_inputs = sort_key (hash_input blake) (b_inputs b),
     b_token_inputs = sort_key (hash_token_input blake) (b_token_inputs b),
     b_outputs = sort_key (hash_output blake) (b_outputs b),
     b_token_outputs = sort_key (hash_token_output blake) (b_token_outputs b),
     b_kernels = sort_key (hash_tx_kernel blake) (b_kernels b),
     b_token_kernels = sort_key (hash_token_tx_kernel blake) (b_token_kernels b)\<rparr>"

definition body_init ::
  "(bytes \<Rightarrow> hash) \<Rightarrow> input list \<Rightarrow> output_t list \<Rightarrow> tx_kernel list \<Rightarrow> token_input list \<Rightarrow> token_output list \<Rightarrow>
     token_tx_kernel list \<Rightarrow> bool \<Rightarrow> tx_error + transaction_body" where
  "body_init blake ins outs ks tins touts tks verify =
    (let body = \<lparr>b_inputs = ins, b_token_inputs = tins, b_outputs = outs, b_token_outputs = touts,
           b_kernels = ks, b_token_kernels = tks\<rparr>
     in if verify then rbind (verify_sorted blake body) (\<lambda>_. Inr body)
        else Inr (body_sort blake body))"

text \<open>\<open>binary_search\<close> on a sorted vector and insertion at the place it reports, unless an element with
  the same hash is there.\<close>

definition insert_sorted :: "('a \<Rightarrow> hash) \<Rightarrow> 'a \<Rightarrow> 'a list \<Rightarrow> 'a list" where
  "insert_sorted key x xs =
    (if list_ex (\<lambda>y. key y = key x) xs then xs
     else takeWhile (\<lambda>y. key y < key x) xs @ x # dropWhile (\<lambda>y. key y < key x) xs)"

definition body_with_input :: "(bytes \<Rightarrow> hash) \<Rightarrow> input \<Rightarrow> transaction_body \<Rightarrow> transaction_body" where
  "body_with_input blake x b = b\<lparr>b_inputs := insert_sorted (hash_input blake) x (b_inputs b)\<rparr>"

definition body_with_output :: "(bytes \<Rightarrow> hash) \<Rightarrow> output_t \<Rightarrow> transaction_body \<Rightarrow> transaction_body" where
  "body_with_output blake x b = b\<lparr>b_outputs := insert_sorted (hash_output blake) x (b_outputs b)\<rparr>"

definition body_with_token_input :: "(bytes \<Rightarrow> hash) \<Rightarrow> token_input \<Rightarrow> transaction_body \<Rightarrow> transaction_body" where
  "body_with_token_input blake x b = b\<lparr>b_token_inputs := insert_sorted (hash_token_input blake) x (b_token_inputs b)\<rparr>"

definition body_with_token_output :: "(bytes \<Rightarrow> hash) \<Rightarrow> token_output \<Rightarrow> transaction_body \<Rightarrow> transaction_body" where
  "body_with_token_output blake x b = b\<lparr>b_token_outputs := insert_sorted (hash_token_output blake) x (b_token_outputs b)\<rparr>"

definition body_with_kernel :: "(bytes \<Rightarrow> hash) \<Rightarrow> tx_kernel \<Rightarrow> transaction_body \<Rightarrow> transaction_body" where
  "body_with_kernel blake x b = b\<lparr>b_kernels := insert_sorted (hash_tx_kernel blake) x (b_kernels b)\<rparr>"

definition body_replace_kernel :: "tx_kernel \<Rightarrow> transaction_body \<Rightarrow> transaction_body" where
  "body_replace_kernel x b = b\<lparr>b_kernels := [x]\<rparr>"

definition body_with_token_kernel :: "(bytes \<Rightarrow> hash) \<Rightarrow> token_tx_kernel \<Rightarrow> transaction_body \<Rightarrow> transaction_body" where
  "body_with_token_kernel blake x b =
    b\<lparr>b_token_kernels := insert_sorted (hash_token_tx_kernel blake) x (b_token_kernels b)\<rparr>"

definition body_replace_token_kernel :: "token_tx_kernel \<Rightarrow> transaction_body \<Rightarrow> transaction_body" where
  "body_replace_token_kernel x b = b\<lparr>b_token_kernels := [x]\<rparr>"

section \<open>Serialization\<close>

definition write_body_v1 :: "serialization_mode \<Rightarrow> version \<Rightarrow> transaction_body \<Rightarrow> bytes" where
  "write_body_v1 mode v b =
    write_u64 (usize (b_inputs b)) @ write_u64 (usize (b_outputs b)) @ write_u64 (usize (b_kernels b))
    @ write_vec write_input (b_inputs b) @ write_vec (write_output mode) (b_outputs b)
    @ write_vec (write_tx_kernel mode v) (b_kernels b)"

definition write_body_v2 :: "serialization_mode \<Rightarrow> version \<Rightarrow> transaction_body \<Rightarrow> bytes" where
  "write_body_v2 mode v b =
    write_u64 (usize (b_inputs b)) @ write_u64 (usize (b_token_inputs b)) @ write_u64 (usize (b_outputs b))
    @ write_u64 (usize (b_token_outputs b)) @ write_u64 (usize (b_kernels b)) @ write_u64 (usize (b_token_kernels b))
    @ write_vec write_input (b_inputs b) @ write_vec write_token_input (b_token_inputs b)
    @ write_vec (write_output mode) (b_outputs b) @ write_vec (write_token_output mode) (b_token_outputs b)
    @ write_vec (write_tx_kernel mode v) (b_kernels b) @ write_vec write_token_tx_kernel (b_token_kernels b)"

definition write_body :: "serialization_mode \<Rightarrow> version \<Rightarrow> transaction_body \<Rightarrow> bytes" where
  "write_body mode v b = (if v \<le> 1 then write_body_v1 mode v b else write_body_v2 mode v b)"

definition read_body_v1 ::
  "chain_types \<Rightarrow> (bytes \<Rightarrow> hash) \<Rightarrow> secp_sizes \<Rightarrow> reader \<Rightarrow> transaction_body parse" where
  "read_body_v1 ct blake K r =
    rbind (read_u64 r) (\<lambda>(input_len, r).
    rbind (read_u64 r) (\<lambda>(output_len, r).
    rbind (read_u64 r) (\<lambda>(kernel_len, r).
    if weight_as_block input_len output_len kernel_len 0 0 0 > of_nat (max_block_weight ct) then Inl TooLargeReadErr
    else
    rbind (read_multi (read_input K) r input_len) (\<lambda>(ins, r).
    rbind (read_multi (read_output K) r output_len) (\<lambda>(outs, r).
    rbind (read_multi (read_tx_kernel K) r kernel_len) (\<lambda>(ks, r).
    rbind (map_err (\<lambda>_. CorruptedData) (body_init blake ins outs ks [] [] [] True)) (\<lambda>body.
      Inr (body, r))))))))"

definition read_body_v2 ::
  "chain_types \<Rightarrow> (bytes \<Rightarrow> hash) \<Rightarrow> secp_sizes \<Rightarrow> reader \<Rightarrow> transaction_body parse" where
  "read_body_v2 ct blake K r =
    rbind (read_u64 r) (\<lambda>(input_len, r).
    rbind (read_u64 r) (\<lambda>(token_input_len, r).
    rbind (read_u64 r) (\<lambda>(output_len, r).
    rbind (read_u64 r) (\<lambda>(token_output_len, r).
    rbind (read_u64 r) (\<lambda>(kernel_len, r).
    rbind (read_u64 r) (\<lambda>(token_kernel_len, r).
    if weight_as_block input_len output_len kernel_len token_input_len token_output_len token_kernel_len
       > of_nat (max_block_weight ct) then Inl TooLargeReadErr
    else
    rbind (read_multi (read_input K) r input_len) (\<lambda>(ins, r).
    rbind (read_multi (read_token_input K) r token_input_len) (\<lambda>(tins, r).
    rbind (read_multi (read_output K) r output_len) (\<lambda>(outs, r).
    rbind (read_multi (read_token_output K) r token_output_len) (\<lambda>(touts, r).
    rbind (read_multi (read_tx_kernel K) r kernel_len) (\<lambda>(ks, r).
    rbind (read_multi (read_token_tx_kernel K) r token_kernel_len) (\<lambda>(tks, r).
    rbind (map_err (\<lambda>_. CorruptedData) (body_init blake ins outs ks tins touts tks True)) (\<lambda>body.
      Inr (body, r))))))))))))))"

definition read_body ::
  "chain_types \<Rightarrow> (bytes \<Rightarrow> hash) \<Rightarrow> secp_sizes \<Rightarrow> reader \<Rightarrow> transaction_body parse" where
  "read_body ct blake K r = (if rd_version r \<le> 1 then read_body_v1 ct blake K r else read_body_v2 ct blake K r)"

section \<open>Transactions\<close>

record transaction =
  tx_offset :: blinding_factor
  tx_body :: transaction_body

definition write_transaction :: "serialization_mode \<Rightarrow> version \<Rightarrow> transaction \<Rightarrow> bytes" where
  "write_transaction mode v tx = write_blinding (tx_offset tx) @ write_body mode v (tx_body tx)"

definition hash_transaction :: "(bytes \<Rightarrow> hash) \<Rightarrow> transaction \<Rightarrow> hash" where
  "hash_transaction blake tx = blake (write_transaction HashMode version_local tx)"

definition tx_validate_read :: "chain_types \<Rightarrow> (bytes \<Rightarrow> hash) \<Rightarrow> transaction \<Rightarrow> tx_error + unit" where
  "tx_validate_read ct blake tx =
    rbind (body_validate_read ct blake (tx_body tx) AsTransaction) (\<lambda>_. verify_features (tx_body tx))"

definition read_transaction ::
  "chain_types \<Rightarrow> (bytes \<Rightarrow> hash) \<Rightarrow> secp_sizes \<Rightarrow> reader \<Rightarrow> transaction parse" where
  "read_transaction ct blake K r =
    rbind (read_blinding K r) (\<lambda>(offset, r).
    rbind (read_body ct blake K r) (\<lambda>(body, r).
      let tx = \<lparr>tx_offset = offset, tx_body = body\<rparr>
      in rbind (map_err (\<lambda>_. CorruptedData) (tx_validate_read ct blake tx)) (\<lambda>_. Inr (tx, r))))"

definition tx_empty :: "secp \<Rightarrow> transaction" where
  "tx_empty S = \<lparr>tx_offset = blinding_zero S, tx_body = body_empty\<rparr>"

definition tx_new ::
  "secp \<Rightarrow> (bytes \<Rightarrow> hash) \<Rightarrow> input list \<Rightarrow> output_t list \<Rightarrow> token_input list \<Rightarrow> token_output list \<Rightarrow>
     tx_kernel list \<Rightarrow> token_tx_kernel list \<Rightarrow> transaction" where
  "tx_new S blake ins outs tins touts ks tks =
    \<lparr>tx_offset = blinding_zero S,
     tx_body = (case body_init blake ins outs ks tins touts tks False of Inr b \<Rightarrow> b | Inl _ \<Rightarrow> body_empty)\<rparr>"

definition with_offset :: "blinding_factor \<Rightarrow> transaction \<Rightarrow> transaction" where
  "with_offset offset tx = tx\<lparr>tx_offset := offset\<rparr>"

definition tx_with_input :: "(bytes \<Rightarrow> hash) \<Rightarrow> input \<Rightarrow> transaction \<Rightarrow> transaction" where
  "tx_with_input blake x tx = tx\<lparr>tx_body := body_with_input blake x (tx_body tx)\<rparr>"

definition tx_with_output :: "(bytes \<Rightarrow> hash) \<Rightarrow> output_t \<Rightarrow> transaction \<Rightarrow> transaction" where
  "tx_with_output blake x tx = tx\<lparr>tx_body := body_with_output blake x (tx_body tx)\<rparr>"

definition tx_with_token_input :: "(bytes \<Rightarrow> hash) \<Rightarrow> token_input \<Rightarrow> transaction \<Rightarrow> transaction" where
  "tx_with_token_input blake x tx = tx\<lparr>tx_body := body_with_token_input blake x (tx_body tx)\<rparr>"

definition tx_with_token_output :: "(bytes \<Rightarrow> hash) \<Rightarrow> token_output \<Rightarrow> transaction \<Rightarrow> transaction" where
  "tx_with_token_output blake x tx = tx\<lparr>tx_body := body_with_token_output blake x (tx_body tx)\<rparr>"

definition tx_with_kernel :: "(bytes \<Rightarrow> hash) \<Rightarrow> tx_kernel \<Rightarrow> transaction \<Rightarrow> transaction" where
  "tx_with_kernel blake k tx = tx\<lparr>tx_body := body_with_kernel blake k (tx_body tx)\<rparr>"

definition tx_replace_kernel :: "tx_kernel \<Rightarrow> transaction \<Rightarrow> transaction" where
  "tx_replace_kernel k tx = tx\<lparr>tx_body := body_replace_kernel k (tx_body tx)\<rparr>"

definition tx_with_token_kernel :: "(bytes \<Rightarrow> hash) \<Rightarrow> token_tx_kernel \<Rightarrow> transaction \<Rightarrow> transaction" where
  "tx_with_token_kernel blake k tx = tx\<lparr>tx_body := body_with_token_kernel blake k (tx_body tx)\<rparr>"

definition tx_replace_token_kernel :: "token_tx_kernel \<Rightarrow> transaction \<Rightarrow> transaction" where
  "tx_replace_token_kernel k tx = tx\<lparr>tx_body := body_replace_token_kernel k (tx_body tx)\<rparr>"

definition tx_fee :: "transaction \<Rightarrow> u64" where "tx_fee tx = body_fee (tx_body tx)"
definition tx_overage :: "transaction \<Rightarrow> u64" where "tx_overage tx = body_overage (tx_body tx)"
definition tx_lock_height :: "transaction \<Rightarrow> u64" where "tx_lock_height tx = body_lock_height (tx_body tx)"
definition tx_weight :: "transaction \<Rightarrow> u64" where "tx_weight tx = body_weight (tx_body tx)"
definition tx_weight_as_block :: "transaction \<Rightarrow> u64" where
  "tx_weight_as_block tx = body_weight_as_block (tx_body tx)"

definition fee_to_weight :: "transaction \<Rightarrow> u64" where
  "fee_to_weight tx = tx_fee tx * 1000 div tx_weight tx"

definition tx_validate_token_height :: "chain_types \<Rightarrow> transaction \<Rightarrow> u64 \<Rightarrow> tx_error + unit" where
  "tx_validate_token_height ct tx height = body_validate_token_height ct (tx_body tx) height"

definition tx_validate ::
  "chain_types \<Rightarrow> (bytes \<Rightarrow> hash) \<Rightarrow> secp \<Rightarrow> 'c lru_ops \<Rightarrow> transaction \<Rightarrow> weighting \<Rightarrow> 'c verifier_cache \<Rightarrow>
     (tx_error + unit) \<times> 'c verifier_cache" where
  "tx_validate ct blake S L tx w vc =
    (let (res, vc) = body_validate ct blake S L (tx_body tx) w vc
     in (rbind res (\<lambda>_.
         rbind (verify_features (tx_body tx)) (\<lambda>_.
         rbind (map_err Committed (verify_kernel_sums S (body_committed (tx_body tx)) (tx_overage tx) (tx_offset tx))) (\<lambda>_.
         rbind (map_err Committed (verify_token_kernel_sum S (body_committed (tx_body tx)))) (\<lambda>_. Inr ())))), vc))"

section \<open>Cut-through and aggregation\<close>

text \<open>
  One of the two loops of \<open>cut_through\<close>, on vectors with their indices; \<open>chk\<close> is the check the token loop
  makes on an input and an output with equal hashes.
\<close>

function cut_loop ::
  "('i \<Rightarrow> hash) \<Rightarrow> ('o \<Rightarrow> hash) \<Rightarrow> ('i \<Rightarrow> 'o \<Rightarrow> bool) \<Rightarrow> 'i list \<Rightarrow> 'o list \<Rightarrow> nat \<Rightarrow> nat \<Rightarrow> nat \<Rightarrow>
     tx_error + 'i list \<times> 'o list" where
  "cut_loop hi ho chk ins outs i j ncut =
    (if i < length ins \<and> j < length outs then
       if hi (ins ! i) < ho (outs ! j)
       then cut_loop hi ho chk (ins[i - ncut := ins ! i]) outs (i + 1) j ncut
       else if hi (ins ! i) > ho (outs ! j)
       then cut_loop hi ho chk ins (outs[j - ncut := outs ! j]) i (j + 1) ncut
       else if \<not> chk (ins ! i) (outs ! j) then Inl TokenTypeMismatch
       else cut_loop hi ho chk ins outs (i + 1) (j + 1) (ncut + 1)
     else Inr (take (i - ncut) ins @ drop i ins, take (j - ncut) outs @ drop j outs))"
  by pat_completeness auto
termination
  by (relation "measure (\<lambda>(hi, ho, chk, ins, outs, i, j, n). (length ins - i) + (length outs - j))") auto

declare cut_loop.simps [simp del]

definition has_repeats :: "('a \<Rightarrow> hash) \<Rightarrow> 'a list \<Rightarrow> bool" where
  "has_repeats key xs = list_ex (\<lambda>(a, b). key a = key b) (windows2 xs)"

definition cut_through ::
  "(bytes \<Rightarrow> hash) \<Rightarrow> input list \<Rightarrow> output_t list \<Rightarrow> token_input list \<Rightarrow> token_output list \<Rightarrow>
     tx_error + input list \<times> output_t list \<times> token_input list \<times> token_output list" where
  "cut_through blake ins outs tins touts =
    (let outs = sort_key (hash_output blake) outs
     in if has_repeats (hash_output blake) outs then Inl AggregationError
        else
    let ins = sort_key (hash_input blake) ins
    in rbind (cut_loop (hash_input blake) (hash_output blake) (\<lambda>_ _. True) ins outs 0 0 0) (\<lambda>(ins, outs).
    let touts = sort_key (hash_token_output blake) touts
    in if has_repeats (hash_token_output blake) touts then Inl AggregationError
       else
    let tins = sort_key (hash_token_input blake) tins
    in rbind (cut_loop (hash_token_input blake) (hash_token_output blake)
         (\<lambda>i x. ti_token_type i = to_token_type x) tins touts 0 0 0) (\<lambda>(tins, touts).
       Inr (ins, outs, tins, touts))))"

definition aggregate :: "secp \<Rightarrow> (bytes \<Rightarrow> hash) \<Rightarrow> transaction list \<Rightarrow> tx_error + transaction" where
  "aggregate S blake txs =
    (if txs = [] then Inr (tx_empty S)
     else if length txs = 1 then Inr (last txs)
     else let bodies = map tx_body txs in
      rbind (cut_through blake (concat (map b_inputs bodies)) (concat (map b_outputs bodies))
          (concat (map b_token_inputs bodies)) (concat (map b_token_outputs bodies)))
        (\<lambda>(ins, outs, tins, touts).
      let ks = sort_key (hash_tx_kernel blake) (concat (map b_kernels bodies));
          tks = sort_key (hash_token_tx_kernel blake) (concat (map b_token_kernels bodies))
      in rbind (map_err Committed (sum_kernel_offsets S (map tx_offset txs) [])) (\<lambda>total_kernel_offset.
           Inr (with_offset total_kernel_offset (tx_new S blake ins outs tins touts ks tks)))))"

text \<open>The elements of the aggregate that are in none of the known transactions, each once.\<close>

fun subtract_known :: "('a \<Rightarrow> hash) \<Rightarrow> 'a list \<Rightarrow> 'a list \<Rightarrow> 'a list \<Rightarrow> 'a list" where
  "subtract_known key known acc [] = acc"
| "subtract_known key known acc (x # xs) =
    (if \<not> list_ex (\<lambda>y. key y = key x) known \<and> \<not> list_ex (\<lambda>y. key y = key x) acc
     then subtract_known key known (acc @ [x]) xs
     else subtract_known key known acc xs)"

definition deaggregate :: "secp \<Rightarrow> (bytes \<Rightarrow> hash) \<Rightarrow> transaction \<Rightarrow> transaction list \<Rightarrow> tx_error + transaction" where
  "deaggregate S blake mk_tx txs =
    rbind (aggregate S blake txs) (\<lambda>tx.
      let mk = tx_body mk_tx; b = tx_body tx;
          ins = subtract_known (hash_input blake) (b_inputs b) [] (b_inputs mk);
          outs = subtract_known (hash_output blake) (b_outputs b) [] (b_outputs mk);
          ks = subtract_known (hash_tx_kernel blake) (b_kernels b) [] (b_kernels mk);
          tins = subtract_known (hash_token_input blake) (b_token_inputs b) [] (b_token_inputs mk);
          touts = subtract_known (hash_token_output blake) (b_token_outputs b) [] (b_token_outputs mk);
          tks = subtract_known (hash_token_tx_kernel blake) (b_token_kernels b) [] (b_token_kernels mk);
          positive_key = to_secrets S [tx_offset mk_tx];
          negative_keys = to_secrets S [tx_offset tx]
      in rbind (if positive_key = [] \<and> negative_keys = [] then Inr (blinding_zero S)
                else rbind (map_err Secp (secp_blind_sum S positive_key negative_keys)) (\<lambda>k.
                  Inr (blinding_from_secret_key S k))) (\<lambda>total_kernel_offset.
         Inr (with_offset total_kernel_offset
           (tx_new S blake (sort_key (hash_input blake) ins) (sort_key (hash_output blake) outs)
              (sort_key (hash_token_input blake) tins) (sort_key (hash_token_output blake) touts)
              (sort_key (hash_tx_kernel blake) ks) (sort_key (hash_token_tx_kernel blake) tks)))))"

section \<open>Weights\<close>

lemma unat_usize: "length xs < 2 ^ 64 \<Longrightarrow> unat (usize xs) = length xs"
  by (simp add: usize_def unat_of_nat_u64)

definition block_weight :: "nat \<Rightarrow> nat \<Rightarrow> nat \<Rightarrow> nat" where
  "block_weight i out k = i + 21 * out + 3 * k"

lemma unat_block_weight:
  fixes i out k :: u64
  shows "unat (sat_add (sat_add (sat_mul i (of_nat BLOCK_INPUT_WEIGHT)) (sat_mul out (of_nat BLOCK_OUTPUT_WEIGHT)))
      (sat_mul k (of_nat BLOCK_KERNEL_WEIGHT)))
    = min (block_weight (unat i) (unat out) (unat k)) (2 ^ 64 - 1)"
  by (simp add: unat_sat_add unat_sat_mul BLOCK_INPUT_WEIGHT_def BLOCK_OUTPUT_WEIGHT_def BLOCK_KERNEL_WEIGHT_def
      block_weight_def)

lemma unat_weight_as_block:
  "unat (weight_as_block i out k ti to tk) =
    (min (block_weight (unat i) (unat out) (unat k)) (2 ^ 64 - 1)
     + min (block_weight (unat ti) (unat to) (unat tk)) (2 ^ 64 - 1)) mod 2 ^ 64"
  unfolding weight_as_block_def Let_def unat_word_ariths unat_block_weight by simp

section \<open>Cut-through\<close>

text \<open>The reference: a merge walk that drops the pairs with equal hashes.\<close>

fun cut :: "('i \<Rightarrow> hash) \<Rightarrow> ('o \<Rightarrow> hash) \<Rightarrow> ('i \<Rightarrow> 'o \<Rightarrow> bool) \<Rightarrow> 'i list \<Rightarrow> 'o list \<Rightarrow> tx_error + 'i list \<times> 'o list" where
  "cut hi ho chk (x # xs) (y # ys) =
    (if hi x < ho y then rbind (cut hi ho chk xs (y # ys)) (\<lambda>(a, b). Inr (x # a, b))
     else if hi x > ho y then rbind (cut hi ho chk (x # xs) ys) (\<lambda>(a, b). Inr (a, y # b))
     else if \<not> chk x y then Inl TokenTypeMismatch
     else cut hi ho chk xs ys)"
| "cut hi ho chk xs ys = Inr (xs, ys)"

lemma cmp_cases:
  fixes a b :: "'a::linorder"
  obtains (lt) "a < b" | (gt) "\<not> a < b" "b < a" | (eq) "a = b"
  by (metis linorder_less_linear order.asym)

lemma cut_Nil2 [simp]: "cut hi ho chk xs [] = Inr (xs, [])"
  by (cases xs) simp_all

lemma take_update_Suc:
  assumes "n \<le> i" "i < length xs"
  shows "take (Suc i - n) (xs[i - n := xs ! i]) = take (i - n) xs @ [xs ! i]"
    and "drop (Suc i) (xs[i - n := xs ! i]) = drop (Suc i) xs"
    and "length (xs[i - n := xs ! i]) = length xs"
  using assms by (simp_all add: Suc_diff_le take_Suc_conv_app_nth)

lemma cut_loop_eq:
  assumes "ncut \<le> i" "ncut \<le> j" "i \<le> length ins" "j \<le> length outs"
  shows "cut_loop hi ho chk ins outs i j ncut =
    rbind (cut hi ho chk (drop i ins) (drop j outs)) (\<lambda>(a, b). Inr (take (i - ncut) ins @ a, take (j - ncut) outs @ b))"
  using assms
proof (induction hi ho chk ins outs i j ncut rule: cut_loop.induct)
  case (1 hi ho chk ins outs i j ncut)
  show ?case
  proof (cases "i < length ins \<and> j < length outs")
    case False
    then have "drop i ins = [] \<or> drop j outs = []" by auto
    then show ?thesis using False by (subst cut_loop.simps) auto
  next
    case True
    let ?x = "ins ! i" and ?y = "outs ! j"
    have d: "drop i ins = ?x # drop (Suc i) ins" "drop j outs = ?y # drop (Suc j) outs"
      using True by (simp_all add: Cons_nth_drop_Suc)
    show ?thesis
    proof (cases rule: cmp_cases [of "hi ?x" "ho ?y"])
      case lt
      then show ?thesis using 1 True take_update_Suc [of ncut i ins]
        by (subst cut_loop.simps) (simp add: d rbind_assoc case_prod_beta)
    next
      case gt
      then show ?thesis using 1 True take_update_Suc [of ncut j outs]
        by (subst cut_loop.simps) (simp add: d rbind_assoc case_prod_beta)
    next
      case eq
      then show ?thesis using 1 True
        by (subst cut_loop.simps) (simp add: d)
    qed
  qed
qed

lemma cut_loop_0: "cut_loop hi ho chk ins outs 0 0 0 = cut hi ho chk ins outs"
  by (simp add: cut_loop_eq) (simp add: rbind_def case_prod_beta split: sum.split)

lemma cut_mset:
  assumes "cut hi ho chk xs ys = Inr (a, b)" "sorted (map hi xs)" "sorted (map ho ys)"
  shows "image_mset hi (mset a) = image_mset hi (mset xs) - image_mset ho (mset ys)
    \<and> image_mset ho (mset b) = image_mset ho (mset ys) - image_mset hi (mset xs)"
  using assms
proof (induction hi ho chk xs ys arbitrary: a b rule: cut.induct)
  case (1 hi ho chk x xs y ys)
  show ?case
  proof (cases rule: cmp_cases [of "hi x" "ho y"])
    case lt
    then obtain a' where a: "a = x # a'" "cut hi ho chk xs (y # ys) = Inr (a', b)"
      using "1.prems"(1) by (auto simp: rbind_eq_Inr)
    have "hi x \<notin># image_mset ho (mset (y # ys))" using lt "1.prems"(3) by auto
    then show ?thesis using "1.IH"(1) [OF lt a(2)] "1.prems"(2,3) a(1)
      by (simp add: diff_add_mset_swap minus_add_mset_if_not_in_lhs del: mset.simps(2)) simp
  next
    case gt
    then obtain b' where b: "b = y # b'" "cut hi ho chk (x # xs) ys = Inr (a, b')"
      using "1.prems"(1) by (auto simp: rbind_eq_Inr)
    have "ho y \<notin># image_mset hi (mset (x # xs))" using gt "1.prems"(2) by auto
    then show ?thesis using "1.IH"(2) [OF gt b(2)] gt "1.prems"(2,3) b(1)
      by (simp add: diff_add_mset_swap minus_add_mset_if_not_in_lhs del: mset.simps(2)) simp
  next
    case eq
    then show ?thesis using 1 by (auto split: if_split_asm)
  qed
qed auto

lemma cut_subset:
  "cut hi ho chk xs ys = Inr (a, b) \<Longrightarrow> mset a \<subseteq># mset xs \<and> mset b \<subseteq># mset ys \<and> subseq a xs \<and> subseq b ys"
  by (induction hi ho chk xs ys arbitrary: a b rule: cut.induct)
    (fastforce simp: rbind_eq_Inr split: if_split_asm intro: subset_mset.order_trans)+

text \<open>A pair that is dropped weighs the same on both sides.\<close>

lemma cut_balance:
  fixes vi :: "'i \<Rightarrow> 'g::ab_group_add"
  assumes "cut hi ho chk xs ys = Inr (a, b)" "\<And>x y. hi x = ho y \<Longrightarrow> vi x = vo y"
  shows "sum_list (map vo b) - sum_list (map vi a) = sum_list (map vo ys) - sum_list (map vi xs)"
  using assms
proof (induction hi ho chk xs ys arbitrary: a b rule: cut.induct)
  case (1 hi ho chk x xs y ys)
  show ?case
  proof (cases rule: cmp_cases [of "hi x" "ho y"])
    case lt
    then obtain a' where a: "a = x # a'" "cut hi ho chk xs (y # ys) = Inr (a', b)"
      using "1.prems"(1) by (auto simp: rbind_eq_Inr)
    then show ?thesis using "1.IH"(1) [OF lt a(2) "1.prems"(2)] by (simp add: algebra_simps)
  next
    case gt
    then obtain b' where b: "b = y # b'" "cut hi ho chk (x # xs) ys = Inr (a, b')"
      using "1.prems"(1) by (auto simp: rbind_eq_Inr)
    then show ?thesis using "1.IH"(2) [OF gt b(2) "1.prems"(2)] gt by (simp add: algebra_simps)
  next
    case eq
    then have "vi x = vo y" by (rule "1.prems"(2))
    moreover have "sum_list (map vo b) - sum_list (map vi a) = sum_list (map vo ys) - sum_list (map vi xs)"
      using "1.IH"(3) [OF _ _ _ _ "1.prems"(2)] "1.prems"(1) eq by (auto split: if_split_asm)
    ultimately show ?thesis by simp
  qed
qed auto

lemma cut_no_check: "cut hi ho (\<lambda>_ _. True) xs ys \<noteq> Inl e"
  by (induction hi ho "\<lambda>(_::'a) (_::'b). True" xs ys rule: cut.induct) (auto simp: rbind_eq_Inl)

lemma cut_error: "cut hi ho chk xs ys = Inl e \<Longrightarrow>
    e = TokenTypeMismatch \<and> (\<exists>x \<in> set xs. \<exists>y \<in> set ys. hi x = ho y \<and> \<not> chk x y)"
proof (induction hi ho chk xs ys rule: cut.induct)
  case (1 hi ho chk x xs y ys)
  show ?case using 1 by (cases rule: cmp_cases [of "hi x" "ho y"]) (auto simp: rbind_eq_Inl split: if_split_asm)
qed auto

lemma has_repeats_sorted:
  "sorted (map key xs) \<Longrightarrow> has_repeats key xs \<longleftrightarrow> \<not> distinct (map key xs)"
proof (induction xs rule: induct_list012)
  case (3 x y zs)
  then have "key x \<in> key ` set zs \<Longrightarrow> key x = key y" by auto
  then show ?case using 3 by (auto simp: has_repeats_def)
qed (auto simp: has_repeats_def)

lemma cut_through_eq:
  "cut_through blake ins outs tins touts =
    (if \<not> distinct (map (hash_output blake) outs) then Inl AggregationError
     else case cut (hash_input blake) (hash_output blake) (\<lambda>_ _. True)
            (sort_key (hash_input blake) ins) (sort_key (hash_output blake) outs) of
       Inl e \<Rightarrow> Inl e
     | Inr (ins', outs') \<Rightarrow>
       if \<not> distinct (map (hash_token_output blake) touts) then Inl AggregationError
       else rbind (cut (hash_token_input blake) (hash_token_output blake) (\<lambda>i x. ti_token_type i = to_token_type x)
            (sort_key (hash_token_input blake) tins) (sort_key (hash_token_output blake) touts))
          (\<lambda>(tins', touts'). Inr (ins', outs', tins', touts')))"
proof -
  have d: "distinct (map f (sort_key f xs)) \<longleftrightarrow> distinct (map f xs)" for f :: "'z \<Rightarrow> hash" and xs
    by (metis mset_eq_imp_distinct_iff mset_map mset_sort)
  show ?thesis
    by (simp add: cut_through_def Let_def has_repeats_sorted cut_loop_0 d rbind_def case_prod_beta split: sum.split)
qed

section \<open>Checks on the body\<close>

lemma cut_through_walk_ok:
  assumes "sorted_wrt (<) xs" "sorted_wrt (<) ys"
  shows "cut_through_walk xs ys = Inr () \<longleftrightarrow> set xs \<inter> set ys = {}"
  using assms
proof (induction xs ys rule: cut_through_walk.induct)
  case (1 ih ins oh outs)
  show ?case using 1 by (cases rule: cmp_cases [of ih oh]) (auto dest: order.asym)
qed auto

lemma verify_sorted_and_unique_iff:
  "verify_sorted_and_unique key xs = Inr () \<longleftrightarrow> sorted_wrt (<) (map key xs)"
  using windows2_all_iff [of "(<)" "map key xs"] by (simp add: verify_sorted_and_unique_def verify_pairs_ok)

definition body_sorted :: "(bytes \<Rightarrow> hash) \<Rightarrow> transaction_body \<Rightarrow> bool" where
  "body_sorted blake b \<longleftrightarrow> sorted_wrt (<) (map (hash_input blake) (b_inputs b))
    \<and> sorted_wrt (<) (map (hash_token_input blake) (b_token_inputs b))
    \<and> sorted_wrt (<) (map (hash_output blake) (b_outputs b))
    \<and> sorted_wrt (<) (map (hash_token_output blake) (b_token_outputs b))
    \<and> sorted_wrt (<) (map (hash_tx_kernel blake) (b_kernels b))
    \<and> sorted_wrt (<) (map (hash_token_tx_kernel blake) (b_token_kernels b))"

lemma rbind_unit_ok: "rbind x (\<lambda>_. y) = Inr v \<longleftrightarrow> (\<exists>u. x = Inr u) \<and> y = Inr v"
  by (auto simp: rbind_eq_Inr)

lemma unit_ok: "(\<exists>u. x = Inr u) \<longleftrightarrow> x = Inr ()" for x :: "'e + unit"
  by auto

lemma verify_sorted_ok: "verify_sorted blake b = Inr () \<longleftrightarrow> body_sorted blake b"
  by (simp add: verify_sorted_def rbind_unit_ok unit_ok verify_sorted_and_unique_iff body_sorted_def)

lemma insert_unique_Some:
  "insert_unique seen ts = Some r \<longleftrightarrow> r = rev ts @ seen \<and> distinct ts \<and> set ts \<inter> set seen = {}"
  by (induction seen ts rule: insert_unique.induct) auto

section \<open>Token commitments of a body\<close>

lemma map_of_entry_push:
  "map_of (entry_push k c m) t =
    (if t = k then Some ((case map_of m k of None \<Rightarrow> [] | Some v \<Rightarrow> v) @ [c]) else map_of m t)"
  by (simp add: entry_push_def update_conv)

lemma map_of_collect:
  "map_of (foldl (\<lambda>m x. if P x then entry_push (k x) (c x) m else m) m xs) t =
    (let cs = map c (filter (\<lambda>x. P x \<and> k x = t) xs)
     in if cs = [] then map_of m t else Some ((case map_of m t of None \<Rightarrow> [] | Some v \<Rightarrow> v) @ cs))"
  by (induction xs arbitrary: m) (auto simp: map_of_entry_push Let_def split: option.splits)

lemma distinct_collect:
  "distinct (map fst m) \<Longrightarrow>
    distinct (map fst (foldl (\<lambda>m x. if P x then entry_push (k x) (c x) m else m) m xs))"
  by (induction xs arbitrary: m) (auto simp: entry_push_def distinct_update)

lemma body_token_maps:
  "map_of (body_token_inputs_committed b) t = (let cs = map ti_commit (filter (\<lambda>i. ti_token_type i = t) (b_token_inputs b))
     in if cs = [] then None else Some cs)"
  "map_of (body_token_outputs_committed b) t =
    (let cs = map to_commit (filter (\<lambda>x. is_token x \<and> to_token_type x = t) (b_token_outputs b))
     in if cs = [] then None else Some cs)"
  "map_of (body_token_kernels_committed b) t =
    (let cs = map tk_excess (filter (\<lambda>k. is_plain_token k \<and> tk_token_type k = t) (b_token_kernels b))
     in if cs = [] then None else Some cs)"
  using map_of_collect [of "\<lambda>_. True" ti_token_type ti_commit "[]" "b_token_inputs b" t]
  by (simp_all add: body_token_inputs_committed_def body_token_outputs_committed_def body_token_kernels_committed_def
      map_of_collect Let_def)

lemma token_keys_distinct_body: "token_keys_distinct (body_committed b)"
  using distinct_collect [of "[]" "\<lambda>_. True" ti_token_type ti_commit "b_token_inputs b"]
  by (simp add: token_keys_distinct_def body_committed_def body_token_inputs_committed_def
      body_token_outputs_committed_def body_token_kernels_committed_def distinct_collect)

section \<open>Round trips\<close>

definition body_elements_ok :: "secp_sizes \<Rightarrow> transaction_body \<Rightarrow> bool" where
  "body_elements_ok K b \<longleftrightarrow> list_all (input_ok K) (b_inputs b) \<and> list_all (token_input_ok K) (b_token_inputs b)
    \<and> list_all (output_ok K) (b_outputs b) \<and> list_all (token_output_ok K) (b_token_outputs b)
    \<and> list_all (tx_kernel_ok K) (b_kernels b) \<and> list_all (token_tx_kernel_ok K) (b_token_kernels b)
    \<and> length (b_inputs b) \<le> 1000000 \<and> length (b_token_inputs b) \<le> 1000000 \<and> length (b_outputs b) \<le> 1000000
    \<and> length (b_token_outputs b) \<le> 1000000 \<and> length (b_kernels b) \<le> 1000000 \<and> length (b_token_kernels b) \<le> 1000000"

definition strip_tokens :: "transaction_body \<Rightarrow> transaction_body" where
  "strip_tokens b = b\<lparr>b_token_inputs := [], b_token_outputs := [], b_token_kernels := []\<rparr>"

definition body_readable :: "chain_types \<Rightarrow> (bytes \<Rightarrow> hash) \<Rightarrow> secp_sizes \<Rightarrow> transaction_body \<Rightarrow> bool" where
  "body_readable ct blake K b \<longleftrightarrow> body_elements_ok K b \<and> body_sorted blake b
     \<and> body_weight_as_block b \<le> of_nat (max_block_weight ct)"

lemma usize_simps [simp]: "usize [] = 0"
  by (simp add: usize_def)

lemma read_multi_usize:
  assumes "codec wr rd ok" "\<And>x. x \<in> set xs \<Longrightarrow> ok (rd_version r) x" "length xs \<le> 1000000"
  shows "read_multi rd (adv r n (write_vec (wr (rd_version r)) xs @ rest)) (usize xs)
    = Inr (xs, adv r (n + length (write_vec (wr (rd_version r)) xs)) rest)"
  unfolding usize_def by (rule codec.read_multi_wr [OF assms])

lemmas read_vec =
  read_multi_usize [OF inputc.codec_axioms]
  read_multi_usize [OF token_inputc.codec_axioms] read_multi_usize [OF outputc.codec_axioms]
  read_multi_usize [OF token_outputc.codec_axioms] read_multi_usize [OF tx_kernelc.codec_axioms]
  read_multi_usize [OF token_tx_kernelc.codec_axioms]

lemma body_eta:
  "\<lparr>b_inputs = b_inputs b, b_token_inputs = b_token_inputs b, b_outputs = b_outputs b,
     b_token_outputs = b_token_outputs b, b_kernels = b_kernels b, b_token_kernels = b_token_kernels b\<rparr> = b"
  "\<lparr>b_inputs = b_inputs b, b_token_inputs = [], b_outputs = b_outputs b,
     b_token_outputs = [], b_kernels = b_kernels b, b_token_kernels = []\<rparr> = strip_tokens b"
  by (cases b, simp add: strip_tokens_def)+

lemma tx_eta: "\<lparr>tx_offset = tx_offset x, tx_body = tx_body x\<rparr> = x"
  by (cases x) simp

lemma body_init_self:
  assumes "body_sorted blake b"
  shows "body_init blake (b_inputs b) (b_outputs b) (b_kernels b) (b_token_inputs b) (b_token_outputs b)
      (b_token_kernels b) True = Inr b"
    and "body_init blake (b_inputs b) (b_outputs b) (b_kernels b) [] [] [] True = Inr (strip_tokens b)"
proof -
  have "body_sorted blake (strip_tokens b)" using assms by (simp add: body_sorted_def strip_tokens_def)
  then show "body_init blake (b_inputs b) (b_outputs b) (b_kernels b) (b_token_inputs b) (b_token_outputs b)
      (b_token_kernels b) True = Inr b"
    "body_init blake (b_inputs b) (b_outputs b) (b_kernels b) [] [] [] True = Inr (strip_tokens b)"
    using assms by (simp_all add: body_init_def body_eta verify_sorted_ok [symmetric])
qed

lemma read_body_v2_wr:
  assumes "body_readable ct blake K b"
  shows "read_body_v2 ct blake K (adv r n (write_body_v2 FullMode (rd_version r) b @ rest))
    = Inr (b, adv r (n + length (write_body_v2 FullMode (rd_version r) b)) rest)"
  using assms
  by (simp add: read_body_v2_def write_body_v2_def body_readable_def body_elements_ok_def list_all_iff
      read_vec body_weight_as_block_def body_init_self not_less add.assoc)

lemma block_weight_mono:
  assumes "body_elements_ok K b"
  shows "body_weight_as_block (strip_tokens b) \<le> body_weight_as_block b"
  using assms
  by (simp add: word_le_nat_alt body_weight_as_block_def unat_weight_as_block unat_usize strip_tokens_def
      body_elements_ok_def block_weight_def)

lemma read_body_v1_wr:
  assumes "body_readable ct blake K b"
  shows "read_body_v1 ct blake K (adv r n (write_body_v1 FullMode (rd_version r) b @ rest))
    = Inr (strip_tokens b, adv r (n + length (write_body_v1 FullMode (rd_version r) b)) rest)"
proof -
  have "body_weight_as_block (strip_tokens b) \<le> of_nat (max_block_weight ct)"
    using assms block_weight_mono [of K b] unfolding body_readable_def by (meson order.trans)
  then have "\<not> weight_as_block (usize (b_inputs b)) (usize (b_outputs b)) (usize (b_kernels b)) 0 0 0
      > of_nat (max_block_weight ct)"
    by (simp add: body_weight_as_block_def strip_tokens_def not_less)
  then show ?thesis using assms
    by (simp add: read_body_v1_def write_body_v1_def body_readable_def body_elements_ok_def list_all_iff
        read_vec body_init_self add.assoc)
qed

lemma length_write_body_strip: "write_body_v1 mode v (strip_tokens b) = write_body_v1 mode v b"
  by (simp add: write_body_v1_def strip_tokens_def)

definition body_wf :: "chain_types \<Rightarrow> (bytes \<Rightarrow> hash) \<Rightarrow> secp_sizes \<Rightarrow> version \<Rightarrow> transaction_body \<Rightarrow> bool" where
  "body_wf ct blake K v b \<longleftrightarrow> body_readable ct blake K b \<and> (v \<le> 1 \<longrightarrow> strip_tokens b = b)"

interpretation bodyc: codec "write_body FullMode" "read_body ct blake K" "body_wf ct blake K" for ct blake K
proof (unfold_locales, goal_cases)
  case (1 r b n rest)
  then show ?case
    using read_body_v1_wr [of ct blake K b r n rest] read_body_v2_wr [of ct blake K b r n rest]
    by (simp add: body_wf_def read_body_def write_body_def)
qed

definition transaction_wf :: "chain_types \<Rightarrow> (bytes \<Rightarrow> hash) \<Rightarrow> secp_sizes \<Rightarrow> version \<Rightarrow> transaction \<Rightarrow> bool" where
  "transaction_wf ct blake K v tx \<longleftrightarrow> fixed_ok (SECRET_KEY_SIZE K) (tx_offset tx) \<and> body_wf ct blake K v (tx_body tx)
     \<and> tx_validate_read ct blake tx = Inr ()"

interpretation transactionc: codec "write_transaction FullMode" "read_transaction ct blake K" "transaction_wf ct blake K"
  for ct blake K
  by unfold_locales
    (simp add: transaction_wf_def read_transaction_def write_transaction_def blindc.rd_wr bodyc.rd_wr Let_def tx_eta add.assoc)

section \<open>Balance of aggregates\<close>

lemma hash_input_output:
  assumes "inj blake" "hash_input blake i = hash_output blake x"
  shows "i_features i = o_features x \<and> i_commit i = o_commit x"
proof -
  have "write_output_features (i_features i) @ i_commit i = write_output_features (o_features x) @ o_commit x"
    using injD [OF assms(1)] assms(2)
    by (simp add: hash_input_def hash_output_def write_input_def write_output_def write_commitment_def)
  then show ?thesis using output_featuresc.wr_prefix_inj by blast
qed

lemma hash_token_input_output:
  assumes "inj blake" "hash_token_input blake i = hash_token_output blake x"
    "length (ti_token_type i) = 32" "length (to_token_type x) = 32"
  shows "ti_token_type i = to_token_type x \<and> ti_commit i = to_commit x"
proof -
  have "write_output_features (ti_features i) @ ti_token_type i @ ti_commit i
      = write_output_features (to_features x) @ to_token_type x @ to_commit x"
    using injD [OF assms(1)] assms(2)
    by (simp add: hash_token_input_def hash_token_output_def write_token_input_def write_token_output_def
        write_commitment_def write_token_key_def write_hash_def)
  then have "ti_token_type i @ ti_commit i = to_token_type x @ to_commit x"
    using output_featuresc.wr_prefix_inj by blast
  then show ?thesis using assms(3,4) by simp
qed

lemma sum_list_sort: "sum_list (map f (sort_key k xs)) = sum_list (map f xs)" for f :: "'a \<Rightarrow> 'g::ab_group_add"
  by (metis mset_map mset_sort sum_mset_sum_list)

lemma sum_list_concat_map:
  "sum_list (map f (concat (map g xs))) = sum_list (map (\<lambda>x. sum_list (map f (g x))) xs)"
  for f :: "'a \<Rightarrow> 'g::ab_group_add"
  by (induction xs) simp_all

lemma mset_concat_map: "mset (concat (map f xs)) = sum_list (map (\<lambda>x. mset (f x)) xs)"
  by (induction xs) simp_all

definition outputs_less_inputs :: "(commitment \<Rightarrow> 'g::ab_group_add) \<Rightarrow> transaction \<Rightarrow> 'g" where
  "outputs_less_inputs val tx =
    vals val (map o_commit (b_outputs (tx_body tx))) - vals val (map i_commit (b_inputs (tx_body tx)))"

lemma sum_list_diff: "sum_list (map (\<lambda>x. f x - g x) xs) = sum_list (map f xs) - sum_list (map g xs)"
  for f :: "'a \<Rightarrow> 'g::ab_group_add"
  by (induction xs) simp_all

lemma cut_through_cut:
  assumes "cut_through blake ins outs tins touts = Inr (ins', outs', tins', touts')"
  shows "cut (hash_input blake) (hash_output blake) (\<lambda>_ _. True)
            (sort_key (hash_input blake) ins) (sort_key (hash_output blake) outs) = Inr (ins', outs')"
    and "cut (hash_token_input blake) (hash_token_output blake) (\<lambda>i x. ti_token_type i = to_token_type x)
            (sort_key (hash_token_input blake) tins) (sort_key (hash_token_output blake) touts) = Inr (tins', touts')"
  using assms by (auto simp: cut_through_eq rbind_eq_Inr split: if_split_asm sum.splits)

lemma tx_new_body:
  "tx_body (tx_new S blake ins outs tins touts ks tks) = body_sort blake
    \<lparr>b_inputs = ins, b_token_inputs = tins, b_outputs = outs, b_token_outputs = touts, b_kernels = ks, b_token_kernels = tks\<rparr>"
  by (simp add: tx_new_def body_init_def)

lemma aggregate_balance:
  fixes val :: "commitment \<Rightarrow> 'g::ab_group_add"
  assumes "inj blake" "aggregate S blake txs = Inr tx"
  shows "outputs_less_inputs val tx = sum_list (map (outputs_less_inputs val) txs)
    \<and> mset (b_kernels (tx_body tx)) = sum_list (map (\<lambda>t. mset (b_kernels (tx_body t))) txs)
    \<and> mset (b_token_kernels (tx_body tx)) = sum_list (map (\<lambda>t. mset (b_token_kernels (tx_body t))) txs)"
proof -
  consider "txs = []" | t where "txs = [t]" | "length txs > 1"
    by (metis One_nat_def Suc_lessI length_0_conv length_Suc_conv not_gr_zero)
  then show ?thesis
  proof cases
    case 1
    then show ?thesis using assms(2) by (auto simp: aggregate_def tx_empty_def body_empty_def outputs_less_inputs_def)
  next
    case 2
    then show ?thesis using assms(2) by (auto simp: aggregate_def)
  next
    case 3
    let ?ins = "concat (map b_inputs (map tx_body txs))" and ?outs = "concat (map b_outputs (map tx_body txs))"
    from 3 assms(2) obtain ins outs tins touts off where
      ct: "cut_through blake ?ins ?outs (concat (map b_token_inputs (map tx_body txs)))
          (concat (map b_token_outputs (map tx_body txs))) = Inr (ins, outs, tins, touts)"
      and tx: "tx = with_offset off (tx_new S blake ins outs tins touts
          (sort_key (hash_tx_kernel blake) (concat (map b_kernels (map tx_body txs))))
          (sort_key (hash_token_tx_kernel blake) (concat (map b_token_kernels (map tx_body txs)))))"
      by (auto simp: aggregate_def rbind_eq_Inr Let_def split: if_split_asm)
    have "sum_list (map (val \<circ> o_commit) outs) - sum_list (map (val \<circ> i_commit) ins)
      = sum_list (map (val \<circ> o_commit) ?outs) - sum_list (map (val \<circ> i_commit) ?ins)"
      using cut_balance [OF cut_through_cut(1) [OF ct], of "val \<circ> i_commit" "val \<circ> o_commit"]
        hash_input_output [OF assms(1)] by (simp add: sum_list_sort)
    also have "\<dots> = sum_list (map (outputs_less_inputs val) txs)"
      by (simp add: sum_list_concat_map outputs_less_inputs_def [abs_def] sum_list_diff comp_def)
    finally have "outputs_less_inputs val tx = sum_list (map (outputs_less_inputs val) txs)"
      by (simp add: outputs_less_inputs_def tx with_offset_def tx_new_body body_sort_def sum_list_sort comp_def
          del: map_map) (simp add: sum_list_sort comp_def)
    then show ?thesis by (simp add: tx with_offset_def tx_new_body body_sort_def comp_def mset_concat_map)
  qed
qed

lemma sorted_map_subseq: "subseq xs ys \<Longrightarrow> sorted (map f ys) \<Longrightarrow> sorted (map f xs)"
proof (induction rule: list_emb.induct)
  case (list_emb_Cons2 x y xs ys)
  have "z \<in> set ys" if "z \<in> set xs" for z
    using list_emb_set [OF list_emb_Cons2(2) that] by auto
  then show ?case using list_emb_Cons2 by auto
qed auto

lemma insert_unique_eq: "insert_unique [] ts = (if distinct ts then Some (rev ts) else None)"
  using insert_unique_Some [of "[]" ts] by (cases "insert_unique [] ts") auto

section \<open>Properties\<close>


definition example_input :: "u8 \<Rightarrow> input" where
  "example_input c = \<lparr>i_features = Plain, i_commit = [c]\<rparr>"

definition example_output :: "u8 \<Rightarrow> output_t" where
  "example_output c = \<lparr>o_features = Plain, o_commit = [c], o_proof = \<lparr>plen = 1, proof_bytes = [c]\<rparr>\<rparr>"



definition example_tx :: "u8 \<Rightarrow> u8 \<Rightarrow> transaction" where
  "example_tx i x = \<lparr>tx_offset = [0], tx_body = body_empty\<lparr>b_inputs := [example_input i], b_outputs := [example_output x]\<rparr>\<rparr>"


text \<open>
  Claim C32. A body passes the checks made when it is read exactly when its weight is within the limit,
  each of its six lists is strictly increasing by hash, and no input has the hash of an output.
  Nothing is required of token inputs against token outputs.
\<close>

theorem body_validate_read_correct:
  "body_validate_read ct blake b w = Inr () \<longleftrightarrow>
     (case w of
        NoLimit \<Rightarrow> True
      | AsBlock \<Rightarrow> unat (body_weight_as_block b) \<le> max_block_weight ct
      | AsTransaction \<Rightarrow> unat (body_weight_as_block b) \<le> max_block_weight ct - 24
      | AsLimitedTransaction m \<Rightarrow> unat (body_weight_as_block b) \<le> min (max_block_weight ct) (unat m) - 24)
   \<and> body_sorted blake b
   \<and> hash_input blake ` set (b_inputs b) \<inter> hash_output blake ` set (b_outputs b) = {}"
proof -
  have m: "unat (of_nat (max_block_weight ct) :: u64) = max_block_weight ct"
    by (cases ct) (simp_all add: max_block_weight_def MAX_BLOCK_WEIGHT_def)
  have s: "unat (sat_sub x (of_nat BLOCK_OUTPUT_WEIGHT + of_nat BLOCK_KERNEL_WEIGHT)) = unat x - 24" for x :: u64
    by (simp add: unat_sat_sub BLOCK_OUTPUT_WEIGHT_def BLOCK_KERNEL_WEIGHT_def)
  have mm: "unat (min (of_nat (max_block_weight ct)) x) = min (max_block_weight ct) (unat x)" for x :: u64
    using m by (simp add: min_def word_le_nat_alt)
  have "verify_weight ct b w = Inr () \<longleftrightarrow> (case w of
        NoLimit \<Rightarrow> True
      | AsBlock \<Rightarrow> unat (body_weight_as_block b) \<le> max_block_weight ct
      | AsTransaction \<Rightarrow> unat (body_weight_as_block b) \<le> max_block_weight ct - 24
      | AsLimitedTransaction m \<Rightarrow> unat (body_weight_as_block b) \<le> min (max_block_weight ct) (unat m) - 24)"
    by (cases w) (simp_all add: verify_weight_def Let_def word_less_nat_alt m s mm not_less)
  moreover have "verify_cut_through blake b = Inr () \<longleftrightarrow>
      hash_input blake ` set (b_inputs b) \<inter> hash_output blake ` set (b_outputs b) = {}"
    if "body_sorted blake b"
    using that by (simp add: verify_cut_through_def body_sorted_def cut_through_walk_ok)
  ultimately show ?thesis
    unfolding body_validate_read_def rbind_unit_ok unit_ok verify_sorted_ok by blast
qed

text \<open>
  Claim C33. The issue check accepts exactly when no token is issued twice among the outputs or among the
  kernels and the issuing outputs and issuing kernels name the same tokens.
\<close>

theorem validate_issue_token_output_correct:
  "validate_issue_token_output b = Inr () \<longleftrightarrow>
     distinct (map to_token_type (filter is_tokenissue (b_token_outputs b)))
   \<and> distinct (map tk_token_type (filter is_issue_token (b_token_kernels b)))
   \<and> to_token_type ` set (filter is_tokenissue (b_token_outputs b))
      = tk_token_type ` set (filter is_issue_token (b_token_kernels b))"
proof -
  define xs where "xs = map to_token_type (filter is_tokenissue (b_token_outputs b))"
  define ys where "ys = map tk_token_type (filter is_issue_token (b_token_kernels b))"
  have "distinct xs \<Longrightarrow> distinct ys \<Longrightarrow> length xs = length ys \<and> set xs \<subseteq> set ys \<longleftrightarrow> set xs = set ys"
    by (metis card_subset_eq distinct_card finite_set order_refl)
  then show ?thesis
    unfolding validate_issue_token_output_def xs_def [symmetric] ys_def [symmetric] set_map [symmetric]
    by (auto simp: insert_unique_eq list_ex_iff)
qed

text \<open>
  Claim C34. A body that passes the checks of a read comes back from its bytes, and nothing after it is
  consumed. Under protocol version 2 and later it comes back whole; under version 1 its token inputs,
  token outputs and token kernels are lost.
\<close>

theorem body_roundtrip:
  assumes "body_readable ct blake K b"
  shows "read_body ct blake K (adv r n (write_body FullMode (rd_version r) b @ rest))
    = Inr (if rd_version r \<le> 1 then strip_tokens b else b,
           adv r (n + length (write_body FullMode (rd_version r) b)) rest)"
  using read_body_v1_wr [OF assms, of r n rest] read_body_v2_wr [OF assms, of r n rest]
  by (simp add: read_body_def write_body_def)

definition example_token_body :: transaction_body where
  "example_token_body = body_empty\<lparr>b_token_kernels :=
     [\<lparr>tk_features = IssueToken, tk_token_type = replicate 32 7, tk_excess = [1], tk_excess_sig = [2]\<rparr>]\<rparr>"

lemma body_roundtrip_witness:
  "read_body Mainnet id example_sizes (adv (BinReader_new [] 1) 0 (write_body FullMode 1 example_token_body @ []))
    = Inr (body_empty, adv (BinReader_new [] 1) (0 + length (write_body FullMode 1 example_token_body)) [])"
proof -
  have "body_readable Mainnet id example_sizes example_token_body"
    by (simp add: body_readable_def body_elements_ok_def example_token_body_def body_empty_def body_sorted_def
        token_tx_kernel_ok_def example_sizes_def fixed_ok_def word_le_nat_alt body_weight_as_block_def
        unat_weight_as_block usize_def block_weight_def max_block_weight_def MAX_BLOCK_WEIGHT_def)
  from body_roundtrip [OF this, of "BinReader_new [] 1" 0 "[]"] show ?thesis
    by (simp add: BinReader_new_def strip_tokens_def example_token_body_def body_empty_def)
qed

lemma sint_neg_iff: "sint x < 0 \<longleftrightarrow> 2 ^ 63 \<le> unat x" for x :: u64
proof -
  have "sint x < 0 \<longleftrightarrow> bit x 63" using bit_last_iff [of x] by simp
  also have "\<dots> \<longleftrightarrow> bit (unat x) 63" by (simp add: bit_unsigned_iff)
  also have "\<dots> \<longleftrightarrow> odd (unat x div 2 ^ 63)" by (rule bit_iff_odd)
  also have "\<dots> \<longleftrightarrow> 2 ^ 63 \<le> unat x"
  proof (cases "unat x < 2 ^ 63")
    case False
    then have "unat x div 2 ^ 63 = 1" using unat_less_2p [of x] by (intro div_nat_eqI) simp_all
    then show ?thesis using False by simp
  qed simp
  finally show ?thesis .
qed

lemma unat_uminus: "x \<noteq> 0 \<Longrightarrow> unat (- x) = 2 ^ 64 - unat x" for x :: u64
  using unat_sub_if_size [of 0 x] by (simp add: word_size unat_eq_zero)

lemma overage_amt_eq:
  "overage_amt amt x = (if x = 0 then 0 else if unat x < 2 ^ 63 then amt (unat x) else - amt (2 ^ 64 - unat x))"
proof (cases "unat x < 2 ^ 63")
  case True
  then have "\<not> sint x < 0" by (simp add: sint_neg_iff)
  then show ?thesis using True by (simp only: overage_amt_def if_True if_False)
next
  case False
  then have "sint x < 0" by (simp add: sint_neg_iff)
  then show ?thesis using False unat_uminus [of x] by (cases "x = 0") (simp_all only: overage_amt_def if_True if_False refl simp_thms)
qed

text \<open>
  Claim C9. A transaction that passes \<open>validate\<close> with a fee below \<open>2 ^ 63\<close> conserves value: outputs and fee
  equal inputs, kernel excesses and offset. The fee is read as a signed number: from \<open>2 ^ 63\<close> on the
  outputs exceed the inputs, excesses and offset by \<open>2 ^ 64\<close> less the fee.
\<close>

theorem tx_validate_conserves:
  assumes "pedersen S val amt blind" "fst (tx_validate ct blake S L tx w vc) = Inr ()"
  shows "vals val (map o_commit (b_outputs (tx_body tx)))
      + (if tx_fee tx = 0 then 0 else if unat (tx_fee tx) < 2 ^ 63 then amt (unat (tx_fee tx))
         else - amt (2 ^ 64 - unat (tx_fee tx)))
    = vals val (map i_commit (b_inputs (tx_body tx))) + vals val (map k_excess (b_kernels (tx_body tx)))
      + offset_val S blind (tx_offset tx)"
proof -
  obtain u k where ok: "verify_kernel_sums S (body_committed (tx_body tx)) (tx_fee tx) (tx_offset tx) = Inr (u, k)"
    using assms(2)
    by (auto simp: tx_validate_def tx_overage_def tx_fee_def body_overage_def rbind_eq_Inr split: prod.splits)
  have "vals val (map o_commit (b_outputs (tx_body tx))) + overage_amt amt (tx_fee tx)
    = vals val (map i_commit (b_inputs (tx_body tx))) + vals val (map k_excess (b_kernels (tx_body tx)))
      + offset_val S blind (tx_offset tx)"
    using verify_kernel_sums_val [OF assms(1) ok] by (simp add: body_committed_def algebra_simps)
  then show ?thesis unfolding overage_amt_eq .
qed

text \<open>An LRU map that never evicts.\<close>

definition example_lru :: "hash list lru_ops" where
  "example_lru = \<lparr>lru_contains_key = (\<lambda>c h. (List.member c h, c)), lru_insert = (\<lambda>c h. h # c), lru_new = (\<lambda>_. [])\<rparr>"

definition example_paying_tx :: transaction where
  "example_paying_tx = \<lparr>tx_offset = [0], tx_body = body_empty\<lparr>b_inputs := [example_input 9], b_outputs := [example_output 5],
     b_kernels := [\<lparr>k_features = PlainKernel 4, k_excess = [0], k_excess_sig = [1]\<rparr>]\<rparr>\<rparr>"

lemma tx_validate_conserves_witness:
  "fst (tx_validate AutomatedTesting id example_secp example_lru example_paying_tx NoLimit (verifier_cache_new example_lru)) = Inr ()
   \<and> vals byte_val [[5]] + of_nat 4 = vals byte_val [[9]] + vals byte_val [[0]] + offset_val example_secp byte_val [0]"
proof -
  let ?b = "tx_body example_paying_tx"
  have fee: "body_fee ?b = 4" by (simp add: example_paying_tx_def body_fee_def sat_add_def body_empty_def)
  have "verify_sorted id ?b = Inr ()" "verify_cut_through id ?b = Inr ()" by code_simp+
  then have read: "body_validate_read AutomatedTesting id ?b NoLimit = Inr ()"
    by (simp add: body_validate_read_def verify_weight_def)
  have "fst (body_validate AutomatedTesting id example_secp example_lru ?b NoLimit (verifier_cache_new example_lru)) = Inr ()"
    unfolding body_validate_def read by code_simp
  moreover have "verify_features ?b = Inr ()" by code_simp
  moreover have "verify_kernel_sums example_secp (body_committed ?b) 4 [0] = Inr ([0], [0])" by code_simp
  moreover have "is_ok (verify_token_kernel_sum example_secp (body_committed ?b))" by code_simp
  moreover have "tx_offset example_paying_tx = [0]" by (simp add: example_paying_tx_def)
  ultimately have ok: "fst (tx_validate AutomatedTesting id example_secp example_lru example_paying_tx NoLimit
      (verifier_cache_new example_lru)) = Inr ()"
    by (auto simp: tx_validate_def tx_overage_def body_overage_def fee is_ok_eq split: prod.splits)
  moreover have "tx_fee example_paying_tx = 4" using fee by (simp add: tx_fee_def)
  ultimately show ?thesis using tx_validate_conserves [OF pedersen_example ok]
    by (simp add: example_paying_tx_def example_input_def example_output_def body_empty_def)
qed

end
