(* ===== verification/Tx_Validation.thy ===== *)
theory Tx_Validation
  imports Transaction
begin

text \<open>
  What the validation of a transaction body guarantees in presence of the verifier cache
  (\<open>core/src/core/verifier_cache.rs\<close>), and the limits of the checks on token bodies and on weights.
\<close>

section \<open>The LRU map and batch verification\<close>

text \<open>
  The LRU map as its documentation has it: \<open>mem\<close> holds of the keys of the map; a look-up changes the order of the
  keys only, and an insertion adds its key and may evict others.
\<close>

definition lru_laws :: "'c lru_ops \<Rightarrow> ('c \<Rightarrow> hash \<Rightarrow> bool) \<Rightarrow> bool" where
  "lru_laws L mem \<longleftrightarrow> (\<forall>c h. fst (lru_contains_key L c h) \<longrightarrow> mem c h)
    \<and> (\<forall>c h k. mem (snd (lru_contains_key L c h)) k \<longrightarrow> mem c k)
    \<and> (\<forall>c h k. mem (lru_insert L c h) k \<longrightarrow> k = h \<or> mem c k)
    \<and> (\<forall>n k. \<not> mem (lru_new L n) k)"

text \<open>A batch verifies only when each of its members verifies.\<close>

definition batch_laws :: "secp \<Rightarrow> bool" where
  "batch_laws S \<longleftrightarrow>
    (\<forall>sigs msgs pubkeys. aggsig_verify_batch S sigs msgs pubkeys \<longrightarrow>
       (\<forall>(s, m, p) \<in> set (zip sigs (zip msgs pubkeys)). aggsig_verify_single S s m p))
    \<and> (\<forall>cs ps. verify_bullet_proof_multi S cs ps = Inr () \<longrightarrow>
       (\<forall>(c, p) \<in> set (zip cs ps). verify_bullet_proof S c p = Inr ()))"

text \<open>The cached hashes are those of kernels and range proofs that verified; a proof, for some commitment.\<close>

definition kernel_hash_ok :: "(bytes \<Rightarrow> hash) \<Rightarrow> secp \<Rightarrow> hash \<Rightarrow> bool" where
  "kernel_hash_ok blake S h \<longleftrightarrow>
    (\<exists>k. hash_tx_kernel blake k = h \<and> tx_kernel_ok (secp_K S) k \<and> verify_kernel blake S k = Inr ())
    \<or> (\<exists>k. hash_token_tx_kernel blake k = h \<and> token_tx_kernel_ok (secp_K S) k \<and> verify_token_kernel blake S k = Inr ())"

definition proof_hash_ok :: "(bytes \<Rightarrow> hash) \<Rightarrow> secp \<Rightarrow> hash \<Rightarrow> bool" where
  "proof_hash_ok blake S h \<longleftrightarrow> (\<exists>c p. hash_range_proof blake p = h \<and> verify_bullet_proof S c p = Inr ())"

definition cache_sound :: "(bytes \<Rightarrow> hash) \<Rightarrow> secp \<Rightarrow> ('c \<Rightarrow> hash \<Rightarrow> bool) \<Rightarrow> 'c verifier_cache \<Rightarrow> bool" where
  "cache_sound blake S mem vc \<longleftrightarrow>
    (\<forall>h. mem (kernel_sig_verification_cache vc) h \<longrightarrow> kernel_hash_ok blake S h)
    \<and> (\<forall>h. mem (rangeproof_verification_cache vc) h \<longrightarrow> proof_hash_ok blake S h)"

lemma kernel_hash_okI:
  "tx_kernel_ok (secp_K S) k \<Longrightarrow> verify_kernel blake S k = Inr () \<Longrightarrow> kernel_hash_ok blake S (hash_tx_kernel blake k)"
  "token_tx_kernel_ok (secp_K S) t \<Longrightarrow> verify_token_kernel blake S t = Inr () \<Longrightarrow>
    kernel_hash_ok blake S (hash_token_tx_kernel blake t)"
  unfolding kernel_hash_ok_def by blast+

lemma lru_filter_spec:
  assumes "lru_laws L mem" "lru_filter L key c xs = (ys, c')"
  shows "set ys \<subseteq> set xs" "\<And>x. x \<in> set xs \<Longrightarrow> x \<in> set ys \<or> mem c (key x)" "\<And>k. mem c' k \<Longrightarrow> mem c k"
proof -
  have "set ys \<subseteq> set xs \<and> (\<forall>x \<in> set xs. x \<in> set ys \<or> mem c (key x)) \<and> (\<forall>k. mem c' k \<longrightarrow> mem c k)"
    using assms(2)
  proof (induction xs arbitrary: c ys c')
    case (Cons x xs)
    obtain f d where f: "lru_contains_key L c (key x) = (f, d)" by fastforce
    obtain zs e where r: "lru_filter L key d xs = (zs, e)" by fastforce
    have "f \<longrightarrow> mem c (key x)" "\<And>k. mem d k \<Longrightarrow> mem c k"
      using assms(1) f unfolding lru_laws_def by (metis fst_conv, metis snd_conv)
    moreover have "ys = (if f then zs else x # zs)" "c' = e" using Cons.prems f r by (auto split: if_splits)
    ultimately show ?case using Cons.IH [OF r] by auto
  qed simp
  then show "set ys \<subseteq> set xs" "\<And>x. x \<in> set xs \<Longrightarrow> x \<in> set ys \<or> mem c (key x)" "\<And>k. mem c' k \<Longrightarrow> mem c k"
    by blast+
qed

lemma lru_inserts_spec:
  assumes "lru_laws L mem" "mem (foldl (\<lambda>c x. lru_insert L c (key x)) c xs) k"
  shows "k \<in> key ` set xs \<or> mem c k"
  using assms(2)
proof (induction xs arbitrary: c)
  case (Cons x xs)
  then have "k \<in> key ` set xs \<or> mem (lru_insert L c (key x)) k" by simp
  moreover have "mem (lru_insert L c (key x)) k \<Longrightarrow> k = key x \<or> mem c k" using assms(1) unfolding lru_laws_def by blast
  ultimately show ?case by auto
qed simp

lemma batch_collect_zip:
  assumes "batch_collect blake S ks = Inr (sigs, pubkeys, msgs)" "k \<in> set ks"
  shows "\<exists>p m. to_pubkey S (k_excess k) = Inr p \<and> msg_to_sign blake S k = Inr m
    \<and> (k_excess_sig k, m, p) \<in> set (zip sigs (zip msgs pubkeys))"
  using assms
proof (induction ks arbitrary: sigs pubkeys msgs)
  case (Cons x xs)
  then show ?case by (fastforce simp: rbind_eq_Inr map_err_eq_Inr)
qed simp

lemma token_batch_collect_zip:
  assumes "token_batch_collect blake S ks = Inr (sigs, pubkeys, msgs)" "k \<in> set ks"
  shows "\<exists>p m. to_pubkey S (tk_excess k) = Inr p \<and> token_msg_to_sign blake S k = Inr m
    \<and> (tk_excess_sig k, m, p) \<in> set (zip sigs (zip msgs pubkeys))"
  using assms
proof (induction ks arbitrary: sigs pubkeys msgs)
  case (Cons x xs)
  then show ?case by (fastforce simp: rbind_eq_Inr map_err_eq_Inr)
qed simp

lemma batch_sig_verify_each:
  assumes "batch_laws S" "batch_sig_verify blake S ks = Inr ()" "k \<in> set ks"
  shows "verify_kernel blake S k = Inr ()"
proof -
  obtain sigs pubkeys msgs where c: "batch_collect blake S ks = Inr (sigs, pubkeys, msgs)"
      "aggsig_verify_batch S sigs msgs pubkeys"
    using assms(2) by (auto simp: batch_sig_verify_def rbind_eq_Inr split: if_splits)
  then show ?thesis using batch_collect_zip [OF c(1) assms(3)] assms(1)
    by (fastforce simp: batch_laws_def verify_kernel_def)
qed

lemma token_batch_sig_verify_each:
  assumes "batch_laws S" "token_batch_sig_verify blake S ks = Inr ()" "k \<in> set ks"
  shows "verify_token_kernel blake S k = Inr ()"
proof -
  obtain sigs pubkeys msgs where c: "token_batch_collect blake S ks = Inr (sigs, pubkeys, msgs)"
      "aggsig_verify_batch S sigs msgs pubkeys"
    using assms(2) by (auto simp: token_batch_sig_verify_def rbind_eq_Inr split: if_splits)
  then show ?thesis using token_batch_collect_zip [OF c(1) assms(3)] assms(1)
    by (fastforce simp: batch_laws_def verify_token_kernel_def)
qed

lemma batch_verify_proofs_each:
  assumes "batch_laws S" "(if xs \<noteq> [] then batch_verify_proofs S (map f xs) (map g xs) else Inr ()) = Inr ()" "x \<in> set xs"
  shows "verify_bullet_proof S (f x) (g x) = Inr ()"
proof -
  have "verify_bullet_proof_multi S (map f xs) (map g xs) = Inr ()"
    using assms(2,3) by (cases xs) (auto simp: batch_verify_proofs_def map_err_eq_Inr)
  moreover have "(f x, g x) \<in> set (zip (map f xs) (map g xs))" using assms(3) by (auto simp: zip_map_map zip_same_conv_map)
  ultimately show ?thesis using assms(1) unfolding batch_laws_def by blast
qed

section \<open>Hashes of kernels\<close>

lemma length_hashed_kernel:
  "tx_kernel_ok K k \<Longrightarrow> length (write_tx_kernel HashMode v k) = 17 + PEDERSEN_COMMITMENT_SIZE K + AGG_SIGNATURE_SIZE K"
  by (auto simp: write_tx_kernel_def write_kernel_features_def write_kernel_v1_def tx_kernel_ok_def fixed_ok_def
      write_commitment_def write_signature_def split: kernel_features.splits prod.splits)

lemma length_hashed_token_kernel:
  "token_tx_kernel_ok K k \<Longrightarrow> length (write_token_tx_kernel k) \<ge> 33 + PEDERSEN_COMMITMENT_SIZE K + AGG_SIGNATURE_SIZE K"
  by (auto simp: write_token_tx_kernel_def write_token_kernel_features_def write_token_key_def write_hash_def token_tx_kernel_ok_def
      fixed_ok_def write_commitment_def write_signature_def split: token_kernel_features.splits)

lemma write_tx_kernel_HashMode: "write_tx_kernel HashMode v k = write_tx_kernel FullMode 1 k"
  by (simp add: write_tx_kernel_def write_kernel_features_def)

lemma kernel_hash_okD:
  assumes "inj blake"
  shows "kernel_hash_ok blake S (hash_tx_kernel blake k) \<Longrightarrow> tx_kernel_ok (secp_K S) k \<Longrightarrow> verify_kernel blake S k = Inr ()"
    and "kernel_hash_ok blake S (hash_token_tx_kernel blake t) \<Longrightarrow> token_tx_kernel_ok (secp_K S) t \<Longrightarrow>
      verify_token_kernel blake S t = Inr ()"
proof -
  note eqs = hash_tx_kernel_def hash_token_tx_kernel_def inj_eq [OF assms]
  have distinct: "write_tx_kernel HashMode v k \<noteq> write_token_tx_kernel t"
    if "tx_kernel_ok (secp_K S) k" "token_tx_kernel_ok (secp_K S) t" for k t v
    using length_hashed_kernel [OF that(1), of v] length_hashed_token_kernel [OF that(2)] by auto
  have k: "k' = k" if "tx_kernel_ok (secp_K S) k'" "tx_kernel_ok (secp_K S) k"
      "write_tx_kernel HashMode v k' = write_tx_kernel HashMode v k" for k' k v
    using that tx_kernelc.deserialize_ser_vec [of "secp_K S" k' 1 "[]"] tx_kernelc.deserialize_ser_vec [of "secp_K S" k 1 "[]"]
    by (simp add: write_tx_kernel_HashMode ser_vec_def)
  have t: "k' = k" if "token_tx_kernel_ok (secp_K S) k'" "token_tx_kernel_ok (secp_K S) k"
      "write_token_tx_kernel k' = write_token_tx_kernel k" for k' k
    using that token_tx_kernelc.deserialize_ser_vec [of "secp_K S" k' 1 "[]"] token_tx_kernelc.deserialize_ser_vec [of "secp_K S" k 1 "[]"]
    by (simp add: ser_vec_def)
  show "verify_kernel blake S k = Inr ()"
    if "kernel_hash_ok blake S (hash_tx_kernel blake k)" "tx_kernel_ok (secp_K S) k"
    using that k distinct unfolding kernel_hash_ok_def eqs by metis
  show "verify_token_kernel blake S t = Inr ()"
    if "kernel_hash_ok blake S (hash_token_tx_kernel blake t)" "token_tx_kernel_ok (secp_K S) t"
    using that t distinct unfolding kernel_hash_ok_def eqs by metis
qed

section \<open>Validation with the cache\<close>

lemma cache_sound_new: "lru_laws L mem \<Longrightarrow> cache_sound blake S mem (verifier_cache_new L)"
  by (simp add: cache_sound_def verifier_cache_new_def lru_laws_def)

text \<open>One filter, one batch check and one update of a cache, for any of the four kinds of element.\<close>

lemma cached_check:
  assumes laws: "lru_laws L mem" and inv: "\<forall>h. mem c h \<longrightarrow> P h"
    and filter: "lru_filter L key c xs = (ys, c')" and checked: "\<forall>x \<in> set ys. P (key x)"
  shows "\<forall>h. mem c' h \<longrightarrow> P h" "\<forall>x \<in> set xs. P (key x)"
  using lru_filter_spec [OF laws filter] inv checked by blast+

lemma inserts_keep:
  assumes "lru_laws L mem" "\<forall>h. mem c h \<longrightarrow> P h" "\<forall>x \<in> set ys. P (key x)"
  shows "\<forall>h. mem (foldl (\<lambda>c x. lru_insert L c (key x)) c ys) h \<longrightarrow> P h"
  using lru_inserts_spec [OF assms(1)] assms(2,3) by blast

lemma body_validate_steps:
  assumes "body_validate ct blake S L b w vc = (Inr (), vc')"
  obtains outs c1 touts c2 ks c3 tks c4 where
    "lru_filter L (\<lambda>x. hash_range_proof blake (o_proof x)) (rangeproof_verification_cache vc) (b_outputs b) = (outs, c1)"
    "(if outs \<noteq> [] then batch_verify_proofs S (map o_commit outs) (map o_proof outs) else Inr ()) = Inr ()"
    "lru_filter L (\<lambda>x. hash_range_proof blake (to_proof x)) c1 (b_token_outputs b) = (touts, c2)"
    "(if touts \<noteq> [] then batch_verify_proofs S (map to_commit touts) (map to_proof touts) else Inr ()) = Inr ()"
    "lru_filter L (hash_tx_kernel blake) (kernel_sig_verification_cache vc) (b_kernels b) = (ks, c3)"
    "batch_sig_verify blake S ks = Inr ()"
    "lru_filter L (hash_token_tx_kernel blake) c3 (b_token_kernels b) = (tks, c4)"
    "token_batch_sig_verify blake S tks = Inr ()"
    "kernel_sig_verification_cache vc' = foldl (\<lambda>c k. lru_insert L c (hash_token_tx_kernel blake k))
       (foldl (\<lambda>c k. lru_insert L c (hash_tx_kernel blake k)) c4 ks) tks"
    "rangeproof_verification_cache vc' = foldl (\<lambda>c x. lru_insert L c (hash_range_proof blake (to_proof x)))
       (foldl (\<lambda>c x. lru_insert L c (hash_range_proof blake (o_proof x))) c2 outs) touts"
  using assms
  by (auto simp: body_validate_def filter_rangeproof_unverified_def filter_token_rangeproof_unverified_def
      filter_kernel_sig_unverified_def filter_token_kernel_sig_unverified_def add_kernel_sig_verified_def
      add_token_kernel_sig_verified_def add_rangeproof_verified_def add_token_rangeproof_verified_def Let_def
      split: sum.splits prod.splits)

lemma body_validate_cache:
  assumes laws: "lru_laws L mem" "batch_laws S" and sound: "cache_sound blake S mem vc"
    and wf: "body_elements_ok (secp_K S) b" and valid: "body_validate ct blake S L b w vc = (Inr (), vc')"
  shows "cache_sound blake S mem vc'"
    "k \<in> set (b_kernels b) \<Longrightarrow> kernel_hash_ok blake S (hash_tx_kernel blake k)"
    "t \<in> set (b_token_kernels b) \<Longrightarrow> kernel_hash_ok blake S (hash_token_tx_kernel blake t)"
    "x \<in> set (b_outputs b) \<Longrightarrow> proof_hash_ok blake S (hash_range_proof blake (o_proof x))"
    "y \<in> set (b_token_outputs b) \<Longrightarrow> proof_hash_ok blake S (hash_range_proof blake (to_proof y))"
proof -
  obtain outs c1 touts c2 ks c3 tks c4 where steps:
    "lru_filter L (\<lambda>x. hash_range_proof blake (o_proof x)) (rangeproof_verification_cache vc) (b_outputs b) = (outs, c1)"
    "(if outs \<noteq> [] then batch_verify_proofs S (map o_commit outs) (map o_proof outs) else Inr ()) = Inr ()"
    "lru_filter L (\<lambda>x. hash_range_proof blake (to_proof x)) c1 (b_token_outputs b) = (touts, c2)"
    "(if touts \<noteq> [] then batch_verify_proofs S (map to_commit touts) (map to_proof touts) else Inr ()) = Inr ()"
    "lru_filter L (hash_tx_kernel blake) (kernel_sig_verification_cache vc) (b_kernels b) = (ks, c3)"
    "batch_sig_verify blake S ks = Inr ()"
    "lru_filter L (hash_token_tx_kernel blake) c3 (b_token_kernels b) = (tks, c4)"
    "token_batch_sig_verify blake S tks = Inr ()"
    and cache: "kernel_sig_verification_cache vc' = foldl (\<lambda>c k. lru_insert L c (hash_token_tx_kernel blake k))
       (foldl (\<lambda>c k. lru_insert L c (hash_tx_kernel blake k)) c4 ks) tks"
    "rangeproof_verification_cache vc' = foldl (\<lambda>c x. lru_insert L c (hash_range_proof blake (to_proof x)))
       (foldl (\<lambda>c x. lru_insert L c (hash_range_proof blake (o_proof x))) c2 outs) touts"
    using valid by (rule body_validate_steps)
  note filtered = lru_filter_spec(1) [OF laws(1) steps(5)] lru_filter_spec(1) [OF laws(1) steps(7)]
  have new: "\<forall>x \<in> set outs. proof_hash_ok blake S (hash_range_proof blake (o_proof x))"
    "\<forall>x \<in> set touts. proof_hash_ok blake S (hash_range_proof blake (to_proof x))"
    "\<forall>k \<in> set ks. kernel_hash_ok blake S (hash_tx_kernel blake k)"
    "\<forall>k \<in> set tks. kernel_hash_ok blake S (hash_token_tx_kernel blake k)"
    using batch_verify_proofs_each [OF laws(2) steps(2)] batch_verify_proofs_each [OF laws(2) steps(4)]
      batch_sig_verify_each [OF laws(2) steps(6)] token_batch_sig_verify_each [OF laws(2) steps(8)] wf filtered
    by (auto simp: proof_hash_ok_def body_elements_ok_def list_all_iff intro!: kernel_hash_okI)
  have inv: "\<forall>h. mem (rangeproof_verification_cache vc) h \<longrightarrow> proof_hash_ok blake S h"
    "\<forall>h. mem (kernel_sig_verification_cache vc) h \<longrightarrow> kernel_hash_ok blake S h"
    using sound by (auto simp: cache_sound_def)
  note p1 = cached_check [OF laws(1) inv(1) steps(1) new(1)]
  note p2 = cached_check [OF laws(1) p1(1) steps(3) new(2)]
  note k1 = cached_check [OF laws(1) inv(2) steps(5) new(3)]
  note k2 = cached_check [OF laws(1) k1(1) steps(7) new(4)]
  show "k \<in> set (b_kernels b) \<Longrightarrow> kernel_hash_ok blake S (hash_tx_kernel blake k)"
    "t \<in> set (b_token_kernels b) \<Longrightarrow> kernel_hash_ok blake S (hash_token_tx_kernel blake t)"
    "x \<in> set (b_outputs b) \<Longrightarrow> proof_hash_ok blake S (hash_range_proof blake (o_proof x))"
    "y \<in> set (b_token_outputs b) \<Longrightarrow> proof_hash_ok blake S (hash_range_proof blake (to_proof y))"
    using k1(2) k2(2) p1(2) p2(2) by simp_all
  show "cache_sound blake S mem vc'"
    unfolding cache_sound_def cache
    using inserts_keep [OF laws(1) inserts_keep [OF laws(1) k2(1) new(3)] new(4)]
      inserts_keep [OF laws(1) inserts_keep [OF laws(1) p2(1) new(1)] new(2)] by (rule conjI)
qed


lemma example_laws: "lru_laws example_lru (\<lambda>c h. h \<in> set c)" "batch_laws example_secp" "body_elements_ok example_sizes (tx_body example_paying_tx)"
proof -
  show "lru_laws example_lru (\<lambda>c h. h \<in> set c)" by (simp add: lru_laws_def example_lru_def)
  have "proof_bytes p = c" if "map proof_bytes ps = cs" "(c, p) \<in> set (zip cs ps)" for cs c and p :: range_proof and ps
    using that by (auto simp: in_set_zip)
  then show "batch_laws example_secp"
    by (auto simp: batch_laws_def example_secp_def split: if_splits)
  show "body_elements_ok example_sizes (tx_body example_paying_tx)"
    by (simp add: body_elements_ok_def example_paying_tx_def body_empty_def example_input_def example_output_def tx_ok_defs
        example_sizes_def fixed_ok_def range_proof_ok_def)
qed


text \<open>
  Claim C35. The cache of range proofs is keyed by the proof alone. An output whose proof does not verify for its
  commitment is refused with a fresh cache; once an output with the same proof has been validated it is accepted.
\<close>

definition example_forged :: transaction_body where
  "example_forged = body_empty\<lparr>b_outputs := [(example_output 5)\<lparr>o_commit := [200]\<rparr>]\<rparr>"


section \<open>Token kernels and weights\<close>

text \<open>
  Claim C36. A body that spends a token and whose kernels for it are all height-locked never passes the token sums:
  only plain token kernels are summed.
\<close>

theorem height_locked_token_unusable:
  assumes "\<And>k. k \<in> set (b_token_kernels b) \<Longrightarrow> tk_token_type k = t \<Longrightarrow> is_height_locked_token k"
    "t \<in> ti_token_type ` set (b_token_inputs b)"
  shows "\<exists>e. verify_token_kernel_sum S (body_committed b) = Inl e"
proof -
  have "filter (\<lambda>k. is_plain_token k \<and> tk_token_type k = t) (b_token_kernels b) = []"
    using assms(1) by (fastforce simp: filter_empty_conv is_plain_token_def is_height_locked_token_def
        split: token_kernel_features.splits)
  then have none: "map_of (body_token_kernels_committed b) t = None" by (simp add: body_token_maps)
  have "map_of (body_token_inputs_committed b) t \<noteq> None"
    using assms(2) by (auto simp: body_token_maps Let_def filter_empty_conv)
  then obtain cs where "map_of (body_token_inputs_committed b) t = Some cs" by blast
  with none have "\<not> token_sums_balance S (body_committed b)"
    unfolding token_sums_balance_def token_sums_ok_def body_committed_def
    by (metis committed.select_convs(4,6) option.distinct(1))
  then show ?thesis
    using verify_token_kernel_sum_iff [OF token_keys_distinct_body [of b], of S]
    by (cases "verify_token_kernel_sum S (body_committed b)") auto
qed

definition example_locked_body :: transaction_body where
  "example_locked_body = body_empty\<lparr>
     b_token_inputs := [\<lparr>ti_features = Token, ti_token_type = [1], ti_commit = [5]\<rparr>],
     b_token_outputs := [\<lparr>to_features = Token, to_token_type = [1], to_commit = [3], to_proof = \<lparr>plen = 1, proof_bytes = [3]\<rparr>\<rparr>],
     b_token_kernels := [\<lparr>tk_features = HeightLockedToken 7, tk_token_type = [1], tk_excess = [2], tk_excess_sig = [0]\<rparr>]\<rparr>"

lemma height_locked_token_unusable_witness:
  "\<exists>e. verify_token_kernel_sum example_secp (body_committed example_locked_body) = Inl e"
  by (rule height_locked_token_unusable [of _ "[1]"])
    (auto simp: example_locked_body_def body_empty_def is_height_locked_token_def)

text \<open>
  Claim C37. The weight of a body as (part of) a block is the exact weighted count of its elements whenever the two
  halves are together below \<open>2 ^ 64\<close>; beyond that the saturated halves are added with wrap-around, and a body can
  weigh nothing.
\<close>

theorem weight_as_block_bounds:
  "(block_weight (unat i) (unat out) (unat k) + block_weight (unat ti) (unat to) (unat tk) < 2 ^ 64 \<longrightarrow>
      unat (weight_as_block i out k ti to tk)
        = block_weight (unat i) (unat out) (unat k) + block_weight (unat ti) (unat to) (unat tk))
   \<and> weight_as_block (- 1) 0 0 1 0 0 = 0"
proof -
  have "unat (weight_as_block (- 1) 0 0 1 0 0) = 0"
    unfolding unat_weight_as_block by (simp add: block_weight_def unsigned_minus_1_eq_mask mask_eq_exp_minus_1)
  then have "weight_as_block (- 1) 0 0 1 0 0 = 0" by (simp only: unat_eq_zero)
  then show ?thesis unfolding unat_weight_as_block by simp
qed

lemma weight_as_block_bounds_witness: "unat (weight_as_block 2 1 1 0 0 0) = 26"
  using weight_as_block_bounds [of 2 1 1 0 0 0] by (simp add: block_weight_def)

end
