(* ===== verification/Pow_Types.thy ===== *)
theory Pow_Types
  imports Tx_Types
begin

unbundle bit_operations_syntax

text \<open>
  Difficulty, proofs of work and their packed encoding (\<open>core/src/pow/types.rs\<close>), with the conversions between
  hashes and numbers (\<open>core/src/core/hash.rs\<close>, \<open>core/src/pow/common.rs\<close>).
\<close>

section \<open>Hashes as numbers\<close>

text \<open>\<open>Hash::from_vec\<close> completes with zeros and truncates to 32 bytes.\<close>

definition hash_from_vec :: "bytes \<Rightarrow> hash" where
  "hash_from_vec v = (let copy_size = min (length v) hash_LEN in take copy_size v @ replicate (hash_LEN - copy_size) 0)"

definition hash_to_u64 :: "hash \<Rightarrow> u64" where
  "hash_to_u64 h = of_nat (be_val (take 8 h))"

definition hash_to_biguint :: "hash \<Rightarrow> nat" where
  "hash_to_biguint h = le_val h"

definition biguint_to_hash :: "nat \<Rightarrow> hash" where
  "biguint_to_hash bignum = hash_from_vec (to_bytes_le bignum)"

text \<open>\<open>dhash\<close>: SHA-256 twice over what the hash writer is given; \<open>sha\<close> stands for SHA-256.\<close>

definition dhash :: "(bytes \<Rightarrow> hash) \<Rightarrow> bytes \<Rightarrow> hash" where
  "dhash sha x = sha (sha x)"

definition dhash_with :: "(bytes \<Rightarrow> hash) \<Rightarrow> hash \<Rightarrow> bytes \<Rightarrow> hash" where
  "dhash_with sha h other = dhash sha (write_hash h @ other)"

definition SECOND_POW_EDGE_BITS :: u8 where "SECOND_POW_EDGE_BITS = 29"

section \<open>Difficulty\<close>

definition difficulty_zero :: difficulty where "difficulty_zero = 0"

definition difficulty_min :: difficulty where "difficulty_min = MIN_DIFFICULTY"

definition difficulty_unit :: difficulty where "difficulty_unit = ucast initial_graph_weight"

definition difficulty_add :: "difficulty \<Rightarrow> difficulty \<Rightarrow> difficulty" where "difficulty_add a b = a + b"

definition difficulty_sub :: "difficulty \<Rightarrow> difficulty \<Rightarrow> difficulty" where "difficulty_sub a b = a - b"

definition difficulty_mul :: "difficulty \<Rightarrow> difficulty \<Rightarrow> difficulty" where "difficulty_mul a b = a * b"

text \<open>Division by zero panics.\<close>

definition difficulty_div :: "difficulty \<Rightarrow> difficulty \<Rightarrow> difficulty option" where
  "difficulty_div a b = (if b = 0 then None else Some (a div b))"

definition write_difficulty :: "difficulty \<Rightarrow> bytes" where "write_difficulty d = write_u64 d"

definition read_difficulty :: "reader \<Rightarrow> difficulty parse" where "read_difficulty r = read_u64 r"

section \<open>Bit vectors\<close>

definition bytes_len :: "nat \<Rightarrow> nat" where
  "bytes_len bits_len = (bits_len + 7) div 8"

definition bitvec_new :: "nat \<Rightarrow> bytes" where
  "bitvec_new bits_len = replicate (bytes_len bits_len) 0"

definition set_bit_at :: "bytes \<Rightarrow> nat \<Rightarrow> bytes" where
  "set_bit_at bits pos = bits[pos div 8 := bits ! (pos div 8) OR push_bit (pos mod 8) 1]"

definition bit_at :: "bytes \<Rightarrow> nat \<Rightarrow> bool" where
  "bit_at bits pos \<longleftrightarrow> bits ! (pos div 8) AND push_bit (pos mod 8) 1 \<noteq> 0"

section \<open>Proofs\<close>

record cycle_proof =
  edge_bits :: u8
  nonces :: "u64 list"

definition proof_new :: "u64 list \<Rightarrow> cycle_proof" where
  "proof_new in_nonces = \<lparr>edge_bits = min_edge_bits, nonces = sort in_nonces\<rparr>"

definition proof_zero :: "nat \<Rightarrow> cycle_proof" where
  "proof_zero proof_size = \<lparr>edge_bits = min_edge_bits, nonces = replicate proof_size 0\<rparr>"

text \<open>
  The loops of \<open>write\<close> and \<open>read\<close> over the bits of a nonce and over the nonces. A proof has at most
  \<open>proofsize\<close> nonces: those read, zeroed or found by a solver have exactly that many.
\<close>

definition write_nonce :: "nat \<Rightarrow> bytes \<Rightarrow> nat \<times> u64 \<Rightarrow> bytes" where
  "write_nonce nonce_bits bitvec = (\<lambda>(n, nonce).
    foldl (\<lambda>v b. if nonce AND push_bit b 1 \<noteq> 0 then set_bit_at v (n * nonce_bits + b) else v) bitvec [0..<nonce_bits])"

definition proof_bits :: "cycle_proof \<Rightarrow> bytes" where
  "proof_bits p = (let nonce_bits = unat (edge_bits p)
     in foldl (write_nonce nonce_bits) (bitvec_new (nonce_bits * proofsize)) (enumerate 0 (nonces p)))"

definition write_proof :: "serialization_mode \<Rightarrow> cycle_proof \<Rightarrow> bytes" where
  "write_proof mode p = (if mode \<noteq> HashMode then write_u8 (edge_bits p) else []) @ proof_bits p"

definition read_nonce :: "bytes \<Rightarrow> nat \<Rightarrow> nat \<Rightarrow> u64" where
  "read_nonce bitvec nonce_bits n =
    foldl (\<lambda>nonce b. if bit_at bitvec (n * nonce_bits + b) then nonce OR push_bit b 1 else nonce) 0 [0..<nonce_bits]"

definition read_proof :: "reader \<Rightarrow> cycle_proof parse" where
  "read_proof r =
    rbind (read_u8 r) (\<lambda>(edge_bits, r).
      if edge_bits = 0 \<or> edge_bits > 63 then Inl CorruptedData
      else let nonce_bits = unat edge_bits;
               bits_len = nonce_bits * proofsize;
               bytes_len = bytes_len bits_len
           in rbind (read_fixed_bytes r bytes_len) (\<lambda>(bits, r).
                let nonces = map (read_nonce bits nonce_bits) [0..<proofsize]
                in if list_ex (bit_at bits) [bits_len..<bytes_len * 8] then Inl CorruptedData
                   else Inr (\<lparr>edge_bits = edge_bits, nonces = nonces\<rparr>, r)))"

definition hash_proof :: "(bytes \<Rightarrow> hash) \<Rightarrow> cycle_proof \<Rightarrow> hash" where
  "hash_proof blake p = blake (write_proof HashMode p)"

text \<open>The computation is made on 128 bits, where it does not overflow.\<close>

definition scaled_difficulty :: "(bytes \<Rightarrow> hash) \<Rightarrow> cycle_proof \<Rightarrow> u64 \<Rightarrow> u64" where
  "scaled_difficulty blake p scale =
    (let diff = (unat scale * 2 ^ 64) div max 1 (unat (hash_to_u64 (hash_proof blake p)))
     in of_nat (min diff (2 ^ 64 - 1)))"

definition from_proof_adjusted :: "(bytes \<Rightarrow> hash) \<Rightarrow> u64 \<Rightarrow> cycle_proof \<Rightarrow> difficulty" where
  "from_proof_adjusted blake height p = difficulty_from_num (scaled_difficulty blake p (graph_weight height (edge_bits p)))"

definition from_proof_scaled :: "(bytes \<Rightarrow> hash) \<Rightarrow> cycle_proof \<Rightarrow> u32 \<Rightarrow> difficulty" where
  "from_proof_scaled blake p scaling = difficulty_from_num (scaled_difficulty blake p (ucast scaling))"

section \<open>Proof of work\<close>

record proof_of_work =
  total_difficulty :: difficulty
  secondary_scaling :: u32
  pow_nonce :: u64
  pow_proof :: cycle_proof

definition proof_of_work_default :: proof_of_work where
  "proof_of_work_default = \<lparr>total_difficulty = difficulty_min, secondary_scaling = 1, pow_nonce = 0, pow_proof = proof_zero proofsize\<rparr>"

definition pow_write_pre_pow :: "proof_of_work \<Rightarrow> bytes" where
  "pow_write_pre_pow p = write_u64 (total_difficulty p) @ write_u32 (secondary_scaling p)"

definition write_proof_of_work :: "serialization_mode \<Rightarrow> proof_of_work \<Rightarrow> bytes" where
  "write_proof_of_work mode p =
    (if mode \<noteq> HashMode then pow_write_pre_pow p @ write_u64 (pow_nonce p) else []) @ write_proof mode (pow_proof p)"

definition read_proof_of_work :: "reader \<Rightarrow> proof_of_work parse" where
  "read_proof_of_work r =
    rbind (read_difficulty r) (\<lambda>(d, r).
    rbind (read_u32 r) (\<lambda>(s, r).
    rbind (read_u64 r) (\<lambda>(n, r).
    rbind (read_proof r) (\<lambda>(p, r).
      Inr (\<lparr>total_difficulty = d, secondary_scaling = s, pow_nonce = n, pow_proof = p\<rparr>, r)))))"

definition pow_to_difficulty :: "(bytes \<Rightarrow> hash) \<Rightarrow> proof_of_work \<Rightarrow> u64 \<Rightarrow> difficulty" where
  "pow_to_difficulty blake p height =
    (if edge_bits (pow_proof p) = SECOND_POW_EDGE_BITS then from_proof_scaled blake (pow_proof p) (secondary_scaling p)
     else from_proof_adjusted blake height (pow_proof p))"

definition is_primary :: "proof_of_work \<Rightarrow> bool" where
  "is_primary p \<longleftrightarrow> edge_bits (pow_proof p) \<noteq> SECOND_POW_EDGE_BITS \<and> edge_bits (pow_proof p) \<ge> min_edge_bits"

definition is_secondary :: "proof_of_work \<Rightarrow> bool" where
  "is_secondary p \<longleftrightarrow> edge_bits (pow_proof p) = SECOND_POW_EDGE_BITS"

section \<open>Bits of vectors and nonces\<close>

lemma and_bit_eq_0: "x AND 2 ^ n = 0 \<longleftrightarrow> \<not> bit x n" for x :: "'a::len word"
  by (rule and_exp_eq_0_iff_not_bit)

lemma bit_at_iff: "bit_at v q \<longleftrightarrow> bit (v ! (q div 8)) (q mod 8)"
  by (simp add: bit_at_def and_bit_eq_0)

lemma length_set_bit_at [simp]: "length (set_bit_at v p) = length v"
  by (simp add: set_bit_at_def)

lemma bit_at_set_bit_at:
  assumes "p div 8 < length v"
  shows "bit_at (set_bit_at v p) q \<longleftrightarrow> bit_at v q \<or> p = q"
proof (cases "p div 8 = q div 8")
  case True
  have "bit (push_bit (p mod 8) 1 :: u8) (q mod 8) \<longleftrightarrow> p mod 8 = q mod 8"
    by (auto simp: bit_exp_iff)
  moreover have "p = q \<longleftrightarrow> p mod 8 = q mod 8" using True by (metis div_mult_mod_eq)
  ultimately show ?thesis using assms True by (auto simp: bit_at_iff set_bit_at_def bit_or_iff)
next
  case False
  then show ?thesis by (auto simp: bit_at_iff set_bit_at_def)
qed

lemma bytes_eq_by_bits:
  assumes "length v = length w" "\<And>q. q < 8 * length v \<Longrightarrow> bit_at v q = bit_at w q"
  shows "v = w"
proof (rule nth_equalityI [OF assms(1)])
  fix i
  assume i: "i < length v"
  show "v ! i = w ! i"
  proof (rule bit_word_eqI)
    fix n
    assume "n < LENGTH(8)"
    then show "bit (v ! i) n = bit (w ! i) n"
      using assms(2) [of "8 * i + n"] i by (simp add: bit_at_iff)
  qed
qed

lemma length_write_nonce [simp]: "length (write_nonce nb v x) = length v"
proof -
  have "length (foldl (\<lambda>v b. if P b then set_bit_at v (f b) else v) v bs) = length v" for P f bs
    by (induction bs arbitrary: v) simp_all
  then show ?thesis by (cases x) (simp add: write_nonce_def)
qed

lemma bit_at_write_nonce:
  assumes "n * nb + nb \<le> 8 * length v"
  shows "bit_at (write_nonce nb v (n, nonce)) q \<longleftrightarrow> bit_at v q \<or> (\<exists>b < nb. q = n * nb + b \<and> bit nonce b)"
proof -
  have "bit_at (foldl (\<lambda>v b. if nonce AND push_bit b 1 \<noteq> 0 then set_bit_at v (n * nb + b) else v) v bs) q
      \<longleftrightarrow> bit_at v q \<or> (\<exists>b \<in> set bs. q = n * nb + b \<and> bit nonce b)"
    if "set bs \<subseteq> {..<nb}" "n * nb + nb \<le> 8 * length v" for bs
    using that
  proof (induction bs arbitrary: v)
    case (Cons b bs)
    have "(n * nb + b) div 8 < length v" using Cons.prems by (auto simp: div_less_iff_less_mult)
    then show ?case using Cons by (auto simp: and_bit_eq_0 bit_at_set_bit_at)
  qed simp
  from this [of "[0..<nb]", OF _ assms] show ?thesis by (simp add: write_nonce_def lessThan_atLeast0) (metis atLeast0LessThan lessThan_iff)
qed

lemma bit_read_nonce: "bit (read_nonce v nb n) k \<longleftrightarrow> k < nb \<and> k < 64 \<and> bit_at v (n * nb + k)"
proof -
  have "bit (foldl (\<lambda>nonce b. if bit_at v (n * nb + b) then nonce OR push_bit b 1 else nonce) x bs) k
      \<longleftrightarrow> bit x k \<or> (k \<in> set bs \<and> k < 64 \<and> bit_at v (n * nb + k))" for x :: u64 and bs
    by (induction bs arbitrary: x) (auto simp: bit_or_iff bit_exp_iff)
  then show ?thesis by (simp add: read_nonce_def)
qed

lemma bit_at_write_nonces:
  assumes "(k + length ns) * nb \<le> 8 * length v"
  shows "bit_at (foldl (write_nonce nb) v (enumerate k ns)) q
    \<longleftrightarrow> bit_at v q \<or> (\<exists>i < length ns. \<exists>b < nb. q = (k + i) * nb + b \<and> bit (ns ! i) b)"
  using assms
proof (induction ns arbitrary: k v)
  case (Cons x ns)
  have "k * nb + nb \<le> (k + length (x # ns)) * nb" by (simp add: algebra_simps)
  also note Cons.prems
  finally have one: "k * nb + nb \<le> 8 * length v" .
  have "bit_at (foldl (write_nonce nb) v (enumerate k (x # ns))) q
    \<longleftrightarrow> bit_at (write_nonce nb v (k, x)) q \<or> (\<exists>i < length ns. \<exists>b < nb. q = (Suc k + i) * nb + b \<and> bit (ns ! i) b)"
    using Cons.IH [of "Suc k" "write_nonce nb v (k, x)"] Cons.prems by simp
  then show ?case
    unfolding bit_at_write_nonce [OF one] by (auto simp: less_Suc_eq_0_disj)
qed simp

lemma length_write_nonces [simp]: "length (foldl (write_nonce nb) v xs) = length v"
  by (induction xs arbitrary: v) simp_all

lemma bit_at_zero: "q < 8 * n \<Longrightarrow> \<not> bit_at (replicate n 0) q"
  by (simp add: bit_at_iff div_less_iff_less_mult mult.commute)

lemma bits_fit: "n \<le> 8 * bytes_len n"
  by (simp add: bytes_len_def)

lemma bit_at_proof_bits:
  assumes "length (nonces p) \<le> proofsize" "q < 8 * bytes_len (unat (edge_bits p) * proofsize)"
  shows "bit_at (proof_bits p) q \<longleftrightarrow>
    (\<exists>i < length (nonces p). \<exists>b < unat (edge_bits p). q = i * unat (edge_bits p) + b \<and> bit (nonces p ! i) b)"
proof -
  have "length (nonces p) * unat (edge_bits p) \<le> 8 * bytes_len (unat (edge_bits p) * proofsize)"
    using order_trans [OF mult_le_mono1 [OF assms(1), of "unat (edge_bits p)"]] bits_fit [of "unat (edge_bits p) * proofsize"]
    by (simp only: mult.commute)
  then show ?thesis
    using assms(2) bit_at_write_nonces [of 0 "nonces p" "unat (edge_bits p)" "bitvec_new (unat (edge_bits p) * proofsize)" q]
    by (simp add: proof_bits_def bitvec_new_def Let_def bit_at_zero)
qed

lemma length_proof_bits [simp]: "length (proof_bits p) = bytes_len (unat (edge_bits p) * proofsize)"
  by (simp add: proof_bits_def Let_def bitvec_new_def)

section \<open>The encoding of proofs\<close>

definition proof_ok :: "cycle_proof \<Rightarrow> bool" where
  "proof_ok p \<longleftrightarrow> 0 < edge_bits p \<and> edge_bits p \<le> 63 \<and> length (nonces p) = proofsize
    \<and> list_all (\<lambda>x. unat x < 2 ^ unat (edge_bits p)) (nonces p)"

lemma same_nonce:
  fixes i j b c nb :: nat
  assumes "i * nb + b = j * nb + c" "b < nb" "c < nb"
  shows "i = j \<and> b = c"
proof -
  have "(i * nb + b) div nb = i" "(j * nb + c) div nb = j" using assms(2,3) by simp_all
  then have "i = j" unfolding assms(1) by (rule trans [OF sym])
  then show ?thesis using assms(1) by simp
qed

lemma nonce_small_iff: "unat x < 2 ^ n \<longleftrightarrow> (\<forall>b \<ge> n. \<not> bit x b)" for x :: u64
proof -
  have low: "(\<forall>b. (b < n \<and> P b) = P b) \<longleftrightarrow> (\<forall>b \<ge> n. \<not> P b)" for P :: "nat \<Rightarrow> bool" by (metis not_le)
  have "unat x < 2 ^ n \<longleftrightarrow> take_bit n (unat x) = unat x" by (rule take_bit_nat_eq_self_iff [symmetric])
  also have "\<dots> \<longleftrightarrow> (\<forall>b. (b < n \<and> bit (unat x) b) = bit (unat x) b)"
    by (simp only: bit_eq_iff bit_take_bit_iff possible_bit_nat simp_thms)
  also have "\<dots> \<longleftrightarrow> (\<forall>b \<ge> n. \<not> bit x b)" by (simp only: low bit_unsigned_iff possible_bit_nat simp_thms)
  finally show ?thesis .
qed

lemma read_nonces_proof_bits:
  assumes "proof_ok p"
  shows "map (read_nonce (proof_bits p) (unat (edge_bits p))) [0..<proofsize] = nonces p"
proof (rule nth_equalityI)
  fix n
  assume "n < length (map (read_nonce (proof_bits p) (unat (edge_bits p))) [0..<proofsize])"
  then have n: "n < proofsize" "length (nonces p) = proofsize" using assms by (simp_all add: proof_ok_def)
  let ?nb = "unat (edge_bits p)"
  have "bit (read_nonce (proof_bits p) ?nb n) k \<longleftrightarrow> bit (nonces p ! n) k" if "k < 64" for k
  proof (cases "k < ?nb")
    case True
    then have "Suc n * ?nb \<le> ?nb * proofsize" using n(1) mult_le_mono1 [of "Suc n" proofsize ?nb] by (simp add: mult.commute)
    then have "n * ?nb + k < 8 * bytes_len (?nb * proofsize)"
      using True bits_fit [of "?nb * proofsize"] by simp
    then have "bit_at (proof_bits p) (n * ?nb + k) \<longleftrightarrow> bit (nonces p ! n) k"
      using bit_at_proof_bits [of p "n * ?nb + k"] n same_nonce [of n ?nb k] True by auto
    then show ?thesis using True that by (simp add: bit_read_nonce)
  next
    case False
    moreover have "unat (nonces p ! n) < 2 ^ ?nb" using assms n by (simp add: proof_ok_def list_all_length)
    ultimately show ?thesis by (simp add: bit_read_nonce nonce_small_iff)
  qed
  then show "map (read_nonce (proof_bits p) ?nb) [0..<proofsize] ! n = nonces p ! n"
    using n by (auto intro: bit_word_eqI)
qed (use assms in \<open>simp add: proof_ok_def\<close>)

lemma padding_zero:
  assumes "proof_ok p"
  shows "\<not> list_ex (bit_at (proof_bits p)) [unat (edge_bits p) * proofsize..<bytes_len (unat (edge_bits p) * proofsize) * 8]"
proof -
  let ?nb = "unat (edge_bits p)"
  have "\<not> bit_at (proof_bits p) q" if "?nb * proofsize \<le> q" "q < bytes_len (?nb * proofsize) * 8" for q
  proof -
    have "i * ?nb + b < ?nb * proofsize" if "i < proofsize" "b < ?nb" for i b
      using mult_le_mono1 [of "Suc i" proofsize ?nb] that by (simp add: mult.commute)
    then show ?thesis
      using that bit_at_proof_bits [of p q] assms by (fastforce simp: proof_ok_def mult.commute)
  qed
  then show ?thesis by (auto simp: list_ex_iff)
qed

lemma proof_bits_read:
  assumes "length v = bytes_len (unat eb * proofsize)" "\<not> list_ex (bit_at v) [unat eb * proofsize..<bytes_len (unat eb * proofsize) * 8]"
    "eb \<le> 63"
  shows "proof_bits \<lparr>edge_bits = eb, nonces = map (read_nonce v (unat eb)) [0..<proofsize]\<rparr> = v" (is "proof_bits ?p = v")
proof (rule bytes_eq_by_bits)
  fix q
  assume "q < 8 * length (proof_bits ?p)"
  then have q: "q < 8 * bytes_len (unat eb * proofsize)" by simp
  have eb: "unat eb < 64" using assms(3) by (simp add: word_le_nat_alt)
  have "bit_at (proof_bits ?p) q \<longleftrightarrow> (\<exists>i < proofsize. \<exists>b < unat eb. q = i * unat eb + b \<and> bit_at v q)"
    using bit_at_proof_bits [of ?p q] q eb by (auto simp: bit_read_nonce)
  also have "\<dots> \<longleftrightarrow> bit_at v q"
  proof
    assume v: "bit_at v q"
    then have "q < unat eb * proofsize"
      using assms(2) q by (fastforce simp: list_ex_iff mult.commute not_less)
    then have "0 < unat eb" "q < proofsize * unat eb" by (auto simp: mult.commute intro: gr0I)
    then have "q div unat eb < proofsize" "q mod unat eb < unat eb" "q = q div unat eb * unat eb + q mod unat eb"
      by (simp_all add: div_less_iff_less_mult)
    then show "\<exists>i < proofsize. \<exists>b < unat eb. q = i * unat eb + b \<and> bit_at v q" using v by blast
  qed blast
  finally show "bit_at (proof_bits ?p) q = bit_at v q" .
qed (use assms(1) in simp)

lemma read_nonces_small: "unat (read_nonce v nb n) < 2 ^ nb"
  unfolding nonce_small_iff by (simp add: bit_read_nonce)

lemma bytes_len_small: "eb \<le> 63 \<Longrightarrow> bytes_len (unat eb * proofsize) \<le> 100000" for eb :: u8
  by (simp add: bytes_len_def proofsize_def word_le_nat_alt)

lemma read_proof_iff:
  "read_proof r = Inr (p, r') \<longleftrightarrow> proof_ok p
    \<and> (\<exists>rest. rd_source r = write_proof FullMode p @ rest \<and> r' = adv r (length (write_proof FullMode p)) rest)"
  (is "?l \<longleftrightarrow> ?r")
proof
  assume ?l
  then obtain eb r1 v where r1: "read_u8 r = Inr (eb, r1)" "0 < eb" "eb \<le> 63"
      and v: "read_fixed_bytes r1 (bytes_len (unat eb * proofsize)) = Inr (v, r')"
      "\<not> list_ex (bit_at v) [unat eb * proofsize..<bytes_len (unat eb * proofsize) * 8]"
      and p: "p = \<lparr>edge_bits = eb, nonces = map (read_nonce v (unat eb)) [0..<proofsize]\<rparr>"
    by (auto simp: read_proof_def rbind_eq_Inr Let_def word_gt_0 not_less split: if_splits)
  note fixed = read_fixed_bytes_iff [OF bytes_len_small [OF r1(3)]]
  have "length v = bytes_len (unat eb * proofsize)" using v(1) by (simp add: fixed)
  then have bits: "proof_bits p = v" using proof_bits_read v(2) r1(3) p by blast
  have "proof_ok p" using r1 p by (auto simp: proof_ok_def list_all_iff read_nonces_small)
  moreover have "\<exists>rest. rd_source r = write_u8 eb @ v @ rest \<and> r' = adv r (1 + length v) rest"
    using r1(1) v(1) by (auto simp: u8cc.rd_iff fixed)
  ultimately show ?r using p bits by (simp add: write_proof_def)
next
  assume ?r
  then obtain rest where ok: "proof_ok p" "rd_source r = write_u8 (edge_bits p) @ proof_bits p @ rest"
      "r' = adv r (1 + length (proof_bits p)) rest" by (auto simp: write_proof_def)
  let ?bl = "bytes_len (unat (edge_bits p) * proofsize)"
  have small: "?bl \<le> 100000" using ok(1) bytes_len_small by (simp add: proof_ok_def)
  have r1: "read_u8 r = Inr (edge_bits p, adv r 1 (proof_bits p @ rest))"
    using ok(2) by (auto simp: u8cc.rd_iff)
  have "read_fixed_bytes (adv r 1 (proof_bits p @ rest)) ?bl = Inr (proof_bits p, adv r (1 + ?bl) rest)"
    by (auto simp: read_fixed_bytes_iff [OF small])
  then show ?l
    using r1 ok(1,3) padding_zero [OF ok(1)] read_nonces_proof_bits [OF ok(1)]
    by (simp add: read_proof_def Let_def proof_ok_def word_gt_0 not_less)
qed

interpretation proofc: canonical_codec "\<lambda>_. write_proof FullMode" read_proof "\<lambda>_. proof_ok"
  by unfold_locales (auto simp: read_proof_iff)

lemma read_u32_iff: "read_u32 r = Inr (w, r') \<longleftrightarrow> (\<exists>rest. rd_source r = write_u32 w @ rest \<and> r' = adv r 4 rest)"
  unfolding read_u32_def write_u32_def by (rule read_be_iff) simp

definition proof_of_work_ok :: "proof_of_work \<Rightarrow> bool" where
  "proof_of_work_ok p \<longleftrightarrow> proof_ok (pow_proof p)"

lemma read_proof_of_work_iff:
  "read_proof_of_work r = Inr (p, r') \<longleftrightarrow> proof_of_work_ok p
    \<and> (\<exists>rest. rd_source r = write_proof_of_work FullMode p @ rest \<and> r' = adv r (length (write_proof_of_work FullMode p)) rest)"
  (is "?l \<longleftrightarrow> ?r")
proof
  assume ?l
  then show ?r
    by (auto simp: read_proof_of_work_def read_difficulty_def rbind_eq_Inr read_u64_iff read_u32_iff read_proof_iff
        proof_of_work_ok_def write_proof_of_work_def pow_write_pre_pow_def add.assoc)
next
  assume ?r
  then obtain rest where ok: "proof_ok (pow_proof p)"
      "rd_source r = write_u64 (total_difficulty p) @ write_u32 (secondary_scaling p) @ write_u64 (pow_nonce p)
         @ write_proof FullMode (pow_proof p) @ rest"
      "r' = adv r (20 + length (write_proof FullMode (pow_proof p))) rest"
    by (auto simp: proof_of_work_ok_def write_proof_of_work_def pow_write_pre_pow_def)
  then have "read_u64 r = Inr (total_difficulty p, adv r 8 (write_u32 (secondary_scaling p) @ write_u64 (pow_nonce p)
         @ write_proof FullMode (pow_proof p) @ rest))" by (simp add: read_u64_iff)
  moreover have "read_proof (adv r 20 (write_proof FullMode (pow_proof p) @ rest)) = Inr (pow_proof p, r')"
    using ok(1,3) by (auto simp: read_proof_iff)
  ultimately show ?l by (simp add: read_proof_of_work_def read_difficulty_def add.assoc)
qed

interpretation proof_of_workc: canonical_codec "\<lambda>_. write_proof_of_work FullMode" read_proof_of_work "\<lambda>_. proof_of_work_ok"
  by unfold_locales (auto simp: read_proof_of_work_iff)

section \<open>Hashes and numbers\<close>

lemma le_val_append: "le_val (a @ b) = le_val a + 256 ^ length a * le_val b"
  by (induction a) (simp_all add: algebra_simps)

lemma le_val_zeros: "le_val (replicate n 0) = 0"
  by (induction n) simp_all

lemma biguint_of_hash: "n < 256 ^ 32 \<Longrightarrow> hash_to_biguint (biguint_to_hash n) = n"
  using length_to_bytes_le [of n 31]
  by (simp add: hash_to_biguint_def biguint_to_hash_def hash_from_vec_def hash_LEN_def Let_def le_val_append le_val_zeros
      le_val_to_bytes_le)

text \<open>
  Claim C38. A proof of work has one encoding: \<open>read\<close> accepts exactly the bytes \<open>write\<close> produces for a proof whose
  graph has between \<open>2\<close> and \<open>2 ^ 63\<close> edges and whose nonces fit their bits, and returns that proof. The bits of the
  last byte beyond the last nonce cannot be changed.
\<close>

theorem proof_encoding_canonical:
  "read_proof r = Inr (p, r') \<longleftrightarrow> proof_ok p
    \<and> (\<exists>rest. rd_source r = write_proof FullMode p @ rest \<and> r' = adv r (length (write_proof FullMode p)) rest)"
  by (rule read_proof_iff)

text \<open>
  The difficulty of a proof is its scale times \<open>2 ^ 64\<close> over the first 64 bits of its hash, at least one and
  at most the largest number.
\<close>

lemma unat_scaled_difficulty:
  "unat (difficulty_from_num (scaled_difficulty blake p scale))
     = max 1 (min ((unat scale * 2 ^ 64) div max 1 (unat (hash_to_u64 (hash_proof blake p)))) (2 ^ 64 - 1))"
proof -
  have "unat (max x 1) = max 1 (unat x)" for x :: u64
    by (simp add: max_def word_le_nat_alt)
  then show ?thesis
    unfolding difficulty_from_num_def scaled_difficulty_def Let_def by (simp add: unat_of_nat)
qed

lemma difficulty_from_num_pos: "0 < difficulty_from_num x"
  by (auto simp: difficulty_from_num_def word_gt_0 max_def)

lemma pow_to_difficulty_pos: "0 < pow_to_difficulty blake p height"
  by (simp add: pow_to_difficulty_def from_proof_scaled_def from_proof_adjusted_def difficulty_from_num_pos)

end
