(* ===== verification/Cuckoo.thy ===== *)
theory Cuckoo
  imports Pow_Types
begin

unbundle bit_operations_syntax

text \<open>
  Siphash (\<open>core/src/pow/siphash.rs\<close>), the parameters of the cuckoo family (\<open>core/src/pow/common.rs\<close>) and the
  verifiers of Cuckatoo and Cuckaroo cycles (\<open>cuckatoo.rs\<close>, \<open>cuckaroo.rs\<close>) for edges of 64 bits, as
  \<open>verify_size\<close> (\<open>core/src/pow.rs\<close>) uses them. A panic, or a loop that does not end, is \<open>None\<close>.
\<close>

section \<open>Siphash\<close>

type_synonym siphash_state = "u64 \<times> u64 \<times> u64 \<times> u64"

text \<open>The shifts wrap their count at the width of the word, as in a release build.\<close>

definition rotl :: "u64 \<Rightarrow> u8 \<Rightarrow> u64" where
  "rotl num shift = push_bit (unat shift mod 64) num OR drop_bit (unat (64 - shift) mod 64) num"

definition siphash_round :: "u8 \<Rightarrow> siphash_state \<Rightarrow> siphash_state" where
  "siphash_round rot_e = (\<lambda>(v0, v1, v2, v3).
    let v0 = v0 + v1; v2 = v2 + v3; v1 = rotl v1 13; v3 = rotl v3 16; v1 = v1 XOR v0; v3 = v3 XOR v2; v0 = rotl v0 32;
        v2 = v2 + v1; v0 = v0 + v3; v1 = rotl v1 17; v3 = rotl v3 rot_e; v1 = v1 XOR v2; v3 = v3 XOR v0; v2 = rotl v2 32
    in (v0, v1, v2, v3))"

definition siphash_hash :: "u64 \<Rightarrow> u8 \<Rightarrow> siphash_state \<Rightarrow> siphash_state" where
  "siphash_hash nonce rot_e = (\<lambda>(v0, v1, v2, v3).
    let (v0, v1, v2, v3) = siphash_round rot_e (siphash_round rot_e (v0, v1, v2, v3 XOR nonce))
    in (siphash_round rot_e ^^ 4) (v0 XOR nonce, v1, v2 XOR 0xff, v3))"

definition siphash_digest :: "siphash_state \<Rightarrow> u64" where
  "siphash_digest = (\<lambda>(v0, v1, v2, v3). (v0 XOR v1) XOR (v2 XOR v3))"

definition siphash24 :: "siphash_state \<Rightarrow> u64 \<Rightarrow> u64" where
  "siphash24 v nonce = siphash_digest (siphash_hash nonce 21 v)"

definition SIPHASH_BLOCK_SIZE :: u64 where "SIPHASH_BLOCK_SIZE = 64"

definition SIPHASH_BLOCK_MASK :: u64 where "SIPHASH_BLOCK_MASK = SIPHASH_BLOCK_SIZE - 1"

text \<open>The digests of a block: the state goes on from one nonce to the next.\<close>

fun siphash_digests :: "u8 \<Rightarrow> siphash_state \<Rightarrow> u64 list \<Rightarrow> u64 list" where
  "siphash_digests rot_e v [] = []"
| "siphash_digests rot_e v (n # ns) =
    (let v = siphash_hash n rot_e v in siphash_digest v # siphash_digests rot_e v ns)"

definition siphash_block :: "siphash_state \<Rightarrow> u64 \<Rightarrow> u8 \<Rightarrow> bool \<Rightarrow> u64" where
  "siphash_block v nonce rot_e xor_all =
    (let nonce0 = nonce AND NOT SIPHASH_BLOCK_MASK;
         nonce_i = unat (nonce AND SIPHASH_BLOCK_MASK);
         nonce_hash = siphash_digests rot_e v (map (\<lambda>i. nonce0 + of_nat i) [0..<unat SIPHASH_BLOCK_SIZE]);
         xor_from = (if xor_all \<or> nonce_i = unat SIPHASH_BLOCK_MASK then nonce_i + 1 else unat SIPHASH_BLOCK_MASK)
     in foldl (\<lambda>x i. x XOR nonce_hash ! i) (nonce_hash ! nonce_i) [xor_from..<unat SIPHASH_BLOCK_SIZE])"

section \<open>Parameters\<close>

datatype pow_error = Verification string | IntegerCast | PowIOError | EdgeAddition | Path | InvalidCycle nat | NoCycle | NoSolution

record cuckoo_params =
  cp_edge_bits :: u8
  cp_proof_size :: nat
  num_edges :: u64
  siphash_keys :: siphash_state
  edge_mask :: u64

definition cuckoo_params_new :: "u8 \<Rightarrow> nat \<Rightarrow> pow_error + cuckoo_params" where
  "cuckoo_params_new eb proof_size =
    (let num_edges = push_bit (unat eb mod 64) 1
     in Inr \<lparr>cp_edge_bits = eb, cp_proof_size = proof_size, num_edges = num_edges, siphash_keys = (0, 0, 0, 0),
          edge_mask = num_edges - 1\<rparr>)"

text \<open>The four little-endian words of the digest of the header.\<close>

definition create_siphash_keys :: "(bytes \<Rightarrow> hash) \<Rightarrow> bytes \<Rightarrow> siphash_state" where
  "create_siphash_keys blake header =
    (let hb = blake header; word_at = (\<lambda>i. of_nat (le_val (take 8 (drop (8 * i) hb))))
     in (word_at 0, word_at 1, word_at 2, word_at 3))"

definition set_header_nonce :: "(bytes \<Rightarrow> hash) \<Rightarrow> bytes \<Rightarrow> u32 option \<Rightarrow> siphash_state" where
  "set_header_nonce blake header nonce = (case nonce of
       Some n \<Rightarrow> create_siphash_keys blake
         ((if length header < 4 then header else take (length header - 4) header) @ write_u32_le n)
     | None \<Rightarrow> create_siphash_keys blake header)"

definition reset_header_nonce :: "(bytes \<Rightarrow> hash) \<Rightarrow> cuckoo_params \<Rightarrow> bytes \<Rightarrow> u32 option \<Rightarrow> cuckoo_params" where
  "reset_header_nonce blake ps header nonce = ps\<lparr>siphash_keys := set_header_nonce blake header nonce\<rparr>"

definition sipnode :: "cuckoo_params \<Rightarrow> u64 \<Rightarrow> u64 \<Rightarrow> bool \<Rightarrow> u64" where
  "sipnode ps edge uorv shift =
    (let hash_u64 = siphash24 (siphash_keys ps) (2 * edge + uorv);
         masked = hash_u64 AND edge_mask ps
     in if shift then push_bit 1 masked OR uorv else masked)"

section \<open>Following a cycle\<close>

text \<open>The other end of the edge of an endpoint.\<close>

definition flip :: "nat \<Rightarrow> nat" where "flip j = j XOR 1"

definition index :: "'a list \<Rightarrow> nat \<Rightarrow> 'a option" where
  "index xs k = (if k < length xs then Some (xs ! k) else None)"

text \<open>
  The inner loop of both verifiers: another endpoint on the side of \<open>i\<close> with the same node, or \<open>i\<close> itself. The
  remainder by zero and an index beyond the vector panic.
\<close>

partial_function (option) find_other ::
  "(u64 \<Rightarrow> u64 \<Rightarrow> bool) \<Rightarrow> u64 list \<Rightarrow> nat \<Rightarrow> nat \<Rightarrow> nat \<Rightarrow> nat \<Rightarrow> (pow_error + nat) option" where
  "find_other same uvs len i k j =
    (if len = 0 then None
     else let k = (k + 2) mod len
          in if k = i then Some (Inr j)
             else Option.bind (index uvs k) (\<lambda>a. Option.bind (index uvs i) (\<lambda>b.
               if same a b
               then if j \<noteq> i then Some (Inl (Verification ''branch in cycle''))
                    else find_other same uvs len i k k
               else find_other same uvs len i k j)))"

text \<open>The outer loop, which counts the edges until the walk is back at the first endpoint.\<close>

partial_function (option) follow_cycle ::
  "(nat \<Rightarrow> (pow_error + nat) option) \<Rightarrow> nat \<Rightarrow> nat \<Rightarrow> (pow_error + nat) option" where
  "follow_cycle other i n =
    Option.bind (other i) (\<lambda>res. case res of
       Inl e \<Rightarrow> Some (Inl e)
     | Inr j \<Rightarrow> (let i = flip j; n = n + 1 in if i = 0 then Some (Inr n) else follow_cycle other i n))"

text \<open>
  The first loop: the nonces are in range and ascending, and their endpoints are collected with the exclusive or of
  each side.
\<close>

fun collect_edges :: "u64 \<Rightarrow> (u64 \<Rightarrow> u64 \<times> u64) \<Rightarrow> u64 option \<Rightarrow> u64 list \<Rightarrow> pow_error + u64 list" where
  "collect_edges mx ends prev [] = Inr []"
| "collect_edges mx ends prev (x # xs) =
    (if x > mx then Inl (Verification ''edge too big'')
     else if (case prev of None \<Rightarrow> False | Some p \<Rightarrow> x \<le> p) then Inl (Verification ''edges not ascending'')
     else rbind (collect_edges mx ends (Some x) xs) (\<lambda>uvs. Inr (fst (ends x) # snd (ends x) # uvs)))"

fun xor_sides :: "u64 \<times> u64 \<Rightarrow> u64 list \<Rightarrow> u64 \<times> u64" where
  "xor_sides (xor0, xor1) (u # v # uvs) = xor_sides (xor0 XOR u, xor1 XOR v) uvs"
| "xor_sides x _ = x"

definition cycle_result :: "nat \<Rightarrow> (pow_error + nat) option \<Rightarrow> (pow_error + unit) option" where
  "cycle_result proof_size res = map_option (\<lambda>r. rbind r (\<lambda>n.
     if n = proof_size then Inr () else Inl (Verification ''cycle too short''))) res"

section \<open>Cuckatoo\<close>

definition cuckatoo_ends :: "cuckoo_params \<Rightarrow> u64 \<Rightarrow> u64 \<times> u64" where
  "cuckatoo_ends ps nonce = (sipnode ps nonce 0 False, sipnode ps nonce 1 False)"

definition cuckatoo_other :: "u64 list \<Rightarrow> nat \<Rightarrow> nat \<Rightarrow> (pow_error + nat) option" where
  "cuckatoo_other uvs len i =
    Option.bind (find_other (\<lambda>a b. drop_bit 1 a = drop_bit 1 b) uvs len i i i) (\<lambda>res. case res of
       Inl e \<Rightarrow> Some (Inl e)
     | Inr j \<Rightarrow> Option.bind (index uvs j) (\<lambda>a. Option.bind (index uvs i) (\<lambda>b.
         if j = i \<or> a = b then Some (Inl (Verification ''cycle dead ends'')) else Some (Inr j))))"

definition cuckatoo_verify :: "cuckoo_params \<Rightarrow> cycle_proof \<Rightarrow> (pow_error + unit) option" where
  "cuckatoo_verify ps p =
    (let x = of_nat (cp_proof_size ps) div 2 AND 1
     in case collect_edges (edge_mask ps) (cuckatoo_ends ps) None (nonces p) of
          Inl e \<Rightarrow> Some (Inl e)
        | Inr uvs \<Rightarrow>
            let (xor0, xor1) = xor_sides (x, x) uvs
            in if xor0 OR xor1 \<noteq> 0 then Some (Inl (Verification ''endpoints don't match up''))
               else cycle_result (cp_proof_size ps) (follow_cycle (cuckatoo_other uvs (2 * cp_proof_size ps)) 0 0))"

text \<open>\<open>CuckatooContext::new_impl\<close>: the parameters, unless the graph would be too large.\<close>

definition cuckatoo_new :: "u8 \<Rightarrow> nat \<Rightarrow> pow_error + cuckoo_params" where
  "cuckatoo_new eb proof_size =
    rbind (cuckoo_params_new eb proof_size) (\<lambda>ps.
      if num_edges ps \<ge> (- 1) div 2 then Inl (Verification ''graph is to big to build'') else Inr ps)"

section \<open>Cuckaroo\<close>

definition cuckaroo_ends :: "cuckoo_params \<Rightarrow> u64 \<Rightarrow> u64 \<times> u64" where
  "cuckaroo_ends ps nonce =
    (let edge = siphash_block (siphash_keys ps) nonce 21 False
     in (edge AND edge_mask ps, drop_bit 32 edge AND edge_mask ps))"

definition cuckaroo_other :: "u64 list \<Rightarrow> nat \<Rightarrow> nat \<Rightarrow> (pow_error + nat) option" where
  "cuckaroo_other uvs len i =
    Option.bind (find_other (=) uvs len i i i) (\<lambda>res. case res of
       Inl e \<Rightarrow> Some (Inl e)
     | Inr j \<Rightarrow> if j = i then Some (Inl (Verification ''cycle dead ends'')) else Some (Inr j))"

definition cuckaroo_verify :: "cuckoo_params \<Rightarrow> cycle_proof \<Rightarrow> (pow_error + unit) option" where
  "cuckaroo_verify ps p =
    (case collect_edges (edge_mask ps) (cuckaroo_ends ps) None (nonces p) of
       Inl e \<Rightarrow> Some (Inl e)
     | Inr uvs \<Rightarrow>
         let (xor0, xor1) = xor_sides (0, 0) uvs
         in if xor0 OR xor1 \<noteq> 0 then Some (Inl (Verification ''endpoints don't match up''))
            else cycle_result (cp_proof_size ps) (follow_cycle (cuckaroo_other uvs (2 * cp_proof_size ps)) 0 0))"

section \<open>The inner loop\<close>

text \<open>What the inner loop computes, on the list of the positions it visits.\<close>

fun scan_others :: "(u64 \<Rightarrow> u64 \<Rightarrow> bool) \<Rightarrow> u64 list \<Rightarrow> nat \<Rightarrow> nat \<Rightarrow> nat list \<Rightarrow> pow_error + nat" where
  "scan_others same uvs i j [] = Inr j"
| "scan_others same uvs i j (k # ks) =
    (if same (uvs ! k) (uvs ! i)
     then if j \<noteq> i then Inl (Verification ''branch in cycle'') else scan_others same uvs i k ks
     else scan_others same uvs i j ks)"

lemma next_position: "(i + 2 * t) mod (2 * ps) = i \<longleftrightarrow> ps dvd t" if "i < 2 * ps" for i t ps :: nat
proof -
  have "(i + 2 * t) mod (2 * ps) = i mod (2 * ps) \<longleftrightarrow> 2 * ps dvd (i + 2 * t) - i"
    by (rule mod_eq_dvd_iff_nat) simp
  then show ?thesis using that by simp
qed

lemma find_other_scan:
  assumes "i < 2 * ps" "length uvs = 2 * ps" "t < ps" "k = (i + 2 * t) mod (2 * ps)"
  shows "find_other same uvs (2 * ps) i k j
    = Some (scan_others same uvs i j (map (\<lambda>s. (i + 2 * s) mod (2 * ps)) [Suc t..<ps]))"
  using assms(3,4)
proof (induction "ps - t" arbitrary: t k j)
  case (Suc d)
  have k: "(k + 2) mod (2 * ps) = (i + 2 * Suc t) mod (2 * ps)"
    unfolding Suc.prems(2) using mod_add_left_eq [of "i + 2 * t" "2 * ps" 2] by simp
  show ?case
  proof (cases "Suc t = ps")
    case True
    then show ?thesis using k assms(1) next_position [of i ps "Suc t"] by (subst find_other.simps) simp
  next
    case False
    then have t: "Suc t < ps" using Suc.prems(1) by simp
    then have "\<not> ps dvd Suc t" by (simp add: nat_dvd_not_less)
    then have "(i + 2 * Suc t) mod (2 * ps) \<noteq> i" using next_position [OF assms(1)] by blast
    moreover have "index uvs ((i + 2 * Suc t) mod (2 * ps)) = Some (uvs ! ((i + 2 * Suc t) mod (2 * ps)))"
      "index uvs i = Some (uvs ! i)" using assms(1,2) by (simp_all add: index_def)
    moreover have "d = ps - Suc t" using Suc.hyps(2) by simp
    note IH = Suc.hyps(1) [OF this t refl]
    ultimately show ?thesis
      using assms(1) upt_conv_Cons [OF t]
      by (subst find_other.simps) (simp only: k IH Let_def, simp)
  qed
qed simp

text \<open>The endpoints other than \<open>i\<close> on its side that share its node.\<close>

definition others :: "(u64 \<Rightarrow> u64 \<Rightarrow> bool) \<Rightarrow> u64 list \<Rightarrow> nat \<Rightarrow> nat set" where
  "others same uvs i = {k. k < length uvs \<and> k \<noteq> i \<and> even k = even i \<and> same (uvs ! k) (uvs ! i)}"

lemma positions_visited:
  fixes i ps :: nat
  assumes "i < 2 * ps"
  shows "(\<lambda>s. (i + 2 * s) mod (2 * ps)) ` {1..<ps} = {k. k < 2 * ps \<and> k \<noteq> i \<and> even k = even i}"
proof (intro set_eqI iffI)
  fix k
  assume "k \<in> (\<lambda>s. (i + 2 * s) mod (2 * ps)) ` {1..<ps}"
  then obtain s where s: "1 \<le> s" "s < ps" "k = (i + 2 * s) mod (2 * ps)" by auto
  then have "k \<noteq> i" using next_position [OF assms] nat_dvd_not_less [of s ps] by auto
  moreover have "even k = even i" unfolding s(3) by (simp add: dvd_mod_iff)
  ultimately show "k \<in> {k. k < 2 * ps \<and> k \<noteq> i \<and> even k = even i}" using s assms by simp
next
  fix k
  assume "k \<in> {k. k < 2 * ps \<and> k \<noteq> i \<and> even k = even i}"
  then have k: "k < 2 * ps" "k \<noteq> i" "even k = even i" by auto
  show "k \<in> (\<lambda>s. (i + 2 * s) mod (2 * ps)) ` {1..<ps}"
  proof (cases "i < k")
    case True
    have "even (k - i)" using k(3) by simp
    then obtain s where "k - i = 2 * s" by (rule evenE)
    then have "k = i + 2 * s" using True by simp
    then show ?thesis using True k assms by (intro image_eqI [of _ _ s]) auto
  next
    case False
    have "even (i - k)" using k(3) by simp
    then obtain s where "i - k = 2 * s" by (rule evenE)
    then have "i = k + 2 * s" using False by simp
    then have "i + 2 * (ps - s) = k + 2 * ps" "0 < s" "s < ps" using k assms by auto
    then have "(i + 2 * (ps - s)) mod (2 * ps) = k" "ps - s \<in> {1..<ps}" using k(1) by auto
    then show ?thesis by (metis imageI)
  qed
qed

lemma scan_others_eq:
  assumes "i \<notin> set ks" "distinct ks"
  shows "j = i \<Longrightarrow> scan_others same uvs i j ks =
      (case filter (\<lambda>k. same (uvs ! k) (uvs ! i)) ks of [] \<Rightarrow> Inr i | [k] \<Rightarrow> Inr k
       | _ \<Rightarrow> Inl (Verification ''branch in cycle''))"
    and "j \<noteq> i \<Longrightarrow> scan_others same uvs i j ks =
      (if filter (\<lambda>k. same (uvs ! k) (uvs ! i)) ks = [] then Inr j else Inl (Verification ''branch in cycle''))"
proof -
  have any: "scan_others same uvs i j ks =
      (if filter (\<lambda>k. same (uvs ! k) (uvs ! i)) ks = [] then Inr j else Inl (Verification ''branch in cycle''))"
    if "j \<noteq> i" for j ks
    using that by (induction ks) auto
  then show "j \<noteq> i \<Longrightarrow> scan_others same uvs i j ks =
      (if filter (\<lambda>k. same (uvs ! k) (uvs ! i)) ks = [] then Inr j else Inl (Verification ''branch in cycle''))" .
  show "j = i \<Longrightarrow> scan_others same uvs i j ks =
      (case filter (\<lambda>k. same (uvs ! k) (uvs ! i)) ks of [] \<Rightarrow> Inr i | [k] \<Rightarrow> Inr k
       | _ \<Rightarrow> Inl (Verification ''branch in cycle''))"
    using assms(1) by (induction ks) (auto simp: any split: list.splits)
qed

lemma find_other_eq:
  assumes "i < length uvs" "length uvs = 2 * ps"
  shows "find_other same uvs (2 * ps) i i i = Some (Inr i) \<longleftrightarrow> others same uvs i = {}"
    and "j \<noteq> i \<Longrightarrow> find_other same uvs (2 * ps) i i i = Some (Inr j) \<longleftrightarrow> others same uvs i = {j}"
    and "\<exists>r. find_other same uvs (2 * ps) i i i = Some r"
proof -
  define ks where "ks = map (\<lambda>s. (i + 2 * s) mod (2 * ps)) [1..<ps]"
  define fs where "fs = filter (\<lambda>k. same (uvs ! k) (uvs ! i)) ks"
  have i: "i < 2 * ps" using assms by simp
  have set_ks: "set ks = {k. k < 2 * ps \<and> k \<noteq> i \<and> even k = even i}"
    using positions_visited [OF i] by (simp add: ks_def)
  have fs: "set fs = others same uvs i"
    using assms(2) by (auto simp: fs_def others_def set_ks)
  have inj: "inj_on (\<lambda>s. (i + 2 * s) mod (2 * ps)) {1..<ps}"
  proof (rule linorder_inj_onI)
    fix s t assume st: "s < t" "s \<in> {1..<ps}" "t \<in> {1..<ps}"
    show "(i + 2 * s) mod (2 * ps) \<noteq> (i + 2 * t) mod (2 * ps)"
    proof
      assume "(i + 2 * s) mod (2 * ps) = (i + 2 * t) mod (2 * ps)"
      then have "2 * ps dvd (i + 2 * t) - (i + 2 * s)" using st by (subst mod_eq_dvd_iff_nat [symmetric]) auto
      then have "ps dvd t - s" using st by (simp flip: diff_mult_distrib2)
      then show False using st dvd_imp_le [of ps "t - s"] by auto
    qed
  qed auto
  then have "distinct fs" by (simp add: fs_def ks_def distinct_map)
  have "find_other same uvs (2 * ps) i i i = Some (scan_others same uvs i i ks)"
    using find_other_scan [OF i assms(2), of 0 i same i] i by (simp add: ks_def)
  moreover have "scan_others same uvs i i ks = (case fs of [] \<Rightarrow> Inr i | [k] \<Rightarrow> Inr k
       | _ \<Rightarrow> Inl (Verification ''branch in cycle''))"
    using scan_others_eq(1) [of i ks i same uvs] set_ks \<open>inj_on _ _\<close> by (simp add: fs_def ks_def distinct_map)
  moreover have "i \<notin> set fs" by (simp add: fs others_def)
  ultimately show "find_other same uvs (2 * ps) i i i = Some (Inr i) \<longleftrightarrow> others same uvs i = {}"
    "j \<noteq> i \<Longrightarrow> find_other same uvs (2 * ps) i i i = Some (Inr j) \<longleftrightarrow> others same uvs i = {j}"
    "\<exists>r. find_other same uvs (2 * ps) i i i = Some r"
    using \<open>distinct fs\<close> unfolding fs [symmetric] by (auto split: list.splits)
qed

section \<open>The walk\<close>

text \<open>
  A walk along the endpoints of edges. Endpoints \<open>2 * e\<close> and \<open>2 * e + 1\<close> belong to edge \<open>e\<close>; \<open>mate\<close> gives
  for an endpoint the one it is joined to, if there is one, and being joined is mutual.
\<close>

lemma flip_cases: "flip j = (if even j then j + 1 else j - 1)"
  unfolding flip_def xor_one_eq by simp

lemma flip_flip [simp]: "flip (flip j) = j"
  by (simp add: flip_def xor.assoc)

lemma flip_neq [simp]: "flip j \<noteq> j" "j \<noteq> flip j"
  by (auto simp: flip_cases elim: oddE)

lemma flip_eq [simp]: "flip a = flip b \<longleftrightarrow> a = b"
  by (metis flip_flip)

lemma flip_div [simp]: "flip j div 2 = j div 2"
  by (auto simp: flip_cases elim: oddE)

lemma flip_less: "j < 2 * n \<Longrightarrow> flip j < 2 * n"
  by (auto simp: flip_cases elim!: evenE)

lemma same_edge: "a div 2 = b div 2 \<longleftrightarrow> a = b \<or> a = flip b"
proof
  assume "a div 2 = b div 2"
  then show "a = b \<or> a = flip b"
    by (cases "even a"; cases "even b") (auto simp: flip_cases elim!: evenE oddE)
qed auto

locale endpoint_walk =
  fixes edges :: nat and mate :: "nat \<Rightarrow> nat option"
  assumes mate_mutual: "i < 2 * edges \<Longrightarrow> mate i = Some j \<Longrightarrow> j < 2 * edges \<and> j \<noteq> i \<and> mate j = Some i"
begin

definition walk :: "nat list \<Rightarrow> bool" where
  "walk c \<longleftrightarrow> (\<forall>t < length c. c ! t < 2 * edges \<and> (c ! t = 0 \<longleftrightarrow> t = 0))
    \<and> (\<forall>t. Suc t < length c \<longrightarrow> mate (c ! t) = Some (flip (c ! Suc t)))"

lemma walk_mate: "walk c \<Longrightarrow> Suc t < length c \<Longrightarrow> mate (c ! t) = Some (flip (c ! Suc t)) \<and> mate (flip (c ! Suc t)) = Some (c ! t)"
  unfolding walk_def using mate_mutual Suc_lessD by blast

lemma walk_same: "walk c \<Longrightarrow> s < t \<Longrightarrow> t < length c \<Longrightarrow> c ! s \<noteq> c ! t"
proof (induction s arbitrary: t)
  case 0
  then show ?case unfolding walk_def by (metis less_not_refl order.strict_trans)
next
  case (Suc s)
  then obtain t' where t: "t = Suc t'" by (cases t) auto
  then have "mate (flip (c ! Suc s)) = Some (c ! s)" "mate (flip (c ! t)) = Some (c ! t')"
    using walk_mate [OF Suc.prems(1)] Suc.prems(2,3) by auto
  moreover have "c ! s \<noteq> c ! t'" using Suc t by simp
  ultimately show ?case by auto
qed

lemma walk_flip: "walk c \<Longrightarrow> s < t \<Longrightarrow> t < length c \<Longrightarrow> c ! s \<noteq> flip (c ! t)"
proof (induction "t - s" arbitrary: s t rule: less_induct)
  case less
  obtain t' where t: "t = Suc t'" using less.prems by (cases t) auto
  show ?case
  proof
    assume eq: "c ! s = flip (c ! t)"
    have "mate (flip (c ! t)) = Some (c ! t')" using walk_mate [OF less.prems(1), of t'] less.prems(3) t by simp
    moreover have "mate (c ! s) = Some (flip (c ! Suc s))" using walk_mate [OF less.prems(1), of s] less.prems(2,3) by simp
    ultimately have m: "mate (c ! s) = Some (c ! t')" "mate (c ! s) = Some (flip (c ! Suc s))" using eq by simp_all
    then have n: "c ! Suc s = flip (c ! t')" by (metis flip_flip option.inject)
    have "s \<noteq> t'"
    proof
      assume "s = t'"
      then show False using m(1) mate_mutual less.prems t unfolding walk_def by (metis order.strict_trans)
    qed
    moreover have "Suc s \<noteq> t'" using n by (metis flip_neq(1))
    ultimately have "Suc s < t'" using less.prems(2) t by simp
    moreover then have "t' - Suc s < t - s" using t by arith
    ultimately show False using less.hyps [of t' "Suc s"] less.prems t n by simp
  qed
qed

lemma walk_distinct_edges: "walk c \<Longrightarrow> distinct (map (\<lambda>p. p div 2) c)"
  unfolding distinct_conv_nth by (auto simp: same_edge) (metis flip_flip linorder_neqE_nat walk_flip walk_same)+

lemma walk_length: "walk c \<Longrightarrow> length c \<le> edges"
proof -
  assume c: "walk c"
  have "set (map (\<lambda>p. p div 2) c) \<subseteq> {..<edges}"
    using c by (auto simp: walk_def in_set_conv_nth div_less_iff_less_mult mult.commute)
  then have "card (set (map (\<lambda>p. p div 2) c)) \<le> edges" using card_mono [OF finite_lessThan] by fastforce
  then show ?thesis using distinct_card [OF walk_distinct_edges [OF c]] by simp
qed

end

text \<open>The outer loop on top of a function that looks for the mate of an endpoint and always returns.\<close>

locale cycle_walk = endpoint_walk +
  fixes other :: "nat \<Rightarrow> (pow_error + nat) option"
  assumes other_returns: "i < 2 * edges \<Longrightarrow> \<exists>r. other i = Some r"
    and other_mate: "i < 2 * edges \<Longrightarrow> mate i = Some j \<longleftrightarrow> other i = Some (Inr j)"
    and edges_pos: "0 < edges"
begin

definition closed_walk :: "nat list \<Rightarrow> bool" where
  "closed_walk c \<longleftrightarrow> walk c \<and> c \<noteq> [] \<and> mate (last c) = Some (flip 0)"

lemma walk_snoc: "walk c \<Longrightarrow> c \<noteq> [] \<Longrightarrow> mate (last c) = Some (flip i) \<Longrightarrow> i \<noteq> 0 \<Longrightarrow> walk (c @ [i])"
proof -
  assume c: "walk c" "c \<noteq> []" "mate (last c) = Some (flip i)" "i \<noteq> 0"
  have "last c < 2 * edges" using c(1,2) by (simp add: walk_def last_conv_nth)
  then have "flip (flip i) < 2 * edges" using mate_mutual c(3) flip_less by blast
  then show ?thesis using c by (auto simp: walk_def nth_append last_conv_nth less_Suc_eq) (metis One_nat_def diff_Suc_1)
qed

lemma closed_walk_extends:
  assumes "walk c" "c \<noteq> []" "closed_walk d" "take (length c) d = c"
  shows "d = c \<and> mate (last c) = Some (flip 0) \<or>
    (\<exists>i. i \<noteq> 0 \<and> mate (last c) = Some (flip i) \<and> take (length (c @ [i])) d = c @ [i])"
proof (cases "length d = length c")
  case True
  then show ?thesis using assms by (auto simp: closed_walk_def)
next
  case False
  have "length c \<le> length d" using assms(4) by (metis length_take min.cobounded1)
  then have len: "length c < length d" using False by simp
  obtain n where n: "length c = Suc n" using assms(2) by (cases c) auto
  have "d ! n = last c" using assms(2,4) n by (metis diff_Suc_1 last_conv_nth lessI nth_take)
  moreover have "mate (d ! n) = Some (flip (d ! length c))" "d ! length c \<noteq> 0"
    using assms(3) len n unfolding closed_walk_def walk_def by auto
  moreover have "take (length (c @ [d ! length c])) d = c @ [d ! length c]"
    using assms(4) len by (simp add: take_Suc_conv_app_nth)
  ultimately show ?thesis by auto
qed

lemma follow_cycle_from:
  assumes "walk c" "c \<noteq> []"
  shows "\<exists>r. follow_cycle other (last c) (length c - 1) = Some r
    \<and> (\<forall>m. r = Inr m \<longleftrightarrow> (\<exists>d. closed_walk d \<and> length d = m \<and> take (length c) d = c))"
  using assms
proof (induction "edges - length c" arbitrary: c rule: less_induct)
  case less
  note ext = closed_walk_extends [OF less.prems]
  have i: "last c < 2 * edges" using less.prems by (simp add: walk_def last_conv_nth)
  obtain res where res: "other (last c) = Some res" using other_returns [OF i] by blast
  show ?case
  proof (cases res)
    case (Inl e)
    then have "mate (last c) = None" using other_mate [OF i] res by (cases "mate (last c)") auto
    then show ?thesis using ext res Inl by (subst follow_cycle.simps) (auto simp: closed_walk_def)
  next
    case (Inr j)
    then have mate: "mate (last c) = Some j" using other_mate [OF i] res by blast
    show ?thesis
    proof (cases "flip j = 0")
      case True
      then have "j = flip 0" by (metis flip_flip)
      then have "closed_walk d \<and> take (length c) d = c \<longleftrightarrow> d = c" for d
        using ext [of d] mate less.prems by (auto simp: closed_walk_def)
      then have "(\<exists>d. closed_walk d \<and> length d = m \<and> take (length c) d = c) \<longleftrightarrow> m = length c" for m by metis
      then show ?thesis using res Inr True less.prems(2)
        by (subst follow_cycle.simps) (auto simp: Suc_leI neq_Nil_conv)
    next
      case False
      let ?c = "c @ [flip j]"
      have "walk ?c" using walk_snoc [OF less.prems, of "flip j"] mate False by simp
      moreover from this have "edges - length ?c < edges - length c" using walk_length [of ?c] by simp
      ultimately obtain r where r: "follow_cycle other (flip j) (length c) = Some r"
        "\<And>m. r = Inr m \<longleftrightarrow> (\<exists>d. closed_walk d \<and> length d = m \<and> take (length ?c) d = ?c)"
        using less.hyps [of ?c] by auto
      have "closed_walk d \<and> take (length c) d = c \<longleftrightarrow> closed_walk d \<and> take (length ?c) d = ?c" for d
      proof
        assume "closed_walk d \<and> take (length c) d = c"
        then show "closed_walk d \<and> take (length ?c) d = ?c"
          using ext [of d] mate False by (metis flip_flip option.inject)
      next
        assume d: "closed_walk d \<and> take (length ?c) d = ?c"
        then have "take (length c) (take (length ?c) d) = c" by simp
        then show "closed_walk d \<and> take (length c) d = c" using d by (simp add: min_def)
      qed
      then have "r = Inr m \<longleftrightarrow> (\<exists>d. closed_walk d \<and> length d = m \<and> take (length c) d = c)" for m
        using r(2) [of m] by metis
      moreover have "follow_cycle other (last c) (length c - 1) = Some r"
        using res Inr False r(1) less.prems(2) by (subst follow_cycle.simps) simp
      ultimately show ?thesis by blast
    qed
  qed
qed

theorem follow_cycle_spec:
  "\<exists>r. follow_cycle other 0 0 = Some r \<and> (\<forall>m. r = Inr m \<longleftrightarrow> (\<exists>d. closed_walk d \<and> length d = m))"
proof -
  have "walk [0]" using edges_pos by (simp add: walk_def)
  moreover have "take (length [0]) d = [0]" if "closed_walk d" for d
    using that by (cases d) (auto simp: closed_walk_def walk_def)
  ultimately show ?thesis using follow_cycle_from [of "[0]"] by simp metis
qed

end

section \<open>The two verifiers\<close>

definition endpoints :: "(u64 \<times> u64) list \<Rightarrow> u64 list" where
  "endpoints es = concat (map (\<lambda>(u, v). [u, v]) es)"

lemma length_endpoints [simp]: "length (endpoints es) = 2 * length es"
  by (induction es) (auto simp: endpoints_def)

text \<open>The endpoint an endpoint is joined to: the only other one with its node, from which it must differ.\<close>

definition joined :: "(u64 \<Rightarrow> u64 \<Rightarrow> bool) \<Rightarrow> (u64 \<Rightarrow> u64 \<Rightarrow> bool) \<Rightarrow> u64 list \<Rightarrow> nat \<Rightarrow> nat \<Rightarrow> bool" where
  "joined same differ uvs i j \<longleftrightarrow> others same uvs i = {j} \<and> differ (uvs ! j) (uvs ! i)"

definition mate_of :: "(u64 \<Rightarrow> u64 \<Rightarrow> bool) \<Rightarrow> (u64 \<Rightarrow> u64 \<Rightarrow> bool) \<Rightarrow> u64 list \<Rightarrow> nat \<Rightarrow> nat option" where
  "mate_of same differ uvs i = (if \<exists>j. joined same differ uvs i j then Some (the_elem (others same uvs i)) else None)"

lemma mate_of_Some: "mate_of same differ uvs i = Some j \<longleftrightarrow> joined same differ uvs i j"
proof -
  have "j' = j \<longleftrightarrow> joined same differ uvs i j" "the_elem (others same uvs i) = j'" if "joined same differ uvs i j'" for j'
    using that by (auto simp: joined_def)
  then show ?thesis unfolding mate_of_def by (cases "\<exists>j. joined same differ uvs i j") auto
qed

lemma joined_mutual:
  assumes "equivp same" "symp differ" "i < length uvs" "joined same differ uvs i j"
  shows "j < length uvs \<and> j \<noteq> i \<and> joined same differ uvs j i"
proof -
  have j: "others same uvs i = {j}" "differ (uvs ! j) (uvs ! i)" using assms(4) by (auto simp: joined_def)
  have sym: "same b a" if "same a b" for a b using equivp_symp [OF assms(1) that] .
  have trans: "same a c" if "same a b" "same b c" for a b c using equivp_transp [OF assms(1) that] .
  have ji: "j < length uvs" "j \<noteq> i" "even j = even i" "same (uvs ! j) (uvs ! i)" using j(1) unfolding others_def by auto
  have "k \<in> others same uvs j \<longleftrightarrow> k = i" for k
  proof
    assume "k \<in> others same uvs j"
    then have "k \<noteq> i \<Longrightarrow> k \<in> others same uvs i" using ji trans unfolding others_def by auto
    then show "k = i" using j(1) \<open>k \<in> others same uvs j\<close> unfolding others_def by auto
  next
    assume "k = i"
    then show "k \<in> others same uvs j" using ji sym assms(3) unfolding others_def by auto
  qed
  then have "others same uvs j = {i}" by blast
  then show ?thesis using ji j(2) assms(2) by (simp add: joined_def symp_def)
qed

abbreviation same_node :: "u64 \<Rightarrow> u64 \<Rightarrow> bool" where
  "same_node a b \<equiv> drop_bit 1 a = drop_bit 1 b"

lemma equivp_same_node: "equivp same_node" "equivp ((=) :: u64 \<Rightarrow> u64 \<Rightarrow> bool)"
  by (auto intro!: equivpI reflpI sympI transpI)

lemma symp_differ: "symp ((\<noteq>) :: u64 \<Rightarrow> u64 \<Rightarrow> bool)" "symp (\<lambda>(_ :: u64) (_ :: u64). True)"
  by (auto intro: sympI)

lemma cuckatoo_other_eq:
  assumes "i < length uvs" "length uvs = 2 * ps"
  shows "\<exists>r. cuckatoo_other uvs (2 * ps) i = Some r"
    "cuckatoo_other uvs (2 * ps) i = Some (Inr j) \<longleftrightarrow> joined same_node (\<noteq>) uvs i j"
proof -
  note eq = find_other_eq [OF assms, where same = same_node]
  obtain r where r: "find_other same_node uvs (2 * ps) i i i = Some r" using eq(3) by blast
  have idx: "k < length uvs" if "r = Inr k" for k
    using eq(1) eq(2) [where j = k] r that assms(1) unfolding others_def by (cases "k = i") auto
  show "\<exists>r. cuckatoo_other uvs (2 * ps) i = Some r"
    using r idx assms(1) by (cases r) (auto simp: cuckatoo_other_def index_def)
  show "cuckatoo_other uvs (2 * ps) i = Some (Inr j) \<longleftrightarrow> joined same_node (\<noteq>) uvs i j"
  proof (cases "j = i")
    case True
    then show ?thesis
      using r idx assms(1) by (cases r) (auto simp: cuckatoo_other_def index_def joined_def others_def)
  next
    case False
    then show ?thesis
      using r eq(2) [where j = j, OF False] idx assms(1) by (cases r) (auto simp: cuckatoo_other_def index_def joined_def)
  qed
qed

lemma cuckaroo_other_eq:
  assumes "i < length uvs" "length uvs = 2 * ps"
  shows "\<exists>r. cuckaroo_other uvs (2 * ps) i = Some r"
    "cuckaroo_other uvs (2 * ps) i = Some (Inr j) \<longleftrightarrow> joined (=) (\<lambda>_ _. True) uvs i j"
proof -
  note eq = find_other_eq [OF assms, where same = "(=)"]
  obtain r where r: "find_other (=) uvs (2 * ps) i i i = Some r" using eq(3) by blast
  show "\<exists>r. cuckaroo_other uvs (2 * ps) i = Some r"
    using r by (cases r) (auto simp: cuckaroo_other_def)
  show "cuckaroo_other uvs (2 * ps) i = Some (Inr j) \<longleftrightarrow> joined (=) (\<lambda>_ _. True) uvs i j"
  proof (cases "j = i")
    case True
    then have "\<not> joined (=) (\<lambda>_ _. True) uvs i j" by (auto simp: joined_def others_def)
    then show ?thesis using r True by (cases r) (simp_all add: cuckaroo_other_def)
  next
    case False
    then show ?thesis
      using r eq(2) [where j = j, OF False] by (cases r) (auto simp: cuckaroo_other_def joined_def)
  qed
qed

lemma cycle_walk_joined:
  assumes "equivp same" "symp differ" "0 < n"
    and other: "\<And>i. i < 2 * n \<Longrightarrow> \<exists>r. other i = Some r"
      "\<And>i j. i < 2 * n \<Longrightarrow> other i = Some (Inr j) \<longleftrightarrow> joined same differ uvs i j"
    and len: "length uvs = 2 * n"
  shows "cycle_walk n (mate_of same differ uvs) other"
proof
  fix i j
  assume "i < 2 * n" "mate_of same differ uvs i = Some j"
  then show "j < 2 * n \<and> j \<noteq> i \<and> mate_of same differ uvs j = Some i"
    using joined_mutual [OF assms(1,2), of i uvs j] unfolding mate_of_Some len by blast
next
  fix i j
  assume "i < 2 * n"
  then show "mate_of same differ uvs i = Some j \<longleftrightarrow> other i = Some (Inr j)"
    unfolding mate_of_Some using other(2) by blast
qed (use other(1) assms(3) in auto)

interpretation cuckatoo: cycle_walk "length (e # es)" "mate_of same_node (\<noteq>) (endpoints (e # es))"
  "cuckatoo_other (endpoints (e # es)) (2 * length (e # es))" for e es
  using cuckatoo_other_eq [OF _ length_endpoints [of "e # es"]]
  by (intro cycle_walk_joined equivp_same_node symp_differ length_endpoints) (simp_all only: length_endpoints length_Cons zero_less_Suc)

interpretation cuckaroo: cycle_walk "length (e # es)" "mate_of (=) (\<lambda>_ _. True) (endpoints (e # es))"
  "cuckaroo_other (endpoints (e # es)) (2 * length (e # es))" for e es
  using cuckaroo_other_eq [OF _ length_endpoints [of "e # es"]]
  by (intro cycle_walk_joined equivp_same_node symp_differ length_endpoints) (simp_all only: length_endpoints length_Cons zero_less_Suc)

section \<open>Correctness of the verifiers\<close>

text \<open>
  A cycle through all edges: a sequence of endpoints, one of each edge, in which each is joined to the other end of
  the edge of the next, and the last one to that of the first.
\<close>

definition edge_cycle :: "(u64 \<Rightarrow> u64 \<Rightarrow> bool) \<Rightarrow> (u64 \<Rightarrow> u64 \<Rightarrow> bool) \<Rightarrow> u64 list \<Rightarrow> nat list \<Rightarrow> bool" where
  "edge_cycle same differ uvs c \<longleftrightarrow> 2 * length c = length uvs \<and> hd c = 0 \<and> distinct (map (\<lambda>p. p div 2) c)
    \<and> (\<forall>t < length c. c ! t < length uvs \<and> joined same differ uvs (c ! t) (flip (c ! (Suc t mod length c))))"

context cycle_walk
begin

lemma closed_walk_iff:
  "closed_walk d \<and> length d = edges \<longleftrightarrow> length d = edges \<and> hd d = 0 \<and> distinct (map (\<lambda>p. p div 2) d)
    \<and> (\<forall>t < length d. d ! t < 2 * edges \<and> mate (d ! t) = Some (flip (d ! (Suc t mod length d))))"
  (is "?l \<longleftrightarrow> ?r")
proof
  assume ?l
  then have d: "walk d" "d \<noteq> []" "mate (last d) = Some (flip 0)" "length d = edges" by (auto simp: closed_walk_def)
  have z: "d ! 0 = 0" using d(1,2) by (simp add: walk_def)
  have "mate (d ! t) = Some (flip (d ! (Suc t mod length d)))" if "t < length d" for t
  proof (cases "Suc t = length d")
    case True
    then show ?thesis using d(2,3) z by (metis diff_Suc_1 last_conv_nth mod_self)
  next
    case False
    then show ?thesis using d(1) that by (simp add: walk_def)
  qed
  then show ?r using d z walk_distinct_edges by (auto simp: walk_def hd_conv_nth)
next
  assume r: ?r
  then have d: "d \<noteq> []" "d ! 0 = 0" "length d = edges" using edges_pos by (auto simp: hd_conv_nth)
  have mate: "mate (d ! t) = Some (flip (d ! (Suc t mod length d)))" if "t < length d" for t using r that by blast
  have "d ! t = 0 \<longleftrightarrow> t = 0" if "t < length d" for t
    using r d that by (auto simp: distinct_conv_nth) (metis (no_types, lifting) div_0 length_greater_0_conv nth_map)
  moreover have "mate (d ! t) = Some (flip (d ! Suc t))" if "Suc t < length d" for t
    using mate [of t] that by simp
  moreover have "mate (last d) = Some (flip 0)"
    using mate [of "length d - 1"] d(1,2) by (simp add: last_conv_nth)
  ultimately show ?l using r d by (simp add: closed_walk_def walk_def)
qed

lemma follow_cycle_full:
  "\<exists>r. follow_cycle other 0 0 = Some r \<and> (r = Inr edges \<longleftrightarrow> (\<exists>d. length d = edges \<and> hd d = 0
    \<and> distinct (map (\<lambda>p. p div 2) d)
    \<and> (\<forall>t < length d. d ! t < 2 * edges \<and> mate (d ! t) = Some (flip (d ! (Suc t mod length d))))))"
  using follow_cycle_spec closed_walk_iff by metis

end

lemma cycle_result_ok:
  "cycle_result n (Some r) = Some (if r = Inr n then Inr () else case r of Inl e \<Rightarrow> Inl e | Inr _ \<Rightarrow> Inl (Verification ''cycle too short''))"
  by (cases r) (auto simp: cycle_result_def)

lemma collect_edges_iff:
  "collect_edges m ends prev xs = Inr uvs \<longleftrightarrow>
    (\<forall>x \<in> set xs. x \<le> m) \<and> sorted_wrt (<) (case prev of None \<Rightarrow> xs | Some p \<Rightarrow> p # xs) \<and> uvs = endpoints (map ends xs)"
proof (induction xs arbitrary: prev uvs)
  case (Cons x xs)
  have "sorted_wrt (<) (x # xs) \<longleftrightarrow> sorted_wrt (<) xs \<and> (\<forall>y \<in> set xs. x < y)" by auto
  moreover have "sorted_wrt (<) (p # x # xs) \<longleftrightarrow> p < x \<and> sorted_wrt (<) (x # xs)" for p by auto
  ultimately show ?case using Cons.IH [of "Some x"]
    by (cases prev) (auto simp: rbind_eq_Inr endpoints_def not_less not_le split: prod.splits)
qed (auto simp: endpoints_def split: option.splits)

lemma edge_cycle_mate:
  "edge_cycle same differ (endpoints xs) c \<longleftrightarrow> length c = length xs \<and> hd c = 0 \<and> distinct (map (\<lambda>p. p div 2) c)
    \<and> (\<forall>t < length c. c ! t < 2 * length xs
        \<and> mate_of same differ (endpoints xs) (c ! t) = Some (flip (c ! (Suc t mod length c))))"
  by (simp add: edge_cycle_def mate_of_Some)

lemma verify_follows:
  assumes "cycle_walk (length (e # es)) (mate_of same differ (endpoints (e # es))) other"
  shows "\<exists>r. cycle_result (length (e # es)) (follow_cycle other 0 0) = Some r
    \<and> (r = Inr () \<longleftrightarrow> (\<exists>c. edge_cycle same differ (endpoints (e # es)) c))"
proof -
  obtain r where r: "follow_cycle other 0 0 = Some r"
    "r = Inr (length (e # es)) \<longleftrightarrow> (\<exists>c. edge_cycle same differ (endpoints (e # es)) c)"
    using cycle_walk.follow_cycle_full [OF assms] unfolding edge_cycle_mate by blast
  then show ?thesis by (auto simp: cycle_result_ok split: sum.splits)
qed

text \<open>What both verifiers share: the checks on the nonces, the exclusive or of the sides, and the walk.\<close>

lemma checked_walk:
  assumes axioms: "\<And>e es. cycle_walk (length (e # es)) (mate_of same differ (endpoints (e # es)))
      (other (endpoints (e # es)) (2 * length (e # es)))"
    and "ns \<noteq> []"
    and v: "v = (case collect_edges m ends None ns of Inl e \<Rightarrow> Some (Inl e)
       | Inr uvs \<Rightarrow> let (a, b) = xor_sides (x, x) uvs in if a OR b \<noteq> 0 then Some (Inl err)
           else cycle_result (length ns) (follow_cycle (other uvs (2 * length ns)) 0 0))"
  shows "\<exists>r. v = Some r
    \<and> (r = Inr () \<longleftrightarrow> (\<forall>n \<in> set ns. n \<le> m) \<and> sorted_wrt (<) ns
        \<and> xor_sides (x, x) (endpoints (map ends ns)) = (0, 0) \<and> (\<exists>c. edge_cycle same differ (endpoints (map ends ns)) c))"
proof (cases "collect_edges m ends None ns")
  case (Inl e)
  then have "\<not> ((\<forall>n \<in> set ns. n \<le> m) \<and> sorted_wrt (<) ns)"
    using collect_edges_iff [of m ends None ns "endpoints (map ends ns)"] by auto
  then show ?thesis using Inl v by auto
next
  case (Inr u)
  then have u: "(\<forall>n \<in> set ns. n \<le> m) \<and> sorted_wrt (<) ns" "u = endpoints (map ends ns)"
    using collect_edges_iff [of m ends None ns u] by simp_all
  obtain k ks where "ns = k # ks" using assms(2) by (cases ns) auto
  then have walk: "\<exists>r. cycle_result (length ns) (follow_cycle (other (endpoints (map ends ns)) (2 * length ns)) 0 0) = Some r
    \<and> (r = Inr () \<longleftrightarrow> (\<exists>c. edge_cycle same differ (endpoints (map ends ns)) c))"
    using verify_follows [OF axioms, of "ends k" "map ends ks"] by simp
  obtain a b where ab: "xor_sides (x, x) (endpoints (map ends ns)) = (a, b)" by fastforce
  have "v = (if a OR b \<noteq> 0 then Some (Inl err)
      else cycle_result (length ns) (follow_cycle (other (endpoints (map ends ns)) (2 * length ns)) 0 0))"
    using v Inr u(2) ab by simp
  then show ?thesis using u(1) walk ab by (auto simp: or_eq_0_iff)
qed

lemmas cuckatoo_verify_iff = checked_walk [where other = cuckatoo_other, OF cuckatoo.cycle_walk_axioms]

lemmas cuckaroo_verify_iff = checked_walk [where other = cuckaroo_other, OF cuckaroo.cycle_walk_axioms]

lemma cuckatoo_verify_eq:
  assumes "nonces p \<noteq> []" "cp_proof_size ps = length (nonces p)"
  shows "\<exists>r. cuckatoo_verify ps p = Some r
    \<and> (r = Inr () \<longleftrightarrow> (\<forall>n \<in> set (nonces p). n \<le> edge_mask ps) \<and> sorted_wrt (<) (nonces p)
        \<and> xor_sides (of_nat (length (nonces p)) div 2 AND 1, of_nat (length (nonces p)) div 2 AND 1)
            (endpoints (map (cuckatoo_ends ps) (nonces p))) = (0, 0)
        \<and> (\<exists>c. edge_cycle same_node (\<noteq>) (endpoints (map (cuckatoo_ends ps) (nonces p))) c))"
  by (rule cuckatoo_verify_iff [OF assms(1)]) (simp only: cuckatoo_verify_def assms(2) Let_def)

lemma cuckaroo_verify_eq:
  assumes "nonces p \<noteq> []" "cp_proof_size ps = length (nonces p)"
  shows "\<exists>r. cuckaroo_verify ps p = Some r
    \<and> (r = Inr () \<longleftrightarrow> (\<forall>n \<in> set (nonces p). n \<le> edge_mask ps) \<and> sorted_wrt (<) (nonces p)
        \<and> xor_sides (0, 0) (endpoints (map (cuckaroo_ends ps) (nonces p))) = (0, 0)
        \<and> (\<exists>c. edge_cycle (=) (\<lambda>_ _. True) (endpoints (map (cuckaroo_ends ps) (nonces p))) c))"
  by (rule cuckaroo_verify_iff [OF assms(1)]) (simp only: cuckaroo_verify_def assms(2))


text \<open>
  Claim C8. A Cuckatoo proof is accepted exactly when its nonces are ascending and within the graph, the endpoints of
  each side cancel under exclusive or, and the edges of the nonces form one cycle through all of them in which every
  node joins exactly two of the endpoints, with different low bits.
\<close>

theorem cuckatoo_verify_correct:
  assumes "nonces p \<noteq> []" "cp_proof_size ps = length (nonces p)"
  shows "cuckatoo_verify ps p = Some (Inr ()) \<longleftrightarrow>
    (\<forall>n \<in> set (nonces p). n \<le> edge_mask ps) \<and> sorted_wrt (<) (nonces p)
    \<and> xor_sides (of_nat (length (nonces p)) div 2 AND 1, of_nat (length (nonces p)) div 2 AND 1)
        (endpoints (map (cuckatoo_ends ps) (nonces p))) = (0, 0)
    \<and> (\<exists>c. edge_cycle same_node (\<noteq>) (endpoints (map (cuckatoo_ends ps) (nonces p))) c)"
  using cuckatoo_verify_eq [OF assms] by auto

definition example_params :: cuckoo_params where
  "example_params = \<lparr>cp_edge_bits = 9, cp_proof_size = 2, num_edges = 512, siphash_keys = (0, 0, 0, 0), edge_mask = 511\<rparr>"


lemma cuckatoo_verify_correct_witness:
  "cuckatoo_verify example_params \<lparr>edge_bits = 9, nonces = [8, 3]\<rparr> \<noteq> Some (Inr ())"
  by (subst cuckatoo_verify_correct) (simp_all add: example_params_def)

end
