(* ===== verification/Block.thy ===== *)
theory Block
  imports Tx_Validation Cuckoo
begin

text \<open>
  Blocks (\<open>core/src/core/block.rs\<close>): the header with its merge-mining data, the block, their serialization, and the
  checks a block passes on its own. The chain type is the argument \<open>ct\<close>, the digest function \<open>blake\<close>; the
  limits of the calendar of the \<open>chrono\<close> library, in seconds, are the argument \<open>C\<close>.
\<close>

section \<open>Merge-mining data\<close>

record aux_bit_header =
  ab_version :: u32
  ab_prev_hash :: hash
  ab_merkle_root :: hash
  ab_mine_time :: u32
  ab_nbits :: u32
  ab_nonce :: u32

record block_aux_data =
  aux_header :: aux_bit_header
  merkle_branch :: "hash list"
  coinbase_tx :: bytes

definition aux_bit_header_default :: aux_bit_header where
  "aux_bit_header_default = \<lparr>ab_version = 0, ab_prev_hash = ZERO_HASH, ab_merkle_root = ZERO_HASH, ab_mine_time = 0,
     ab_nbits = 0, ab_nonce = 0\<rparr>"

definition block_aux_data_default :: block_aux_data where
  "block_aux_data_default = \<lparr>aux_header = aux_bit_header_default, merkle_branch = [], coinbase_tx = []\<rparr>"

definition write_aux_bit_header :: "aux_bit_header \<Rightarrow> bytes" where
  "write_aux_bit_header h = write_i32_le (ab_version h) @ write_hash (ab_prev_hash h) @ write_hash (ab_merkle_root h)
     @ write_u32_le (ab_mine_time h) @ write_u32_le (ab_nbits h) @ write_u32_le (ab_nonce h)"

definition read_aux_bit_header :: "reader \<Rightarrow> aux_bit_header parse" where
  "read_aux_bit_header r =
    rbind (read_i32_le r) (\<lambda>(v, r).
    rbind (read_hash r) (\<lambda>(p, r).
    rbind (read_hash r) (\<lambda>(m, r).
    rbind (read_u32_le r) (\<lambda>(t, r).
    rbind (read_u32_le r) (\<lambda>(b, r).
    rbind (read_u32_le r) (\<lambda>(n, r).
      Inr (\<lparr>ab_version = v, ab_prev_hash = p, ab_merkle_root = m, ab_mine_time = t, ab_nbits = b, ab_nonce = n\<rparr>, r)))))))"

definition write_block_aux_data :: "block_aux_data \<Rightarrow> bytes" where
  "write_block_aux_data d = write_aux_bit_header (aux_header d)
     @ write_u32 (of_nat (length (merkle_branch d))) @ write_vec write_hash (merkle_branch d)
     @ write_u32 (of_nat (length (coinbase_tx d))) @ write_vec write_u8 (coinbase_tx d)"

definition read_block_aux_data :: "reader \<Rightarrow> block_aux_data parse" where
  "read_block_aux_data r =
    rbind (read_aux_bit_header r) (\<lambda>(h, r).
    rbind (read_u32 r) (\<lambda>(n, r).
    rbind (read_multi read_hash r (ucast n)) (\<lambda>(mb, r).
    rbind (read_u32 r) (\<lambda>(n, r).
    rbind (read_multi read_u8 r (ucast n)) (\<lambda>(cb, r).
      Inr (\<lparr>aux_header = h, merkle_branch = mb, coinbase_tx = cb\<rparr>, r))))))"

section \<open>Headers\<close>

record block_header =
  h_version :: header_version_t
  h_height :: u64
  h_prev_hash :: hash
  h_prev_root :: hash
  h_timestamp :: u64
  h_output_root :: hash
  h_range_proof_root :: hash
  h_kernel_root :: hash
  h_total_kernel_offset :: blinding_factor
  h_output_mmr_size :: u64
  h_kernel_mmr_size :: u64
  h_bits :: u32
  h_token_output_root :: hash
  h_token_range_proof_root :: hash
  h_token_issue_proof_root :: hash
  h_token_kernel_root :: hash
  h_token_output_mmr_size :: u64
  h_token_issue_proof_mmr_size :: u64
  h_token_kernel_mmr_size :: u64
  h_pow :: proof_of_work
  h_btc_pow :: block_aux_data

definition block_header_default :: "secp \<Rightarrow> block_header" where
  "block_header_default S = \<lparr>h_version = 1, h_height = 0, h_prev_hash = ZERO_HASH, h_prev_root = ZERO_HASH, h_timestamp = 0,
     h_output_root = ZERO_HASH, h_range_proof_root = ZERO_HASH, h_kernel_root = ZERO_HASH,
     h_total_kernel_offset = blinding_zero S, h_output_mmr_size = 0, h_kernel_mmr_size = 0, h_bits = 0,
     h_token_output_root = ZERO_HASH, h_token_range_proof_root = ZERO_HASH, h_token_issue_proof_root = ZERO_HASH,
     h_token_kernel_root = ZERO_HASH, h_token_output_mmr_size = 0, h_token_issue_proof_mmr_size = 0,
     h_token_kernel_mmr_size = 0, h_pow = proof_of_work_default, h_btc_pow = block_aux_data_default\<rparr>"

text \<open>\<open>DateTime\<close> values of headers are whole seconds, kept as the two's complement of an \<open>i64\<close>.\<close>

definition write_pre_pow :: "chain_types \<Rightarrow> block_header \<Rightarrow> bytes" where
  "write_pre_pow ct h =
    write_u16 (h_version h) @ write_u64 (h_height h) @ write_i64 (h_timestamp h) @ write_hash (h_prev_hash h)
    @ write_hash (h_prev_root h) @ write_hash (h_output_root h) @ write_hash (h_range_proof_root h)
    @ write_hash (h_kernel_root h) @ write_blinding (h_total_kernel_offset h) @ write_u64 (h_output_mmr_size h)
    @ write_u64 (h_kernel_mmr_size h) @ write_u32 (h_bits h)
    @ (if h_height h \<ge> support_token_height ct
       then write_hash (h_token_output_root h) @ write_hash (h_token_range_proof_root h)
         @ write_hash (h_token_issue_proof_root h) @ write_hash (h_token_kernel_root h)
         @ write_u64 (h_token_output_mmr_size h) @ write_u64 (h_token_issue_proof_mmr_size h)
         @ write_u64 (h_token_kernel_mmr_size h)
       else [])"

definition write_block_header :: "chain_types \<Rightarrow> serialization_mode \<Rightarrow> block_header \<Rightarrow> bytes" where
  "write_block_header ct mode h =
    (if h_height h \<ge> refactor_header_height ct
     then write_pre_pow ct h @ (if mode \<noteq> HashMode then write_block_aux_data (h_btc_pow h) else [])
     else (if mode \<noteq> HashMode then write_pre_pow ct h else []) @ write_proof_of_work mode (h_pow h))"

definition hash_block_header :: "chain_types \<Rightarrow> (bytes \<Rightarrow> hash) \<Rightarrow> block_header \<Rightarrow> hash" where
  "hash_block_header ct blake h = blake (write_block_header ct HashMode h)"

record chrono =
  MAX_DATE_timestamp :: int
  MIN_DATE_timestamp :: int

text \<open>The token roots and sizes: read from the support height on, zero below.\<close>

definition read_token_roots ::
  "chain_types \<Rightarrow> u64 \<Rightarrow> reader \<Rightarrow> (hash \<times> hash \<times> hash \<times> hash \<times> u64 \<times> u64 \<times> u64) parse" where
  "read_token_roots ct height r =
    (if height \<ge> support_token_height ct
     then rbind (read_hash r) (\<lambda>(a, r).
          rbind (read_hash r) (\<lambda>(b, r).
          rbind (read_hash r) (\<lambda>(c, r).
          rbind (read_hash r) (\<lambda>(d, r).
          rbind (read_u64 r) (\<lambda>(e, r).
          rbind (read_u64 r) (\<lambda>(f, r).
          rbind (read_u64 r) (\<lambda>(g, r). Inr ((a, b, c, d, e, f, g), r))))))))
     else Inr ((ZERO_HASH, ZERO_HASH, ZERO_HASH, ZERO_HASH, 0, 0, 0), r))"

definition read_pow :: "chain_types \<Rightarrow> u64 \<Rightarrow> reader \<Rightarrow> (proof_of_work \<times> block_aux_data) parse" where
  "read_pow ct height r =
    (if height \<ge> refactor_header_height ct
     then rbind (read_block_aux_data r) (\<lambda>(d, r).
       Inr ((proof_of_work_default\<lparr>total_difficulty := difficulty_from_num (height + 1)\<rparr>, d), r))
     else rbind (read_proof_of_work r) (\<lambda>(p, r). Inr ((p, block_aux_data_default), r)))"

definition read_block_header :: "chrono \<Rightarrow> chain_types \<Rightarrow> secp_sizes \<Rightarrow> reader \<Rightarrow> block_header parse" where
  "read_block_header C ct K r =
    rbind (read_u16 r) (\<lambda>(version, r).
    rbind (read_u64 r) (\<lambda>(height, r).
    rbind (read_i64 r) (\<lambda>(timestamp, r).
    rbind (read_hash r) (\<lambda>(prev_hash, r).
    rbind (read_hash r) (\<lambda>(prev_root, r).
    rbind (read_hash r) (\<lambda>(output_root, r).
    rbind (read_hash r) (\<lambda>(range_proof_root, r).
    rbind (read_hash r) (\<lambda>(kernel_root, r).
    rbind (read_blinding K r) (\<lambda>(offset, r).
    rbind (read_u64 r) (\<lambda>(output_mmr_size, r).
    rbind (read_u64 r) (\<lambda>(kernel_mmr_size, r).
    rbind (read_u32 r) (\<lambda>(bits, r).
    rbind (read_token_roots ct height r) (\<lambda>((tor, trr, tir, tkr, tos, tis, tks), r).
    rbind (read_pow ct height r) (\<lambda>((pow, btc_pow), r).
      if sint timestamp > MAX_DATE_timestamp C \<or> sint timestamp < MIN_DATE_timestamp C then Inl CorruptedData
      else Inr (\<lparr>h_version = version, h_height = height, h_prev_hash = prev_hash, h_prev_root = prev_root,
        h_timestamp = timestamp, h_output_root = output_root, h_range_proof_root = range_proof_root,
        h_kernel_root = kernel_root, h_total_kernel_offset = offset, h_output_mmr_size = output_mmr_size,
        h_kernel_mmr_size = kernel_mmr_size, h_bits = bits, h_token_output_root = tor, h_token_range_proof_root = trr,
        h_token_issue_proof_root = tir, h_token_kernel_root = tkr, h_token_output_mmr_size = tos,
        h_token_issue_proof_mmr_size = tis, h_token_kernel_mmr_size = tks, h_pow = pow, h_btc_pow = btc_pow\<rparr>, r)))))))))))))))"

definition pre_pow :: "chain_types \<Rightarrow> block_header \<Rightarrow> bytes" where
  "pre_pow ct h = write_pre_pow ct h @ pow_write_pre_pow (h_pow h) @ write_u64 (pow_nonce (h_pow h))"

definition header_total_difficulty :: "block_header \<Rightarrow> difficulty" where
  "header_total_difficulty h = total_difficulty (h_pow h)"

text \<open>\<open>checked_neg\<close> fails on the least number only.\<close>

definition header_overage :: "chain_types \<Rightarrow> block_header \<Rightarrow> u64" where
  "header_overage ct h = (let r = reward ct (h_height h) 0 in if r = 0x8000000000000000 then 0 else - r)"

definition header_total_overage :: "chain_types \<Rightarrow> block_header \<Rightarrow> bool \<Rightarrow> u64" where
  "header_total_overage ct h genesis_had_reward =
    (let r = total_reward ct (h_height h) genesis_had_reward in if r = 0x8000000000000000 then 0 else - r)"

definition is_pre_pow_equal :: "block_header \<Rightarrow> block_header \<Rightarrow> bool" where
  "is_pre_pow_equal a b \<longleftrightarrow> h_version a = h_version b \<and> h_height a = h_height b \<and> h_prev_hash a = h_prev_hash b
    \<and> h_prev_root a = h_prev_root b \<and> h_timestamp a = h_timestamp b \<and> h_output_root a = h_output_root b
    \<and> h_range_proof_root a = h_range_proof_root b \<and> h_kernel_root a = h_kernel_root b
    \<and> h_total_kernel_offset a = h_total_kernel_offset b \<and> h_output_mmr_size a = h_output_mmr_size b
    \<and> h_kernel_mmr_size a = h_kernel_mmr_size b \<and> h_bits a = h_bits b \<and> h_token_output_root a = h_token_output_root b
    \<and> h_token_range_proof_root a = h_token_range_proof_root b \<and> h_token_issue_proof_root a = h_token_issue_proof_root b
    \<and> h_token_kernel_root a = h_token_kernel_root b \<and> h_token_output_mmr_size a = h_token_output_mmr_size b
    \<and> h_token_issue_proof_mmr_size a = h_token_issue_proof_mmr_size b \<and> h_token_kernel_mmr_size a = h_token_kernel_mmr_size b"

definition header_eq :: "chain_types \<Rightarrow> block_header \<Rightarrow> block_header \<Rightarrow> bool" where
  "header_eq ct a b \<longleftrightarrow>
    (if h_height a \<ge> support_token_height ct then is_pre_pow_equal a b \<and> h_btc_pow a = h_btc_pow b
     else is_pre_pow_equal a b \<and> h_pow a = h_pow b)"

record header_entry =
  he_hash :: hash
  he_timestamp :: u64
  he_total_difficulty :: difficulty
  he_secondary_scaling :: u32
  he_is_secondary :: bool

definition write_header_entry :: "header_entry \<Rightarrow> bytes" where
  "write_header_entry e = write_hash (he_hash e) @ write_u64 (he_timestamp e) @ write_difficulty (he_total_difficulty e)
     @ write_u32 (he_secondary_scaling e) @ write_u8 (if he_is_secondary e then 1 else 0)"

definition read_header_entry :: "reader \<Rightarrow> header_entry parse" where
  "read_header_entry r =
    rbind (read_hash r) (\<lambda>(h, r).
    rbind (read_u64 r) (\<lambda>(t, r).
    rbind (read_difficulty r) (\<lambda>(d, r).
    rbind (read_u32 r) (\<lambda>(s, r).
    rbind (read_u8 r) (\<lambda>(b, r).
      Inr (\<lparr>he_hash = h, he_timestamp = t, he_total_difficulty = d, he_secondary_scaling = s, he_is_secondary = (b \<noteq> 0)\<rparr>, r))))))"

definition as_elmt_header :: "chain_types \<Rightarrow> (bytes \<Rightarrow> hash) \<Rightarrow> block_header \<Rightarrow> header_entry" where
  "as_elmt_header ct blake h = \<lparr>he_hash = hash_block_header ct blake h, he_timestamp = h_timestamp h,
     he_total_difficulty = header_total_difficulty h, he_secondary_scaling = secondary_scaling (h_pow h),
     he_is_secondary = is_secondary (h_pow h)\<rparr>"

section \<open>Headers from the network\<close>

definition MAX_SOLS :: u32 where "MAX_SOLS = 10"

definition create_pow_context :: "u64 \<Rightarrow> u8 \<Rightarrow> nat \<Rightarrow> u32 \<Rightarrow> pow_error + cuckoo_params" where
  "create_pow_context height eb proof_size max_sols = cuckatoo_new eb proof_size"

definition verify_size :: "chain_types \<Rightarrow> (bytes \<Rightarrow> hash) \<Rightarrow> block_header \<Rightarrow> (pow_error + unit) option" where
  "verify_size ct blake h =
    (let p = pow_proof (h_pow h)
     in case create_pow_context (h_height h) (edge_bits p) (length (nonces p)) MAX_SOLS of
          Inl e \<Rightarrow> Some (Inl e)
        | Inr ctx \<Rightarrow> cuckatoo_verify (reset_header_nonce blake ctx (pre_pow ct h) None) p)"

text \<open>\<open>UntrustedBlockHeader::read\<close> at time \<open>now\<close>, in seconds; \<open>None\<close> is a panic.\<close>

definition read_untrusted_header ::
  "chrono \<Rightarrow> chain_types \<Rightarrow> (bytes \<Rightarrow> hash) \<Rightarrow> secp_sizes \<Rightarrow> int \<Rightarrow> reader \<Rightarrow> block_header parse option" where
  "read_untrusted_header C ct blake K now r =
    (case read_block_header C ct K r of
       Inl e \<Rightarrow> Some (Inl e)
     | Inr (h, r) \<Rightarrow>
        if sint (h_timestamp h) > now + 12 * uint BLOCK_TIME_SEC then Some (Inl CorruptedData)
        else if h_height h < refactor_header_height ct
        then if \<not> valid_header_version ct (h_height h) (h_version h) then Some (Inl InvalidBlockVersion)
             else if \<not> is_primary (h_pow h) \<and> \<not> is_secondary (h_pow h) then Some (Inl CorruptedData)
             else map_option (\<lambda>res. case res of Inl _ \<Rightarrow> Inl CorruptedData | Inr _ \<Rightarrow> Inr (h, r)) (verify_size ct blake h)
        else Some (Inr (h, r)))"

section \<open>Blocks\<close>

datatype block_error =
    BlockKernelSumMismatch
  | InvalidTotalKernelSum
  | CoinbaseSumMismatch
  | BlockTooHeavy
  | WeightExceeded
  | BlockInvalidVersion header_version_t
  | InvalidBlockTime
  | InvalidPow
  | KernelLockHeight u64
  | TransactionErr tx_error
  | BlockSecp secp_error
  | BlockKeychain keychain_error
  | MerkleProofErr
  | CommittedErr committed_error
  | BlockCutThrough
  | SerializationErr ser_error
  | OtherErr string

record block =
  b_header :: block_header
  b_aux_data :: block_aux_data
  b_body :: transaction_body

definition block_default :: "secp \<Rightarrow> block" where
  "block_default S = \<lparr>b_header = block_header_default S, b_aux_data = block_aux_data_default, b_body = body_empty\<rparr>"

definition hash_block :: "chain_types \<Rightarrow> (bytes \<Rightarrow> hash) \<Rightarrow> block \<Rightarrow> hash" where
  "hash_block ct blake b = hash_block_header ct blake (b_header b)"

definition write_block :: "chain_types \<Rightarrow> serialization_mode \<Rightarrow> version \<Rightarrow> block \<Rightarrow> bytes" where
  "write_block ct mode v b = write_block_header ct mode (b_header b)
    @ (if mode \<noteq> HashMode
       then (if h_height (b_header b) < refactor_header_height ct then write_block_aux_data (b_aux_data b) else [])
         @ write_body mode v (b_body b)
       else [])"

definition read_aux_data :: "chain_types \<Rightarrow> block_header \<Rightarrow> reader \<Rightarrow> block_aux_data parse" where
  "read_aux_data ct h r =
    (if h_height h \<ge> refactor_header_height ct then Inr (block_aux_data_default, r) else read_block_aux_data r)"

definition read_block :: "chrono \<Rightarrow> chain_types \<Rightarrow> (bytes \<Rightarrow> hash) \<Rightarrow> secp_sizes \<Rightarrow> reader \<Rightarrow> block parse" where
  "read_block C ct blake K r =
    rbind (read_block_header C ct K r) (\<lambda>(h, r).
    rbind (read_aux_data ct h r) (\<lambda>(d, r).
    rbind (read_body ct blake K r) (\<lambda>(body, r).
      Inr (\<lparr>b_header = h, b_aux_data = d, b_body = body\<rparr>, r))))"

definition read_untrusted_block ::
  "chrono \<Rightarrow> chain_types \<Rightarrow> (bytes \<Rightarrow> hash) \<Rightarrow> secp_sizes \<Rightarrow> int \<Rightarrow> reader \<Rightarrow> block parse option" where
  "read_untrusted_block C ct blake K now r =
    map_option (\<lambda>res.
      rbind res (\<lambda>(h, r).
      rbind (read_aux_data ct h r) (\<lambda>(d, r).
      rbind (read_body ct blake K r) (\<lambda>(body, r).
        case body_validate_read ct blake body AsBlock of
          Inl _ \<Rightarrow> Inl CorruptedData
        | Inr _ \<Rightarrow> Inr (\<lparr>b_header = h, b_aux_data = d, b_body = body\<rparr>, r)))))
     (read_untrusted_header C ct blake K now r)"

definition with_header :: "secp \<Rightarrow> block_header \<Rightarrow> block" where
  "with_header S h = (block_default S)\<lparr>b_header := h\<rparr>"

definition with_reward :: "output_t \<Rightarrow> tx_kernel \<Rightarrow> block \<Rightarrow> block" where
  "with_reward reward_out reward_kern b = b\<lparr>b_body := (b_body b)\<lparr>b_outputs := [reward_out], b_kernels := [reward_kern]\<rparr>\<rparr>"

definition total_fees :: "block \<Rightarrow> u64" where
  "total_fees b = body_fee (b_body b)"

definition block_cut_through :: "(bytes \<Rightarrow> hash) \<Rightarrow> block \<Rightarrow> block_error + block" where
  "block_cut_through blake b =
    rbind (map_err TransactionErr (cut_through blake (b_inputs (b_body b)) (b_outputs (b_body b))
        (b_token_inputs (b_body b)) (b_token_outputs (b_body b)))) (\<lambda>(ins, outs, tins, touts).
    rbind (map_err TransactionErr (body_init blake ins outs (b_kernels (b_body b)) tins touts (b_token_kernels (b_body b)) False))
      (\<lambda>body. Inr \<lparr>b_header = b_header b, b_aux_data = b_aux_data b, b_body = body\<rparr>))"

text \<open>\<open>Block::from_reward\<close> at time \<open>now\<close>, in seconds.\<close>

definition from_reward ::
  "chain_types \<Rightarrow> secp \<Rightarrow> (bytes \<Rightarrow> hash) \<Rightarrow> int \<Rightarrow> block_header \<Rightarrow> transaction list \<Rightarrow> output_t \<Rightarrow> tx_kernel \<Rightarrow> difficulty \<Rightarrow>
     block_error + block" where
  "from_reward ct S blake now prev txs reward_out reward_kern difficulty =
    rbind (map_err TransactionErr (aggregate S blake txs)) (\<lambda>agg.
    let agg_tx = tx_with_kernel blake reward_kern (tx_with_output blake reward_out agg)
    in rbind (map_err CommittedErr (sum_kernel_offsets S [tx_offset agg_tx, h_total_kernel_offset prev] [])) (\<lambda>offset.
    let height = h_height prev + 1
    in block_cut_through blake \<lparr>b_header = (block_header_default S)\<lparr>h_version := header_version ct height, h_height := height,
           h_timestamp := word_of_int now, h_prev_hash := hash_block_header ct blake prev, h_total_kernel_offset := offset,
           h_pow := proof_of_work_default\<lparr>total_difficulty := difficulty_add difficulty (header_total_difficulty prev)\<rparr>\<rparr>,
         b_aux_data = block_aux_data_default, b_body = tx_body agg_tx\<rparr>))"

fun check_lock_heights :: "('k \<Rightarrow> u64 option) \<Rightarrow> u64 \<Rightarrow> 'k list \<Rightarrow> block_error + unit" where
  "check_lock_heights lock height [] = Inr ()"
| "check_lock_heights lock height (k # ks) =
    (case lock k of
       Some lock_height \<Rightarrow> if lock_height > height then Inl (KernelLockHeight lock_height) else check_lock_heights lock height ks
     | None \<Rightarrow> check_lock_heights lock height ks)"

definition kernel_lock :: "tx_kernel \<Rightarrow> u64 option" where
  "kernel_lock k = (case k_features k of HeightLocked _ lock_height \<Rightarrow> Some lock_height | _ \<Rightarrow> None)"

definition token_kernel_lock :: "token_tx_kernel \<Rightarrow> u64 option" where
  "token_kernel_lock k = (case tk_features k of HeightLockedToken lock_height \<Rightarrow> Some lock_height | _ \<Rightarrow> None)"

definition verify_kernel_lock_heights :: "block \<Rightarrow> block_error + unit" where
  "verify_kernel_lock_heights b =
    rbind (check_lock_heights kernel_lock (h_height (b_header b)) (b_kernels (b_body b))) (\<lambda>_.
      check_lock_heights token_kernel_lock (h_height (b_header b)) (b_token_kernels (b_body b)))"

definition block_validate_read :: "chain_types \<Rightarrow> (bytes \<Rightarrow> hash) \<Rightarrow> block \<Rightarrow> block_error + unit" where
  "block_validate_read ct blake b =
    rbind (map_err TransactionErr (body_validate_read ct blake (b_body b) AsBlock)) (\<lambda>_. verify_kernel_lock_heights b)"

definition block_kernel_offset :: "secp \<Rightarrow> block \<Rightarrow> blinding_factor \<Rightarrow> block_error + blinding_factor" where
  "block_kernel_offset S b prev_kernel_offset =
    (if h_total_kernel_offset (b_header b) = prev_kernel_offset then Inr (blinding_zero S)
     else map_err CommittedErr (sum_kernel_offsets S [h_total_kernel_offset (b_header b)] [prev_kernel_offset]))"

definition verify_coinbase :: "chain_types \<Rightarrow> secp \<Rightarrow> block \<Rightarrow> block_error + unit" where
  "verify_coinbase ct S b =
    (let cb_outs = filter is_coinbase (b_outputs (b_body b));
         cb_kerns = filter is_coinbase_kernel (b_kernels (b_body b));
         over_commit = secp_commit_value S (reward ct (h_height (b_header b)) (total_fees b))
     in rbind (map_err BlockSecp (secp_commit_sum S (map o_commit cb_outs) [over_commit])) (\<lambda>out_adjust_sum.
        rbind (map_err BlockSecp (secp_commit_sum S (map k_excess cb_kerns) [])) (\<lambda>kerns_sum.
          if kerns_sum \<noteq> out_adjust_sum then Inl CoinbaseSumMismatch else Inr ())))"

definition block_validate ::
  "chain_types \<Rightarrow> (bytes \<Rightarrow> hash) \<Rightarrow> secp \<Rightarrow> 'c lru_ops \<Rightarrow> block \<Rightarrow> blinding_factor \<Rightarrow> 'c verifier_cache \<Rightarrow>
     (block_error + commitment) \<times> 'c verifier_cache" where
  "block_validate ct blake S L b prev_kernel_offset vc =
    (case map_err TransactionErr (body_validate_token_height ct (b_body b) (h_height (b_header b))) of
       Inl e \<Rightarrow> (Inl e, vc)
     | Inr _ \<Rightarrow>
    let (res, vc) = body_validate ct blake S L (b_body b) AsBlock vc
    in (rbind (map_err TransactionErr res) (\<lambda>_.
        rbind (verify_kernel_lock_heights b) (\<lambda>_.
        rbind (verify_coinbase ct S b) (\<lambda>_.
        rbind (map_err CommittedErr (verify_token_kernel_sum S (body_committed (b_body b)))) (\<lambda>_.
        rbind (block_kernel_offset S b prev_kernel_offset) (\<lambda>offset.
        rbind (map_err CommittedErr (verify_kernel_sums S (body_committed (b_body b)) (header_overage ct (b_header b)) offset))
          (\<lambda>(utxo_sum, kernel_sum). Inr kernel_sum)))))), vc))"

section \<open>Round trips\<close>

definition aux_bit_header_ok :: "aux_bit_header \<Rightarrow> bool" where
  "aux_bit_header_ok h \<longleftrightarrow> length (ab_prev_hash h) = 32 \<and> length (ab_merkle_root h) = 32"

definition block_aux_data_ok :: "block_aux_data \<Rightarrow> bool" where
  "block_aux_data_ok d \<longleftrightarrow> aux_bit_header_ok (aux_header d) \<and> list_all (\<lambda>h. length h = 32) (merkle_branch d)
    \<and> length (merkle_branch d) \<le> 1000000 \<and> length (coinbase_tx d) \<le> 1000000"

interpretation u32lec: codec "\<lambda>_. write_u32_le" read_u32_le "\<lambda>_ _. True"
  by unfold_locales simp

interpretation i32lec: codec "\<lambda>_. write_i32_le" read_i32_le "\<lambda>_ _. True"
  by unfold_locales simp

interpretation aux_bit_headerc: codec "\<lambda>_. write_aux_bit_header" read_aux_bit_header "\<lambda>_. aux_bit_header_ok"
  by unfold_locales
    (simp add: aux_bit_header_ok_def read_aux_bit_header_def write_aux_bit_header_def u32lec.rd_wr i32lec.rd_wr hashc.rd_wr add.assoc)

lemma ucast_count: "n \<le> 1000000 \<Longrightarrow> ucast (of_nat n :: u32) = (of_nat n :: u64)"
  by (simp add: word_eq_iff_unsigned unsigned_ucast_eq unsigned_of_nat take_bit_nat_eq_self)

interpretation block_aux_datac: codec "\<lambda>_. write_block_aux_data" read_block_aux_data "\<lambda>_. block_aux_data_ok"
proof (unfold_locales, goal_cases)
  case (1 r d n rest)
  then have ok: "aux_bit_header_ok (aux_header d)" "\<And>h. h \<in> set (merkle_branch d) \<Longrightarrow> length h = 32"
    "length (merkle_branch d) \<le> 1000000" "length (coinbase_tx d) \<le> 1000000"
    by (auto simp: block_aux_data_ok_def list_all_iff)
  show ?case
    using hashc.read_multi_wr [OF ok(2,3)] u8c.read_multi_wr [OF _ ok(4)]
    by (simp add: read_block_aux_data_def write_block_aux_data_def aux_bit_headerc.rd_wr ok u32c.rd_wr ucast_count add.assoc)
qed

text \<open>
  What a header must have to be read back: fields of their sizes, a time within the calendar, no token roots before
  the height that has them, and of the two proofs of work the one of its height, with nothing else in the other.
\<close>

definition header_sizes_ok :: "secp_sizes \<Rightarrow> block_header \<Rightarrow> bool" where
  "header_sizes_ok K h \<longleftrightarrow> list_all (\<lambda>x. length x = 32) [h_prev_hash h, h_prev_root h, h_output_root h, h_range_proof_root h,
      h_kernel_root h, h_token_output_root h, h_token_range_proof_root h, h_token_issue_proof_root h, h_token_kernel_root h]
    \<and> fixed_ok (SECRET_KEY_SIZE K) (h_total_kernel_offset h)"

definition header_pow_ok :: "chain_types \<Rightarrow> block_header \<Rightarrow> bool" where
  "header_pow_ok ct h \<longleftrightarrow>
    (if h_height h \<ge> refactor_header_height ct
     then block_aux_data_ok (h_btc_pow h)
       \<and> h_pow h = proof_of_work_default\<lparr>total_difficulty := difficulty_from_num (h_height h + 1)\<rparr>
     else proof_of_work_ok (h_pow h) \<and> h_btc_pow h = block_aux_data_default)"

definition header_tokens_ok :: "chain_types \<Rightarrow> block_header \<Rightarrow> bool" where
  "header_tokens_ok ct h \<longleftrightarrow> h_height h < support_token_height ct \<longrightarrow>
    h_token_output_root h = ZERO_HASH \<and> h_token_range_proof_root h = ZERO_HASH \<and> h_token_issue_proof_root h = ZERO_HASH
    \<and> h_token_kernel_root h = ZERO_HASH \<and> h_token_output_mmr_size h = 0 \<and> h_token_issue_proof_mmr_size h = 0
    \<and> h_token_kernel_mmr_size h = 0"

definition block_header_ok :: "chrono \<Rightarrow> chain_types \<Rightarrow> secp_sizes \<Rightarrow> block_header \<Rightarrow> bool" where
  "block_header_ok C ct K h \<longleftrightarrow> header_sizes_ok K h \<and> header_pow_ok ct h \<and> header_tokens_ok ct h
    \<and> MIN_DATE_timestamp C \<le> sint (h_timestamp h) \<and> sint (h_timestamp h) \<le> MAX_DATE_timestamp C"

definition write_token_roots :: "chain_types \<Rightarrow> block_header \<Rightarrow> bytes" where
  "write_token_roots ct h = (if h_height h \<ge> support_token_height ct
       then write_hash (h_token_output_root h) @ write_hash (h_token_range_proof_root h)
         @ write_hash (h_token_issue_proof_root h) @ write_hash (h_token_kernel_root h)
         @ write_u64 (h_token_output_mmr_size h) @ write_u64 (h_token_issue_proof_mmr_size h)
         @ write_u64 (h_token_kernel_mmr_size h)
       else [])"

definition write_pow :: "chain_types \<Rightarrow> block_header \<Rightarrow> bytes" where
  "write_pow ct h = (if h_height h \<ge> refactor_header_height ct then write_block_aux_data (h_btc_pow h)
     else write_proof_of_work FullMode (h_pow h))"

lemma read_token_roots_wr:
  assumes "header_sizes_ok K h" "header_tokens_ok ct h"
  shows "read_token_roots ct (h_height h) (adv r n (write_token_roots ct h @ rest))
    = Inr ((h_token_output_root h, h_token_range_proof_root h, h_token_issue_proof_root h, h_token_kernel_root h,
        h_token_output_mmr_size h, h_token_issue_proof_mmr_size h, h_token_kernel_mmr_size h),
        adv r (n + length (write_token_roots ct h)) rest)"
  using assms
  by (cases "h_height h \<ge> support_token_height ct")
    (simp_all add: read_token_roots_def write_token_roots_def header_sizes_ok_def header_tokens_ok_def hashc.rd_wr u64c.rd_wr add.assoc)

lemma read_pow_wr:
  assumes "header_pow_ok ct h"
  shows "read_pow ct (h_height h) (adv r n (write_pow ct h @ rest))
    = Inr ((h_pow h, h_btc_pow h), adv r (n + length (write_pow ct h)) rest)"
  using assms
  by (cases "h_height h \<ge> refactor_header_height ct")
    (simp_all add: read_pow_def write_pow_def header_pow_ok_def block_aux_datac.rd_wr proof_of_workc.rd_wr)

lemma write_block_header_parts:
  "write_block_header ct FullMode h = write_u16 (h_version h) @ write_u64 (h_height h) @ write_i64 (h_timestamp h)
    @ write_hash (h_prev_hash h) @ write_hash (h_prev_root h) @ write_hash (h_output_root h)
    @ write_hash (h_range_proof_root h) @ write_hash (h_kernel_root h) @ write_blinding (h_total_kernel_offset h)
    @ write_u64 (h_output_mmr_size h) @ write_u64 (h_kernel_mmr_size h) @ write_u32 (h_bits h)
    @ write_token_roots ct h @ write_pow ct h"
  by (simp add: write_block_header_def write_pre_pow_def write_token_roots_def write_pow_def)

interpretation block_headerc: codec "\<lambda>_. write_block_header ct FullMode" "read_block_header C ct K" "\<lambda>_. block_header_ok C ct K"
  for C ct K
proof (unfold_locales, goal_cases)
  case (1 r h n rest)
  then have ok: "header_sizes_ok K h" "header_tokens_ok ct h" "header_pow_ok ct h"
    "\<not> (sint (h_timestamp h) > MAX_DATE_timestamp C \<or> sint (h_timestamp h) < MIN_DATE_timestamp C)"
    by (auto simp: block_header_ok_def)
  note lens = ok(1) [unfolded header_sizes_ok_def]
  show ?case
    using ok(4) lens
    by (simp add: read_block_header_def write_block_header_parts read_token_roots_wr [OF ok(1,2)] read_pow_wr [OF ok(3)]
        u16c.rd_wr u64c.rd_wr i64c.rd_wr u32c.rd_wr hashc.rd_wr blindc.rd_wr add.assoc) (simp add: ac_simps)
qed

definition block_wf :: "chrono \<Rightarrow> chain_types \<Rightarrow> (bytes \<Rightarrow> hash) \<Rightarrow> secp_sizes \<Rightarrow> version \<Rightarrow> block \<Rightarrow> bool" where
  "block_wf C ct blake K v b \<longleftrightarrow> block_header_ok C ct K (b_header b) \<and> body_wf ct blake K v (b_body b)
    \<and> (if h_height (b_header b) \<ge> refactor_header_height ct then b_aux_data b = block_aux_data_default
       else block_aux_data_ok (b_aux_data b))"

interpretation blockc: codec "write_block ct FullMode" "read_block C ct blake K" "block_wf C ct blake K" for C ct blake K
proof (unfold_locales, goal_cases)
  case (1 r b n rest)
  then show ?case
    by (cases b; cases "h_height (b_header b) < refactor_header_height ct")
      (simp_all add: block_wf_def read_block_def write_block_def read_aux_data_def block_headerc.rd_wr bodyc.rd_wr
        block_aux_datac.rd_wr add.assoc not_less [symmetric])
qed

definition header_entry_ok :: "header_entry \<Rightarrow> bool" where
  "header_entry_ok e \<longleftrightarrow> length (he_hash e) = 32"

interpretation header_entryc: codec "\<lambda>_. write_header_entry" read_header_entry "\<lambda>_. header_entry_ok"
  by unfold_locales
    (simp add: read_header_entry_def write_header_entry_def header_entry_ok_def read_difficulty_def write_difficulty_def
      hashc.rd_wr ac_simps)

section \<open>Headers from the network never panic\<close>

lemma read_block_header_pow:
  assumes "read_block_header C ct K r = Inr (h, r')" "h_height h < refactor_header_height ct"
  shows "proof_of_work_ok (h_pow h)"
  using assms
  by (auto simp: read_block_header_def read_pow_def rbind_eq_Inr read_proof_of_work_iff not_le split: if_split_asm)

lemma verify_size_returns:
  assumes "nonces (pow_proof (h_pow h)) \<noteq> []"
  shows "\<exists>r. verify_size ct blake h = Some r"
proof (cases "create_pow_context (h_height h) (edge_bits (pow_proof (h_pow h))) (length (nonces (pow_proof (h_pow h)))) MAX_SOLS")
  case (Inr ctx)
  then have "cp_proof_size (reset_header_nonce blake ctx (pre_pow ct h) None) = length (nonces (pow_proof (h_pow h)))"
    by (auto simp: create_pow_context_def cuckatoo_new_def cuckoo_params_new_def reset_header_nonce_def Let_def split: if_splits)
  then show ?thesis using cuckatoo_verify_eq [OF assms] Inr by (auto simp: verify_size_def)
qed (simp add: verify_size_def)

lemma read_untrusted_header_returns: "\<exists>res. read_untrusted_header C ct blake K now r = Some res"
proof (cases "read_block_header C ct K r")
  case (Inr hr)
  obtain h r' where hr: "hr = (h, r')" by (cases hr)
  have "nonces (pow_proof (h_pow h)) \<noteq> []" if "h_height h < refactor_header_height ct"
    using read_block_header_pow [of C ct K r h r'] Inr hr that
    by (auto simp: proof_of_work_ok_def proof_ok_def proofsize_def)
  then show ?thesis
    using verify_size_returns [of h ct blake] Inr hr by (auto simp: read_untrusted_header_def)
qed (simp add: read_untrusted_header_def)

section \<open>Rewards and sums\<close>

lemma unat_reward_no_fee: "unat (reward ct height 0) = subsidy ct (unat height)"
  using unat_reward_eq [of ct height 0] subsidy_le [of ct "unat height"] by simp

lemma header_overage_amt:
  "overage_amt amt (header_overage ct h) =
    - (if subsidy ct (unat (h_height h)) = 0 then 0 else amt (subsidy ct (unat (h_height h))))"
proof -
  let ?r = "reward ct (h_height h) 0"
  have r: "unat ?r < 2 ^ 63" using subsidy_le [of ct "unat (h_height h)"] by (simp add: unat_reward_no_fee)
  then have o: "header_overage ct h = - ?r" by (auto simp: header_overage_def Let_def)
  show ?thesis
  proof (cases "?r = 0")
    case True
    then show ?thesis by (simp add: o overage_amt_def flip: unat_reward_no_fee)
  next
    case False
    then have nz: "subsidy ct (unat (h_height h)) \<noteq> 0" by (simp add: unat_gt_0 flip: unat_reward_no_fee)
    have u: "unat (- ?r) = 2 ^ 64 - unat ?r" using False by (simp add: unat_uminus)
    have "\<not> unat (- ?r) < 2 ^ 63" unfolding u using r by simp
    moreover have "- ?r \<noteq> 0" using False by simp
    moreover have "2 ^ 64 - unat (- ?r) = subsidy ct (unat (h_height h))"
      unfolding u using r by (simp add: unat_reward_no_fee)
    ultimately show ?thesis using nz unfolding o overage_amt_eq by (simp only: if_False)
  qed
qed

lemma verify_coinbase_val:
  assumes "pedersen S val amt blind" "verify_coinbase ct S b = Inr ()"
  shows "vals val (map o_commit (filter is_coinbase (b_outputs (b_body b))))
    = amt (unat (reward ct (h_height (b_header b)) (total_fees b)))
      + vals val (map k_excess (filter is_coinbase_kernel (b_kernels (b_body b))))"
proof -
  let ?v = "secp_commit_value S (reward ct (h_height (b_header b)) (total_fees b))"
  obtain c where c: "secp_commit_sum S (map o_commit (filter is_coinbase (b_outputs (b_body b)))) [?v] = Inr c"
      "secp_commit_sum S (map k_excess (filter is_coinbase_kernel (b_kernels (b_body b)))) [] = Inr c"
    using assms(2) by (auto simp: verify_coinbase_def rbind_eq_Inr Let_def split: if_split_asm)
  have sum: "\<And>pos neg c. secp_commit_sum S pos neg = Inr c \<Longrightarrow> val c = vals val pos - vals val neg"
    and amt: "val ?v = amt (unat (reward ct (h_height (b_header b)) (total_fees b)))"
    using assms(1) by (auto simp: pedersen_def)
  show ?thesis using sum [OF c(1)] sum [OF c(2)] amt by (simp add: algebra_simps)
qed

lemma check_lock_heights_iff:
  "check_lock_heights lock height ks = Inr () \<longleftrightarrow> list_all (\<lambda>k. case lock k of Some lock_height \<Rightarrow> lock_height \<le> height | None \<Rightarrow> True) ks"
  by (induction ks) (auto split: option.splits)

lemma verify_kernel_lock_heights_iff:
  "verify_kernel_lock_heights b = Inr () \<longleftrightarrow>
    list_all (\<lambda>k. case kernel_lock k of Some lock_height \<Rightarrow> lock_height \<le> h_height (b_header b) | None \<Rightarrow> True) (b_kernels (b_body b))
    \<and> list_all (\<lambda>k. case token_kernel_lock k of Some lock_height \<Rightarrow> lock_height \<le> h_height (b_header b) | None \<Rightarrow> True)
        (b_token_kernels (b_body b))"
  by (simp add: verify_kernel_lock_heights_def rbind_eq_Inr check_lock_heights_iff)

text \<open>
  Claim C1. A block that validates creates exactly its subsidy: its outputs exceed its inputs by the reward of its
  height, its kernel excesses and its own kernel offset, and its coinbase outputs are worth the reward with the fees
  of the block plus the coinbase kernels. No kernel of the block is locked beyond its height, and the sum it returns
  stands for its kernels.
\<close>

theorem block_validate_conserves:
  assumes "pedersen S val amt blind" "fst (block_validate ct blake S L b prev vc) = Inr k"
  shows "(\<exists>offset. block_kernel_offset S b prev = Inr offset
      \<and> vals val (map o_commit (b_outputs (b_body b))) =
         vals val (map i_commit (b_inputs (b_body b))) + vals val (map k_excess (b_kernels (b_body b)))
         + offset_val S blind offset
         + (if subsidy ct (unat (h_height (b_header b))) = 0 then 0 else amt (subsidy ct (unat (h_height (b_header b))))))
    \<and> vals val (map o_commit (filter is_coinbase (b_outputs (b_body b))))
       = amt (unat (reward ct (h_height (b_header b)) (total_fees b)))
         + vals val (map k_excess (filter is_coinbase_kernel (b_kernels (b_body b))))
    \<and> list_all (\<lambda>x. case kernel_lock x of Some lock_height \<Rightarrow> lock_height \<le> h_height (b_header b) | None \<Rightarrow> True)
        (b_kernels (b_body b))
    \<and> val k = vals val (map k_excess (b_kernels (b_body b)))"
proof -
  obtain offset u where ok: "verify_coinbase ct S b = Inr ()" "block_kernel_offset S b prev = Inr offset"
      "verify_kernel_sums S (body_committed (b_body b)) (header_overage ct (b_header b)) offset = Inr (u, k)"
      "verify_kernel_lock_heights b = Inr ()"
    using assms(2) by (auto simp: block_validate_def rbind_eq_Inr split: sum.splits prod.splits)
  note sums = verify_kernel_sums_val [OF assms(1) ok(3)]
  have "vals val (map o_commit (b_outputs (b_body b))) =
      vals val (map i_commit (b_inputs (b_body b))) + vals val (map k_excess (b_kernels (b_body b)))
      + offset_val S blind offset - overage_amt amt (header_overage ct (b_header b))"
    using sums by (simp add: body_committed_def algebra_simps)
  then show ?thesis
    using ok(2) verify_coinbase_val [OF assms(1) ok(1)] sums(2) ok(4) [unfolded verify_kernel_lock_heights_iff]
    by (simp add: header_overage_amt body_committed_def)
qed

text \<open>A block of one coinbase output at height 1440, where the halved reward of the test chain is odd.\<close>

definition example_block :: block where
  "example_block = (block_default example_secp)\<lparr>b_header := (block_header_default example_secp)\<lparr>h_height := 1440\<rparr>,
     b_body := body_empty\<lparr>b_outputs := [(example_output 222)\<lparr>o_features := Coinbase\<rparr>],
       b_kernels := [\<lparr>k_features = CoinbaseKernel, k_excess = [1], k_excess_sig = [1]\<rparr>]\<rparr>\<rparr>"

lemma example_block_reward: "reward AutomatedTesting (h_height (b_header example_block)) 0 = 48828125"
  unfolding word_unat_eq_iff unat_reward_no_fee by (simp add: subsidy_def unat_halving_interval example_block_def)

lemma example_block_validate:
  "fst (block_validate AutomatedTesting id example_secp example_lru example_block [0] (verifier_cache_new example_lru)) = Inr [1]"
proof -
  let ?b = "b_body example_block"
  have fees: "total_fees example_block = 0"
    by (simp add: total_fees_def example_block_def body_fee_def body_empty_def)
  have overage: "header_overage AutomatedTesting (b_header example_block) = - 48828125"
    by (simp add: header_overage_def example_block_reward)
  have "body_weight_as_block ?b = 24"
    by (simp add: body_weight_as_block_def weight_as_block_def example_block_def body_empty_def usize_def sat_add_def sat_mul_def
        BLOCK_INPUT_WEIGHT_def BLOCK_OUTPUT_WEIGHT_def BLOCK_KERNEL_WEIGHT_def)
  moreover have "verify_sorted id ?b = Inr ()" "verify_cut_through id ?b = Inr ()" by code_simp+
  ultimately have read: "body_validate_read AutomatedTesting id ?b AsBlock = Inr ()"
    by (simp add: body_validate_read_def verify_weight_def max_block_weight_def)
  have "fst (body_validate AutomatedTesting id example_secp example_lru ?b AsBlock (verifier_cache_new example_lru)) = Inr ()"
    unfolding body_validate_def read by code_simp
  moreover have "body_validate_token_height AutomatedTesting ?b (h_height (b_header example_block)) = Inr ()" by code_simp
  moreover have "verify_kernel_lock_heights example_block = Inr ()" by code_simp
  moreover have "verify_coinbase AutomatedTesting example_secp example_block = Inr ()"
    unfolding verify_coinbase_def fees example_block_reward by code_simp
  moreover have "is_ok (verify_token_kernel_sum example_secp (body_committed ?b))" by code_simp
  moreover have "block_kernel_offset example_secp example_block [0] = Inr [0]" by code_simp
  moreover have "verify_kernel_sums example_secp (body_committed ?b) (- 48828125) [0] = Inr ([1], [1])" by code_simp
  ultimately show ?thesis
    by (auto simp: block_validate_def overage is_ok_eq split: prod.splits)
qed

lemma block_validate_conserves_witness:
  "fst (block_validate AutomatedTesting id example_secp example_lru example_block [0] (verifier_cache_new example_lru)) = Inr [1]
   \<and> vals byte_val (map o_commit (b_outputs (b_body example_block))) =
       vals byte_val (map k_excess (b_kernels (b_body example_block))) + of_nat (subsidy AutomatedTesting 1440)"
proof -
  have "block_kernel_offset example_secp example_block [0] = Inr [0]" "blinding_zero example_secp = [0]" by code_simp+
  then show ?thesis
    using block_validate_conserves [OF pedersen_example example_block_validate] example_block_validate
    by (simp add: example_block_def body_empty_def offset_val_def)
qed

lemma discard_eq_Inr: "(case z of Inl _ \<Rightarrow> Inl e | Inr _ \<Rightarrow> Inr x) = Inr y \<longleftrightarrow> z = Inr () \<and> x = y"
  for z :: "'e + unit"
  by (cases z) auto

text \<open>
  Claim C21. Reading a block off the network always returns, whatever the bytes: the search for a cycle in its proof of
  work ends and no nonce list is empty. A block it returns is not dated more than twelve blocks ahead, its body passes the
  checks of a read and, below the height of the merge-mined headers, its proof of work is a cycle and its version
  is the one of its height.
\<close>

theorem read_untrusted_block_total:
  "\<exists>res. read_untrusted_block C ct blake K now r = Some res \<and>
    (case res of Inl _ \<Rightarrow> True
     | Inr (b, _) \<Rightarrow> sint (h_timestamp (b_header b)) \<le> now + 12 * uint BLOCK_TIME_SEC
         \<and> body_validate_read ct blake (b_body b) AsBlock = Inr ()
         \<and> (refactor_header_height ct \<le> h_height (b_header b)
            \<or> valid_header_version ct (h_height (b_header b)) (h_version (b_header b))
              \<and> verify_size ct blake (b_header b) = Some (Inr ())))"
proof -
  obtain res where res: "read_untrusted_header C ct blake K now r = Some res"
    using read_untrusted_header_returns by blast
  have "sint (h_timestamp h) \<le> now + 12 * uint BLOCK_TIME_SEC
      \<and> (refactor_header_height ct \<le> h_height h
         \<or> valid_header_version ct (h_height h) (h_version h) \<and> verify_size ct blake h = Some (Inr ()))"
    if "res = Inr (h, r')" for h r'
    using res that
    by (cases "read_block_header C ct K r")
      (auto simp: read_untrusted_header_def discard_eq_Inr not_less not_le split: prod.splits if_split_asm)
  then show ?thesis
    by (auto simp: read_untrusted_block_def res rbind_eq_Inr discard_eq_Inr split: sum.split prod.splits)
qed

text \<open>
  Claim C20. A block that a read accepts comes back from its bytes: header, merge-mining data and body. Nothing
  after it is consumed, so blocks can follow each other in a stream.
\<close>

theorem block_roundtrip:
  assumes "block_wf C ct blake K (rd_version r) b"
  shows "read_block C ct blake K (adv r n (write_block ct FullMode (rd_version r) b @ rest))
    = Inr (b, adv r (n + length (write_block ct FullMode (rd_version r) b)) rest)"
  using assms by (rule blockc.rd_wr)

definition example_chrono :: chrono where
  "example_chrono = \<lparr>MAX_DATE_timestamp = 2 ^ 43, MIN_DATE_timestamp = - (2 ^ 43)\<rparr>"

lemma block_roundtrip_witness:
  "read_block example_chrono Floonet id example_sizes
      (adv (BinReader_new [] 2) 0 (write_block Floonet FullMode 2 (block_default example_secp) @ [7]))
    = Inr (block_default example_secp,
        adv (BinReader_new [] 2) (0 + length (write_block Floonet FullMode 2 (block_default example_secp))) [7])"
proof -
  have "body_readable Floonet id example_sizes body_empty"
    by (simp add: body_readable_def body_elements_ok_def body_empty_def body_sorted_def word_le_nat_alt
        body_weight_as_block_def unat_weight_as_block usize_def block_weight_def max_block_weight_def MAX_BLOCK_WEIGHT_def)
  moreover have "length (blinding_zero example_secp) = 1" by code_simp
  ultimately have "block_wf example_chrono Floonet id example_sizes 2 (block_default example_secp)"
    by (simp add: block_wf_def body_wf_def block_default_def block_header_default_def block_header_ok_def header_sizes_ok_def
        header_pow_ok_def header_tokens_ok_def example_chrono_def refactor_header_height_def support_token_height_def
        proof_of_work_ok_def proof_ok_def proof_of_work_default_def proof_zero_def min_edge_bits_def block_aux_data_ok_def
        aux_bit_header_ok_def block_aux_data_default_def aux_bit_header_default_def ZERO_HASH_def fixed_ok_def example_sizes_def
        hash_LEN_def proofsize_def list_all_iff word_le_nat_alt)
  with block_roundtrip [of example_chrono Floonet id example_sizes "BinReader_new [] 2" "block_default example_secp" 0 "[7]"]
  show ?thesis by (simp add: BinReader_new_def)
qed



end
