(* ===== verification/Compact_Block.thy ===== *)
theory Compact_Block
  imports Block
begin

text \<open>
  Compact blocks (\<open>core/src/core/compact_block.rs\<close>, \<open>core/src/core/id.rs\<close>): a block sent as its header, its
  coinbase elements and the short ids of its other kernels, and \<open>Block::hydrate_from\<close>, which rebuilds the block from the
  transactions a node already has. The keyed hash of the \<open>siphasher\<close> crate is the argument \<open>sip24\<close>.
\<close>

section \<open>Short ids\<close>

type_synonym short_id_t = bytes

definition SHORT_ID_SIZE :: nat where "SHORT_ID_SIZE = 6"

definition short_id_from_bytes :: "bytes \<Rightarrow> short_id_t" where
  "short_id_from_bytes bs =
    (let copy_size = min SHORT_ID_SIZE (length bs)
     in take copy_size bs @ replicate (SHORT_ID_SIZE - copy_size) 0)"

definition short_id_zero :: short_id_t where
  "short_id_zero = short_id_from_bytes [0]"

definition write_short_id :: "short_id_t \<Rightarrow> bytes" where
  "write_short_id i = i"

definition read_short_id :: "reader \<Rightarrow> short_id_t parse" where
  "read_short_id r = read_fixed_bytes r SHORT_ID_SIZE"

definition hash_short_id :: "(bytes \<Rightarrow> hash) \<Rightarrow> short_id_t \<Rightarrow> hash" where
  "hash_short_id blake i = blake (write_short_id i)"

text \<open>\<open>short_id\<close> of an element with hash \<open>h\<close>, for the block hash and the nonce of the connection.\<close>

definition short_id :: "(bytes \<Rightarrow> hash) \<Rightarrow> (u64 \<Rightarrow> u64 \<Rightarrow> bytes \<Rightarrow> u64) \<Rightarrow> hash \<Rightarrow> hash \<Rightarrow> u64 \<Rightarrow> short_id_t" where
  "short_id blake sip24 h block_hash nonce =
    (let hash_with_nonce = blake (write_hash block_hash @ write_u64 nonce);
         k0 = of_nat (le_val (take 8 hash_with_nonce));
         k1 = of_nat (le_val (take 8 (drop 8 hash_with_nonce)));
         res = sip24 k0 k1 h
     in short_id_from_bytes (take 6 (le_bytes 8 (unat res))))"

section \<open>Compact blocks\<close>

record compact_block_body =
  out_full :: "output_t list"
  kern_full :: "tx_kernel list"
  kern_ids :: "short_id_t list"

record compact_block =
  cb_header :: block_header
  cb_nonce :: u64
  cb_aux_data :: block_aux_data
  cb_body :: compact_block_body

definition compact_body_sort :: "(bytes \<Rightarrow> hash) \<Rightarrow> compact_block_body \<Rightarrow> compact_block_body" where
  "compact_body_sort blake b =
    \<lparr>out_full = sort_key (hash_output blake) (out_full b), kern_full = sort_key (hash_tx_kernel blake) (kern_full b),
     kern_ids = sort_key (hash_short_id blake) (kern_ids b)\<rparr>"

definition compact_verify_sorted :: "(bytes \<Rightarrow> hash) \<Rightarrow> compact_block_body \<Rightarrow> block_error + unit" where
  "compact_verify_sorted blake b = map_err SerializationErr (
    rbind (verify_sorted_and_unique (hash_output blake) (out_full b)) (\<lambda>_.
    rbind (verify_sorted_and_unique (hash_tx_kernel blake) (kern_full b)) (\<lambda>_.
    verify_sorted_and_unique (hash_short_id blake) (kern_ids b))))"

definition compact_body_init ::
  "(bytes \<Rightarrow> hash) \<Rightarrow> output_t list \<Rightarrow> tx_kernel list \<Rightarrow> short_id_t list \<Rightarrow> bool \<Rightarrow> block_error + compact_block_body" where
  "compact_body_init blake outs ks ids verify =
    (let body = \<lparr>out_full = outs, kern_full = ks, kern_ids = ids\<rparr>
     in if verify then rbind (compact_verify_sorted blake body) (\<lambda>_. Inr body)
        else Inr (compact_body_sort blake body))"

definition compact_validate_read :: "(bytes \<Rightarrow> hash) \<Rightarrow> compact_block \<Rightarrow> block_error + unit" where
  "compact_validate_read blake cb = compact_verify_sorted blake (cb_body cb)"

definition write_compact_body :: "serialization_mode \<Rightarrow> version \<Rightarrow> compact_block_body \<Rightarrow> bytes" where
  "write_compact_body mode v b = write_u64 (usize (out_full b)) @ write_u64 (usize (kern_full b)) @ write_u64 (usize (kern_ids b))
    @ write_vec (write_output mode) (out_full b) @ write_vec (write_tx_kernel mode v) (kern_full b)
    @ write_vec write_short_id (kern_ids b)"

definition read_compact_body :: "(bytes \<Rightarrow> hash) \<Rightarrow> secp_sizes \<Rightarrow> reader \<Rightarrow> compact_block_body parse" where
  "read_compact_body blake K r =
    rbind (read_u64 r) (\<lambda>(out_full_len, r).
    rbind (read_u64 r) (\<lambda>(kern_full_len, r).
    rbind (read_u64 r) (\<lambda>(kern_id_len, r).
    rbind (read_multi (read_output K) r out_full_len) (\<lambda>(outs, r).
    rbind (read_multi (read_tx_kernel K) r kern_full_len) (\<lambda>(ks, r).
    rbind (read_multi read_short_id r kern_id_len) (\<lambda>(ids, r).
    rbind (map_err (\<lambda>_. CorruptedData) (compact_body_init blake outs ks ids True)) (\<lambda>body.
      Inr (body, r))))))))"

definition write_compact_block :: "chain_types \<Rightarrow> serialization_mode \<Rightarrow> version \<Rightarrow> compact_block \<Rightarrow> bytes" where
  "write_compact_block ct mode v cb = write_block_header ct mode (cb_header cb)
    @ (if mode \<noteq> HashMode
       then write_u64 (cb_nonce cb)
         @ (if h_height (cb_header cb) < refactor_header_height ct then write_block_aux_data (cb_aux_data cb) else [])
         @ write_compact_body mode v (cb_body cb)
       else [])"

definition hash_compact_block :: "chain_types \<Rightarrow> (bytes \<Rightarrow> hash) \<Rightarrow> compact_block \<Rightarrow> hash" where
  "hash_compact_block ct blake cb = blake (write_compact_block ct HashMode version_local cb)"

definition read_compact_block ::
  "chrono \<Rightarrow> chain_types \<Rightarrow> (bytes \<Rightarrow> hash) \<Rightarrow> secp_sizes \<Rightarrow> reader \<Rightarrow> compact_block parse" where
  "read_compact_block C ct blake K r =
    rbind (read_block_header C ct K r) (\<lambda>(h, r).
    rbind (read_u64 r) (\<lambda>(nonce, r).
    rbind (read_aux_data ct h r) (\<lambda>(d, r).
    rbind (read_compact_body blake K r) (\<lambda>(body, r).
      Inr (\<lparr>cb_header = h, cb_nonce = nonce, cb_aux_data = d, cb_body = body\<rparr>, r)))))"

definition read_untrusted_compact_block ::
  "chrono \<Rightarrow> chain_types \<Rightarrow> (bytes \<Rightarrow> hash) \<Rightarrow> secp_sizes \<Rightarrow> int \<Rightarrow> reader \<Rightarrow> compact_block parse option" where
  "read_untrusted_compact_block C ct blake K now r =
    map_option (\<lambda>res.
      rbind res (\<lambda>(h, r).
      rbind (read_u64 r) (\<lambda>(nonce, r).
      rbind (read_aux_data ct h r) (\<lambda>(d, r).
      rbind (read_compact_body blake K r) (\<lambda>(body, r).
      let cb = \<lparr>cb_header = h, cb_nonce = nonce, cb_aux_data = d, cb_body = body\<rparr>
      in case compact_validate_read blake cb of
          Inl _ \<Rightarrow> Inl CorruptedData
        | Inr _ \<Rightarrow> Inr (cb, r))))))
     (read_untrusted_header C ct blake K now r)"

text \<open>\<open>CompactBlock::from\<close>, with the random nonce as an argument.\<close>

definition compact_from_block ::
  "chain_types \<Rightarrow> (bytes \<Rightarrow> hash) \<Rightarrow> (u64 \<Rightarrow> u64 \<Rightarrow> bytes \<Rightarrow> u64) \<Rightarrow> u64 \<Rightarrow> block \<Rightarrow> compact_block" where
  "compact_from_block ct blake sip24 nonce b =
    (let h = b_header b;
         outs = filter is_coinbase (b_outputs (b_body b));
         ks = filter is_coinbase_kernel (b_kernels (b_body b));
         ids = map (\<lambda>k. short_id blake sip24 (hash_tx_kernel blake k) (hash_block_header ct blake h) nonce)
                 (filter (\<lambda>k. \<not> is_coinbase_kernel k) (b_kernels (b_body b)))
     in \<lparr>cb_header = h, cb_nonce = nonce, cb_aux_data = b_aux_data b,
         cb_body = compact_body_sort blake \<lparr>out_full = outs, kern_full = ks, kern_ids = ids\<rparr>\<rparr>)"

text \<open>
  The \<open>HashSet\<close>s of \<open>Block::hydrate_from\<close> are kept as lists without repetition. The order in which a set
  is traversed does not matter: \<open>TransactionBody::init\<close> sorts by hash.
\<close>

definition hydrate_from :: "(bytes \<Rightarrow> hash) \<Rightarrow> compact_block \<Rightarrow> transaction list \<Rightarrow> block_error + block" where
  "hydrate_from blake cb txs =
    (let bodies = map tx_body txs;
         all_inputs = remdups (concat (map b_inputs bodies));
         all_outputs = remdups (concat (map b_outputs bodies) @ out_full (cb_body cb));
         all_kernels = remdups (concat (map b_kernels bodies) @ kern_full (cb_body cb));
         all_token_inputs = remdups (concat (map b_token_inputs bodies));
         all_token_outputs = remdups (concat (map b_token_outputs bodies));
         all_token_kernels = remdups (concat (map b_token_kernels bodies))
     in rbind (map_err TransactionErr
          (body_init blake all_inputs all_outputs all_kernels all_token_inputs all_token_outputs all_token_kernels False)) (\<lambda>body.
        block_cut_through blake \<lparr>b_header = cb_header cb, b_aux_data = cb_aux_data cb, b_body = body\<rparr>))"

section \<open>Encodings\<close>

definition compact_body_ok :: "(bytes \<Rightarrow> hash) \<Rightarrow> secp_sizes \<Rightarrow> compact_block_body \<Rightarrow> bool" where
  "compact_body_ok blake K b \<longleftrightarrow> compact_verify_sorted blake b = Inr ()
    \<and> list_all (output_ok K) (out_full b) \<and> list_all (tx_kernel_ok K) (kern_full b)
    \<and> list_all (\<lambda>i. length i = SHORT_ID_SIZE) (kern_ids b)
    \<and> length (out_full b) \<le> 1000000 \<and> length (kern_full b) \<le> 1000000 \<and> length (kern_ids b) \<le> 1000000"

definition compact_block_wf :: "chrono \<Rightarrow> chain_types \<Rightarrow> (bytes \<Rightarrow> hash) \<Rightarrow> secp_sizes \<Rightarrow> compact_block \<Rightarrow> bool" where
  "compact_block_wf C ct blake K cb \<longleftrightarrow> block_header_ok C ct K (cb_header cb) \<and> compact_body_ok blake K (cb_body cb)
    \<and> (if h_height (cb_header cb) \<ge> refactor_header_height ct then cb_aux_data cb = block_aux_data_default
       else block_aux_data_ok (cb_aux_data cb))"

interpretation short_idc: codec "\<lambda>_. write_short_id" read_short_id "\<lambda>_ i. length i = SHORT_ID_SIZE"
  by unfold_locales (simp add: read_short_id_def write_short_id_def SHORT_ID_SIZE_def)

lemma compact_body_init_self:
  "compact_verify_sorted blake b = Inr () \<Longrightarrow> compact_body_init blake (out_full b) (kern_full b) (kern_ids b) True = Inr b"
  by (cases b) (simp add: compact_body_init_def)

interpretation compact_bodyc: codec "write_compact_body FullMode" "read_compact_body blake K" "\<lambda>_. compact_body_ok blake K"
  for blake K
  by unfold_locales
    (simp add: read_compact_body_def write_compact_body_def compact_body_ok_def compact_body_init_self list_all_iff
      read_vec read_multi_usize [OF short_idc.codec_axioms] add.assoc)

interpretation compact_blockc: codec "write_compact_block ct FullMode" "read_compact_block C ct blake K"
  "\<lambda>_. compact_block_wf C ct blake K" for C ct blake K
proof (unfold_locales, goal_cases)
  case (1 r cb n rest)
  then show ?case
    by (cases cb; cases "h_height (cb_header cb) < refactor_header_height ct")
      (simp_all add: compact_block_wf_def read_compact_block_def write_compact_block_def read_aux_data_def block_headerc.rd_wr
        compact_bodyc.rd_wr block_aux_datac.rd_wr add.assoc not_less [symmetric])
qed

section \<open>Cut-through of bodies without repetitions\<close>

definition unspent :: "('a \<Rightarrow> hash) \<Rightarrow> ('b \<Rightarrow> hash) \<Rightarrow> 'b list \<Rightarrow> 'a list \<Rightarrow> 'a list" where
  "unspent ka kb ys xs = filter (\<lambda>x. ka x \<notin> kb ` set ys) xs"

definition cut_body :: "(bytes \<Rightarrow> hash) \<Rightarrow> transaction_body \<Rightarrow> transaction_body" where
  "cut_body blake b = body_sort blake (b
    \<lparr>b_inputs := unspent (hash_input blake) (hash_output blake) (b_outputs b) (b_inputs b),
     b_outputs := unspent (hash_output blake) (hash_input blake) (b_inputs b) (b_outputs b),
     b_token_inputs := unspent (hash_token_input blake) (hash_token_output blake) (b_token_outputs b) (b_token_inputs b),
     b_token_outputs := unspent (hash_token_output blake) (hash_token_input blake) (b_token_inputs b) (b_token_outputs b)\<rparr>)"

definition body_distinct :: "(bytes \<Rightarrow> hash) \<Rightarrow> transaction_body \<Rightarrow> bool" where
  "body_distinct blake b \<longleftrightarrow> distinct (map (hash_input blake) (b_inputs b)) \<and> distinct (map (hash_output blake) (b_outputs b))
    \<and> distinct (map (hash_tx_kernel blake) (b_kernels b)) \<and> distinct (map (hash_token_input blake) (b_token_inputs b))
    \<and> distinct (map (hash_token_output blake) (b_token_outputs b))
    \<and> distinct (map (hash_token_tx_kernel blake) (b_token_kernels b))"

definition token_pairs_ok :: "(bytes \<Rightarrow> hash) \<Rightarrow> token_input list \<Rightarrow> token_output list \<Rightarrow> bool" where
  "token_pairs_ok blake tins touts \<longleftrightarrow> (\<forall>x \<in> set tins. \<forall>y \<in> set touts.
     hash_token_input blake x = hash_token_output blake y \<longrightarrow> ti_token_type x = to_token_type y)"

lemma unspent_simps [simp]:
  "unspent ka kb ys [] = []"
  "unspent ka kb [] xs = xs"
  "unspent ka kb ys (x # xs) = (if ka x \<in> kb ` set ys then unspent ka kb ys xs else x # unspent ka kb ys xs)"
  "kb y \<notin> ka ` set xs \<Longrightarrow> unspent ka kb (y # ys) xs = unspent ka kb ys xs"
  by (auto simp: unspent_def image_iff intro!: filter_cong)

lemma set_unspent: "set (unspent ka kb ys xs) = {x \<in> set xs. ka x \<notin> kb ` set ys}"
  by (simp add: unspent_def)

lemma sort_key_sets:
  assumes "distinct (map k xs)" "distinct (map k ys)" "set xs = set ys"
  shows "sort_key k xs = sort_key (k :: 'a \<Rightarrow> hash) ys"
proof -
  have "mset xs = mset (sort_key k ys)" using assms by (metis distinct_map set_eq_iff_mset_eq_distinct mset_sort)
  moreover have "inj_on k (set xs)" using assms(1) by (simp add: distinct_map)
  ultimately show ?thesis by (rule sort_key_inj_key_eq) simp
qed

lemma cut_distinct:
  assumes "sorted_wrt (<) (map hi xs)" "sorted_wrt (<) (map ho ys)"
  shows "cut hi ho chk xs ys = Inr (a, b) \<longleftrightarrow>
    (\<forall>x \<in> set xs. \<forall>y \<in> set ys. hi x = ho y \<longrightarrow> chk x y) \<and> a = unspent hi ho ys xs \<and> b = unspent ho hi xs ys"
  using assms
proof (induction hi ho chk xs ys arbitrary: a b rule: cut.induct)
  case (1 hi ho chk x xs y ys)
  have x: "hi x \<notin> hi ` set xs" and y: "ho y \<notin> ho ` set ys" using "1.prems" by auto
  show ?case
  proof (cases rule: cmp_cases [of "hi x" "ho y"])
    case lt
    have "hi x \<notin> ho ` set (y # ys)" using lt "1.prems"(2) by force
    moreover from this have "\<forall>z \<in> set (y # ys). hi x = ho z \<longrightarrow> chk x z" by auto
    ultimately show ?thesis using lt "1.IH"(1) [OF lt] "1.prems"
      by (auto simp: rbind_eq_Inr simp del: unspent_simps(3)) (simp_all add: unspent_simps(3))
  next
    case gt
    have "ho y \<notin> hi ` set (x # xs)" using gt "1.prems"(1) by force
    moreover from this have "\<forall>z \<in> set (x # xs). hi z = ho y \<longrightarrow> chk z y" by (metis imageI)
    ultimately show ?thesis using gt "1.IH"(2) [OF gt] "1.prems"
      by (auto simp: rbind_eq_Inr simp del: unspent_simps(3)) (simp_all add: unspent_simps(3))
  next
    case eq
    then show ?thesis using "1.IH"(3) "1.prems" x y by (auto simp: image_iff)
  qed
qed auto

lemma sorted_sort_key_distinct: "distinct (map k xs) \<Longrightarrow> sorted_wrt (<) (map k (sort_key (k :: 'a \<Rightarrow> hash) xs))"
  by (metis mset_eq_imp_distinct_iff mset_map mset_sort sorted_sort_key strict_sorted_iff)

lemma distinct_unspent: "distinct (map k xs) \<Longrightarrow> distinct (map k (unspent k kb ys xs))"
  by (simp add: unspent_def distinct_map_filter)

lemma unspent_sort [simp]:
  "unspent ka kb (sort_key k ys) xs = unspent ka kb ys xs"
  "unspent ka kb ys (sort_key ka xs) = sort_key ka (unspent ka kb ys xs)"
  by (simp_all add: unspent_def filter_sort)

lemma sort_key_sort_key [simp]: "sort_key k (sort_key k xs) = sort_key (k :: 'a \<Rightarrow> hash) xs"
  by (simp add: sort_key_id_if_sorted)

lemma body_sort_body_sort [simp]: "body_sort blake (body_sort blake b) = body_sort blake b"
  by (simp add: body_sort_def)

lemma cut_through_distinct:
  assumes "distinct (map (hash_input blake) ins)" "distinct (map (hash_output blake) outs)"
    "distinct (map (hash_token_input blake) tins)" "distinct (map (hash_token_output blake) touts)"
  shows "cut_through blake ins outs tins touts = Inr (a, b, c, d) \<longleftrightarrow> token_pairs_ok blake tins touts
    \<and> a = sort_key (hash_input blake) (unspent (hash_input blake) (hash_output blake) outs ins)
    \<and> b = sort_key (hash_output blake) (unspent (hash_output blake) (hash_input blake) ins outs)
    \<and> c = sort_key (hash_token_input blake) (unspent (hash_token_input blake) (hash_token_output blake) touts tins)
    \<and> d = sort_key (hash_token_output blake) (unspent (hash_token_output blake) (hash_token_input blake) tins touts)"
proof -
  note sorted = assms [THEN sorted_sort_key_distinct]
  show ?thesis
    using assms by (auto simp: cut_through_eq rbind_eq_Inr cut_distinct [OF sorted(1,2)] cut_distinct [OF sorted(3,4)] token_pairs_ok_def cut_no_check
        split: sum.splits)
qed

lemma block_cut_through_distinct:
  assumes "body_distinct blake (b_body b)"
  shows "block_cut_through blake b = Inr b' \<longleftrightarrow>
    token_pairs_ok blake (b_token_inputs (b_body b)) (b_token_outputs (b_body b)) \<and> b' = b\<lparr>b_body := cut_body blake (b_body b)\<rparr>"
  using assms
  by (cases b) (auto simp: block_cut_through_def body_distinct_def rbind_eq_Inr cut_through_distinct body_init_def cut_body_def
      body_sort_def)

section \<open>Hydration\<close>

definition txs_body :: "transaction list \<Rightarrow> transaction_body" where
  "txs_body txs = (let bodies = map tx_body txs in
    \<lparr>b_inputs = concat (map b_inputs bodies), b_token_inputs = concat (map b_token_inputs bodies),
     b_outputs = concat (map b_outputs bodies), b_token_outputs = concat (map b_token_outputs bodies),
     b_kernels = concat (map b_kernels bodies), b_token_kernels = concat (map b_token_kernels bodies)\<rparr>)"

lemma mset_insert_sorted:
  assumes "key x \<notin> key ` set xs"
  shows "mset (insert_sorted key x xs) = mset (x # xs)"
proof -
  have "key y \<noteq> key x" if "y \<in> set xs" for y using assms imageI [OF that, of key] by (intro notI) simp
  then have "\<not> list_ex (\<lambda>y. key y = key x) xs" by (simp add: list_ex_iff)
  moreover have "mset (takeWhile P xs) + mset (dropWhile P xs) = mset xs" for P
    by (simp flip: mset_append)
  ultimately show ?thesis by (simp add: insert_sorted_def)
qed

lemma set_insert_sorted: "key x \<notin> key ` set xs \<Longrightarrow> set (insert_sorted key x xs) = insert x (set xs)"
  using mset_eq_setD [OF mset_insert_sorted] by fastforce

lemma distinct_insert_sorted:
  "key x \<notin> key ` set xs \<Longrightarrow> distinct (map key (insert_sorted key x xs)) \<longleftrightarrow> distinct (map key xs)"
  using mset_eq_imp_distinct_iff [of "map key (insert_sorted key x xs)" "map key (x # xs)"] mset_insert_sorted [of key x xs]
  by simp

lemma body_distinct_cut_body: "body_distinct blake b \<Longrightarrow> body_distinct blake (cut_body blake b)"
  by (auto simp: body_distinct_def cut_body_def body_sort_def distinct_map unspent_def inj_on_def)

lemma cut_body_eqI:
  assumes "body_distinct blake a" "body_distinct blake b"
    "set (b_inputs (cut_body blake a)) = set (b_inputs (cut_body blake b))"
    "set (b_outputs (cut_body blake a)) = set (b_outputs (cut_body blake b))"
    "set (b_token_inputs (cut_body blake a)) = set (b_token_inputs (cut_body blake b))"
    "set (b_token_outputs (cut_body blake a)) = set (b_token_outputs (cut_body blake b))"
    "set (b_kernels a) = set (b_kernels b)" "set (b_token_kernels a) = set (b_token_kernels b)"
  shows "cut_body blake a = cut_body blake b"
  using assms
  by (auto simp: cut_body_def body_sort_def body_distinct_def intro!: sort_key_sets distinct_unspent)

lemma aggregate_cut:
  assumes "aggregate S blake txs = Inr agg" "body_distinct blake (txs_body txs)"
  shows "tx_body agg = txs_body txs
    \<or> token_pairs_ok blake (b_token_inputs (txs_body txs)) (b_token_outputs (txs_body txs)) \<and> tx_body agg = cut_body blake (txs_body txs)"
proof -
  consider "txs = []" | t where "txs = [t]" | "txs \<noteq> []" "length txs \<noteq> 1"
    by (metis One_nat_def length_0_conv length_Suc_conv)
  then show ?thesis
  proof cases
    case 1
    then show ?thesis using assms(1) by (auto simp: aggregate_def tx_empty_def body_empty_def txs_body_def)
  next
    case 2
    then show ?thesis using assms(1) by (auto simp: aggregate_def txs_body_def)
  next
    case 3
    then show ?thesis using assms
      by (auto simp: aggregate_def Let_def rbind_eq_Inr txs_body_def body_distinct_def cut_through_distinct with_offset_def tx_new_body
          cut_body_def body_sort_def)
  qed
qed

text \<open>
  What the miner of a block sees to: no element of its transactions, nor the reward, is there twice, none of the
  transactions has a coinbase element, and none spends the reward.
\<close>

definition mineable :: "(bytes \<Rightarrow> hash) \<Rightarrow> transaction list \<Rightarrow> output_t \<Rightarrow> tx_kernel \<Rightarrow> bool" where
  "mineable blake txs reward_out reward_kern \<longleftrightarrow> body_distinct blake (txs_body txs)
    \<and> is_coinbase reward_out \<and> is_coinbase_kernel reward_kern
    \<and> list_all (\<lambda>x. \<not> is_coinbase x \<and> hash_output blake x \<noteq> hash_output blake reward_out) (b_outputs (txs_body txs))
    \<and> list_all (\<lambda>k. \<not> is_coinbase_kernel k \<and> hash_tx_kernel blake k \<noteq> hash_tx_kernel blake reward_kern) (b_kernels (txs_body txs))
    \<and> list_all (\<lambda>x. hash_input blake x \<noteq> hash_output blake reward_out) (b_inputs (txs_body txs))"

definition with_rewards :: "output_t \<Rightarrow> tx_kernel \<Rightarrow> transaction_body \<Rightarrow> transaction_body" where
  "with_rewards reward_out reward_kern b = b\<lparr>b_outputs := reward_out # b_outputs b, b_kernels := reward_kern # b_kernels b\<rparr>"

lemma set_cut_body:
  "set (b_inputs (cut_body blake b)) = {x \<in> set (b_inputs b). hash_input blake x \<notin> hash_output blake ` set (b_outputs b)}"
  "set (b_outputs (cut_body blake b)) = {x \<in> set (b_outputs b). hash_output blake x \<notin> hash_input blake ` set (b_inputs b)}"
  "set (b_token_inputs (cut_body blake b)) =
     {x \<in> set (b_token_inputs b). hash_token_input blake x \<notin> hash_token_output blake ` set (b_token_outputs b)}"
  "set (b_token_outputs (cut_body blake b)) =
     {x \<in> set (b_token_outputs b). hash_token_output blake x \<notin> hash_token_input blake ` set (b_token_inputs b)}"
  "set (b_kernels (cut_body blake b)) = set (b_kernels b)"
  "set (b_token_kernels (cut_body blake b)) = set (b_token_kernels b)"
  by (simp_all add: cut_body_def body_sort_def set_unspent)

lemma mineable_hashes:
  assumes "mineable blake txs reward_out reward_kern"
  shows "hash_output blake reward_out \<notin> hash_output blake ` set (b_outputs (txs_body txs))"
    "hash_output blake reward_out \<notin> hash_input blake ` set (b_inputs (txs_body txs))"
    "hash_tx_kernel blake reward_kern \<notin> hash_tx_kernel blake ` set (b_kernels (txs_body txs))"
  using assms by (auto simp: mineable_def list_all_iff image_iff)

lemma miner_body:
  assumes "mineable blake txs reward_out reward_kern"
    "A = txs_body txs \<or> A = cut_body blake (txs_body txs)"
  shows "cut_body blake (body_with_kernel blake reward_kern (body_with_output blake reward_out A))
      = cut_body blake (with_rewards reward_out reward_kern (txs_body txs))" (is "cut_body _ ?a = cut_body _ ?b")
    and "body_distinct blake (body_with_kernel blake reward_kern (body_with_output blake reward_out A))"
    and "body_distinct blake (with_rewards reward_out reward_kern (txs_body txs))"
proof -
  note fresh = mineable_hashes [OF assms(1)]
  have U: "body_distinct blake (txs_body txs)" using assms(1) by (simp add: mineable_def)
  then have A: "body_distinct blake A" using assms(2) body_distinct_cut_body by blast
  have freshA: "hash_output blake reward_out \<notin> hash_output blake ` set (b_outputs A)"
    "hash_tx_kernel blake reward_kern \<notin> hash_tx_kernel blake ` set (b_kernels A)"
    using assms(2) fresh by (auto simp: set_cut_body)
  note sets = set_insert_sorted [OF freshA(1)] set_insert_sorted [OF freshA(2)]
  show a: "body_distinct blake ?a"
    using A by (simp add: body_distinct_def body_with_kernel_def body_with_output_def distinct_insert_sorted [OF freshA(1)]
        distinct_insert_sorted [OF freshA(2)])
  show b: "body_distinct blake ?b"
    using U fresh by (simp add: body_distinct_def with_rewards_def)
  show "cut_body blake ?a = cut_body blake ?b"
  proof (rule cut_body_eqI [OF a b])
    show "set (b_inputs (cut_body blake ?a)) = set (b_inputs (cut_body blake ?b))"
      using assms(2) fresh by (auto simp: set_cut_body body_with_kernel_def body_with_output_def with_rewards_def sets)
    show "set (b_outputs (cut_body blake ?a)) = set (b_outputs (cut_body blake ?b))"
      using assms(2) fresh by (auto simp: set_cut_body body_with_kernel_def body_with_output_def with_rewards_def sets)
    show "set (b_token_inputs (cut_body blake ?a)) = set (b_token_inputs (cut_body blake ?b))"
      using assms(2) by (auto simp: set_cut_body body_with_kernel_def body_with_output_def with_rewards_def)
    show "set (b_token_outputs (cut_body blake ?a)) = set (b_token_outputs (cut_body blake ?b))"
      using assms(2) by (auto simp: set_cut_body body_with_kernel_def body_with_output_def with_rewards_def)
    show "set (b_kernels ?a) = set (b_kernels ?b)"
      using assms(2) by (auto simp: set_cut_body body_with_kernel_def body_with_output_def with_rewards_def sets)
    show "set (b_token_kernels ?a) = set (b_token_kernels ?b)"
      using assms(2) by (auto simp: set_cut_body body_with_kernel_def body_with_output_def with_rewards_def)
  qed
qed

definition hydrated :: "compact_block \<Rightarrow> transaction list \<Rightarrow> transaction_body" where
  "hydrated cb txs = (let b = txs_body txs in
    \<lparr>b_inputs = remdups (b_inputs b), b_token_inputs = remdups (b_token_inputs b),
     b_outputs = remdups (b_outputs b @ out_full (cb_body cb)), b_token_outputs = remdups (b_token_outputs b),
     b_kernels = remdups (b_kernels b @ kern_full (cb_body cb)), b_token_kernels = remdups (b_token_kernels b)\<rparr>)"

lemma hydrate_from_eq:
  "hydrate_from blake cb txs = block_cut_through blake
    \<lparr>b_header = cb_header cb, b_aux_data = cb_aux_data cb, b_body = body_sort blake (hydrated cb txs)\<rparr>"
  by (simp add: hydrate_from_def hydrated_def txs_body_def body_init_def Let_def)

lemma set_txs_body:
  assumes "set txs' = set txs"
  shows "set (b_inputs (txs_body txs')) = set (b_inputs (txs_body txs))"
    "set (b_outputs (txs_body txs')) = set (b_outputs (txs_body txs))"
    "set (b_kernels (txs_body txs')) = set (b_kernels (txs_body txs))"
    "set (b_token_inputs (txs_body txs')) = set (b_token_inputs (txs_body txs))"
    "set (b_token_outputs (txs_body txs')) = set (b_token_outputs (txs_body txs))"
    "set (b_token_kernels (txs_body txs')) = set (b_token_kernels (txs_body txs))"
  using assms by (simp_all add: txs_body_def Let_def)

lemma distinct_map_remdups: "distinct (map k (remdups xs)) \<longleftrightarrow> inj_on k (set xs)"
  by (simp add: distinct_map)

lemma hydrated_body:
  assumes "mineable blake txs reward_out reward_kern" "set txs' = set txs"
    "set (out_full (cb_body cb)) = {reward_out}" "set (kern_full (cb_body cb)) = {reward_kern}"
  shows "body_distinct blake (body_sort blake (hydrated cb txs'))" (is "body_distinct _ ?h")
    and "cut_body blake (body_sort blake (hydrated cb txs')) = cut_body blake (with_rewards reward_out reward_kern (txs_body txs))"
proof -
  have B: "body_distinct blake (with_rewards reward_out reward_kern (txs_body txs))"
    using miner_body(3) [OF assms(1)] by blast
  note sets = set_txs_body [OF assms(2)] assms(3,4)
  show h: "body_distinct blake ?h"
    using B by (auto simp: body_distinct_def body_sort_def hydrated_def with_rewards_def Let_def distinct_map sets)
  show "cut_body blake ?h = cut_body blake (with_rewards reward_out reward_kern (txs_body txs))"
    by (rule cut_body_eqI [OF h B])
      (simp_all add: set_cut_body body_sort_def hydrated_def with_rewards_def Let_def sets)
qed

lemma compact_coinbase:
  assumes "mineable blake txs reward_out reward_kern"
    "b_body b = cut_body blake (with_rewards reward_out reward_kern (txs_body txs))"
  shows "set (out_full (cb_body (compact_from_block ct blake sip24 nonce b))) = {reward_out}"
    "set (kern_full (cb_body (compact_from_block ct blake sip24 nonce b))) = {reward_kern}"
  using assms mineable_hashes [OF assms(1)]
  by (auto simp: compact_from_block_def compact_body_sort_def Let_def set_cut_body with_rewards_def mineable_def list_all_iff)

text \<open>
  Claim C10. A compact block is as good as the block: a node that holds the transactions a miner put in a block, in any
  order and possibly more than once, rebuilds from the compact block exactly the block of the miner, whatever the nonce of
  the short ids.
\<close>

theorem hydrate_miner_block:
  assumes "from_reward ct S blake now prev txs reward_out reward_kern difficulty = Inr b"
    "mineable blake txs reward_out reward_kern" "set txs' = set txs"
  shows "hydrate_from blake (compact_from_block ct blake sip24 nonce b) txs' = Inr b"
proof -
  obtain agg h where agg: "aggregate S blake txs = Inr agg"
    and cut: "block_cut_through blake \<lparr>b_header = h, b_aux_data = block_aux_data_default,
        b_body = tx_body (tx_with_kernel blake reward_kern (tx_with_output blake reward_out agg))\<rparr> = Inr b"
    using assms(1) by (auto simp: from_reward_def rbind_eq_Inr Let_def)
  let ?U = "with_rewards reward_out reward_kern (txs_body txs)"
  have A: "tx_body agg = txs_body txs \<or> token_pairs_ok blake (b_token_inputs (txs_body txs)) (b_token_outputs (txs_body txs))
      \<and> tx_body agg = cut_body blake (txs_body txs)"
    using aggregate_cut [OF agg] assms(2) by (simp add: mineable_def)
  then have "tx_body agg = txs_body txs \<or> tx_body agg = cut_body blake (txs_body txs)" by blast
  note miner = miner_body [OF assms(2) this]
  have b: "b = \<lparr>b_header = h, b_aux_data = block_aux_data_default, b_body = cut_body blake ?U\<rparr>"
    and pairs: "token_pairs_ok blake (b_token_inputs (tx_body agg)) (b_token_outputs (tx_body agg))"
    using cut miner by (auto simp: block_cut_through_distinct tx_with_kernel_def tx_with_output_def body_with_kernel_def
        body_with_output_def)
  let ?cb = "compact_from_block ct blake sip24 nonce b"
  have "b_body b = cut_body blake ?U" by (simp add: b)
  note hyd = hydrated_body [OF assms(2,3) compact_coinbase [OF assms(2) this]]
  have "token_pairs_ok blake (b_token_inputs (txs_body txs)) (b_token_outputs (txs_body txs))" using A pairs by auto
  then have "token_pairs_ok blake (b_token_inputs (body_sort blake (hydrated ?cb txs'))) (b_token_outputs (body_sort blake (hydrated ?cb txs')))"
    by (simp add: token_pairs_ok_def body_sort_def hydrated_def Let_def set_txs_body [OF assms(3)])
  then show ?thesis
    using hyd by (simp add: hydrate_from_eq block_cut_through_distinct) (simp add: b compact_from_block_def Let_def)
qed

lemma hydrate_miner_block_witness:
  "\<exists>b. from_reward AutomatedTesting example_secp id 0 (block_header_default example_secp) [example_tx 1 2, example_tx 2 3]
        ((example_output 222)\<lparr>o_features := Coinbase\<rparr>) \<lparr>k_features = CoinbaseKernel, k_excess = [1], k_excess_sig = [1]\<rparr> 1 = Inr b
     \<and> hydrate_from id (compact_from_block AutomatedTesting id (\<lambda>_ _ _. 7) 3 b) [example_tx 2 3, example_tx 1 2] = Inr b"
  (is "\<exists>b. from_reward _ _ _ _ ?prev ?txs ?out ?kern _ = Inr b \<and> _")
proof -
  let ?agg = "tx_with_kernel id ?kern (tx_with_output id ?out (example_tx 1 3))"
  have m: "mineable id ?txs ?out ?kern" by code_simp
  have "h_total_kernel_offset ?prev = blinding_zero example_secp" by (simp add: block_header_default_def)
  moreover have "tx_offset ?agg = [0]" by (simp add: tx_with_kernel_def tx_with_output_def example_tx_def)
  moreover have "is_ok (sum_kernel_offsets example_secp [[0], blinding_zero example_secp] [])" by code_simp
  moreover have agg: "aggregate example_secp id ?txs = Inr (example_tx 1 3)" by code_simp
  have d: "body_distinct id (tx_body ?agg)"
    using miner_body(2) [OF m, of "tx_body (example_tx 1 3)"] aggregate_cut [OF agg] m
    by (auto simp: mineable_def tx_with_kernel_def tx_with_output_def)
  have "b_token_inputs (tx_body ?agg) = []"
    by (simp add: tx_with_kernel_def tx_with_output_def body_with_kernel_def body_with_output_def example_tx_def body_empty_def)
  then have "\<exists>b. block_cut_through id \<lparr>b_header = h, b_aux_data = block_aux_data_default, b_body = tx_body ?agg\<rparr> = Inr b" for h
    using d by (simp add: block_cut_through_distinct token_pairs_ok_def)
  ultimately obtain b where b: "from_reward AutomatedTesting example_secp id 0 ?prev ?txs ?out ?kern 1 = Inr b"
    using agg by (fastforce simp: from_reward_def is_ok_eq Let_def)
  then show ?thesis using hydrate_miner_block [OF b m, of "[example_tx 2 3, example_tx 1 2]"] by auto
qed

end
