(* ===== verification/Pmmr.thy ===== *)
theory Pmmr
  imports Pmmr_Pos Ser
begin

text \<open>
  The prunable Merkle Mountain Range, \<open>core/src/core/pmmr/\<close>. The \<open>Backend\<close> trait is a record of
  operations over an arbitrary storage state; \<open>PMMR\<close>, \<open>ReadonlyPMMR\<close> and \<open>RewindablePMMR\<close> are
  functions that take such a record, and \<open>VecBackend\<close> is one. The locale \<open>mmr_storage\<close> states what
  the range needs from its storage; the lemmas inside relate every operation to a reference model, in
  which the hash of the node with coordinates \<open>(h, j)\<close> is defined by recursion on \<open>h\<close> over the list of
  leaves. The digest \<open>blake\<close> and the serialization \<open>ser\<close> of the elements are parameters.
\<close>

section \<open>Backends\<close>

datatype pmmr_error =
    NotALeaf nat
  | NoElementAt nat
  | BadMmrSize nat
  | MissingLeftSibling
  | InvalidMmr nat
  | NoRoot
  | BackendErr string

record ('b, 't, 'e) backend_ops =
  be_append :: "'b \<Rightarrow> 't \<Rightarrow> hash list \<Rightarrow> string + 'b"
  be_rewind :: "'b \<Rightarrow> nat \<Rightarrow> nat set \<Rightarrow> string + 'b"
  be_get_hash :: "'b \<Rightarrow> nat \<Rightarrow> hash option"
  be_get_data :: "'b \<Rightarrow> nat \<Rightarrow> 'e option"
  be_get_from_file :: "'b \<Rightarrow> nat \<Rightarrow> hash option"
  be_get_data_from_file :: "'b \<Rightarrow> nat \<Rightarrow> 'e option"
  be_leaf_pos_iter :: "'b \<Rightarrow> nat list"
  be_leaf_idx_iter :: "'b \<Rightarrow> nat \<Rightarrow> nat list"
  be_remove :: "'b \<Rightarrow> nat \<Rightarrow> string + 'b"

record 't vec_backend =
  vb_data :: "'t list option"
  vb_hashes :: "hash list"
  vb_removed :: "nat set"

definition vec_new :: "'t vec_backend" where
  "vec_new = \<lparr>vb_data = Some [], vb_hashes = [], vb_removed = {}\<rparr>"

definition vec_new_hash_only :: "'t vec_backend" where
  "vec_new_hash_only = \<lparr>vb_data = None, vb_hashes = [], vb_removed = {}\<rparr>"

definition vec_append :: "'t vec_backend \<Rightarrow> 't \<Rightarrow> hash list \<Rightarrow> string + 't vec_backend" where
  "vec_append b elmt hashes =
    (let b1 = (case vb_data b of Some d \<Rightarrow> b\<lparr>vb_data := Some (d @ [elmt])\<rparr> | None \<Rightarrow> b)
     in Inr (b1\<lparr>vb_hashes := vb_hashes b1 @ hashes\<rparr>))"

definition vec_get_from_file :: "'t vec_backend \<Rightarrow> nat \<Rightarrow> hash option" where
  "vec_get_from_file b position = vec_get (vb_hashes b) (position - 1)"

definition vec_get_hash :: "'t vec_backend \<Rightarrow> nat \<Rightarrow> hash option" where
  "vec_get_hash b position =
    (if position \<in> vb_removed b then None else vec_get_from_file b position)"

definition vec_get_data_from_file :: "('t \<Rightarrow> 'e) \<Rightarrow> 't vec_backend \<Rightarrow> nat \<Rightarrow> 'e option" where
  "vec_get_data_from_file as_elmt b position =
    (case vb_data b of
       Some d \<Rightarrow> map_option as_elmt (vec_get d (n_leaves position - 1))
     | None \<Rightarrow> None)"

definition vec_get_data :: "('t \<Rightarrow> 'e) \<Rightarrow> 't vec_backend \<Rightarrow> nat \<Rightarrow> 'e option" where
  "vec_get_data as_elmt b position =
    (if position \<in> vb_removed b then None else vec_get_data_from_file as_elmt b position)"

definition vec_leaf_pos_iter :: "'t vec_backend \<Rightarrow> nat list" where
  "vec_leaf_pos_iter b =
    filter (\<lambda>x. is_leaf x \<and> x \<notin> vb_removed b) (map Suc [0..<length (vb_hashes b)])"

definition vec_leaf_idx_iter :: "'t vec_backend \<Rightarrow> nat \<Rightarrow> nat list" where
  "vec_leaf_idx_iter b from_idx =
    (let from_pos = insertion_to_pmmr_index (from_idx + 1)
     in map (\<lambda>x. n_leaves x - 1) (dropWhile (\<lambda>x. x < from_pos) (vec_leaf_pos_iter b)))"

definition vec_remove :: "'t vec_backend \<Rightarrow> nat \<Rightarrow> string + 't vec_backend" where
  "vec_remove b position = Inr (b\<lparr>vb_removed := insert position (vb_removed b)\<rparr>)"

definition vec_rewind :: "'t vec_backend \<Rightarrow> nat \<Rightarrow> nat set \<Rightarrow> string + 't vec_backend" where
  "vec_rewind b position rewind_rm_pos =
    (let b1 = (case vb_data b of Some d \<Rightarrow> b\<lparr>vb_data := Some (take (n_leaves position) d)\<rparr> | None \<Rightarrow> b)
     in Inr (b1\<lparr>vb_hashes := take position (vb_hashes b1)\<rparr>))"

definition vec_size :: "'t vec_backend \<Rightarrow> nat" where
  "vec_size b = length (vb_hashes b)"

definition vec_ops :: "('t \<Rightarrow> 'e) \<Rightarrow> ('t vec_backend, 't, 'e) backend_ops" where
  "vec_ops as_elmt = \<lparr>be_append = vec_append, be_rewind = vec_rewind, be_get_hash = vec_get_hash,
     be_get_data = vec_get_data as_elmt, be_get_from_file = vec_get_from_file,
     be_get_data_from_file = vec_get_data_from_file as_elmt,
     be_leaf_pos_iter = vec_leaf_pos_iter, be_leaf_idx_iter = vec_leaf_idx_iter,
     be_remove = vec_remove\<rparr>"

section \<open>The range\<close>

record 'b pmmr =
  last_pos :: nat
  backend :: 'b

definition pmmr_new :: "'b \<Rightarrow> 'b pmmr" where
  "pmmr_new b = \<lparr>last_pos = 0, backend = b\<rparr>"

definition pmmr_at :: "'b \<Rightarrow> nat \<Rightarrow> 'b pmmr" where
  "pmmr_at b pos = \<lparr>last_pos = pos, backend = b\<rparr>"

definition is_empty :: "'b pmmr \<Rightarrow> bool" where
  "is_empty pm \<longleftrightarrow> last_pos pm = 0"

definition unpruned_size :: "'b pmmr \<Rightarrow> nat" where
  "unpruned_size pm = last_pos pm"

definition pmmr_peaks :: "('b, 't, 'e) backend_ops \<Rightarrow> 'b pmmr \<Rightarrow> hash list" where
  "pmmr_peaks ops pm = filter_map (be_get_from_file ops (backend pm)) (peaks (last_pos pm))"

text \<open>The loop over the reversed peaks that both \<open>bag_the_rhs\<close> and \<open>root\<close> run.\<close>

definition bag_step :: "(bytes \<Rightarrow> hash) \<Rightarrow> nat \<Rightarrow> hash option \<Rightarrow> hash \<Rightarrow> hash option" where
  "bag_step blake sz res peak =
    (case res of
       None \<Rightarrow> Some peak
     | Some rhash \<Rightarrow> Some (hash_with_index blake (write_hash peak @ write_hash rhash) sz))"

definition bag_the_rhs :: "('b, 't, 'e) backend_ops \<Rightarrow> (bytes \<Rightarrow> hash) \<Rightarrow> 'b pmmr \<Rightarrow> nat \<Rightarrow> hash option" where
  "bag_the_rhs ops blake pm peak_pos =
    (let rhs = filter_map (be_get_from_file ops (backend pm))
                 (filter (\<lambda>x. x > peak_pos) (peaks (last_pos pm)))
     in foldl (bag_step blake (unpruned_size pm)) None (rev rhs))"

definition root :: "('b, 't, 'e) backend_ops \<Rightarrow> (bytes \<Rightarrow> hash) \<Rightarrow> 'b pmmr \<Rightarrow> pmmr_error + hash" where
  "root ops blake pm =
    (if is_empty pm then Inr ZERO_HASH
     else case foldl (bag_step blake (unpruned_size pm)) None (rev (pmmr_peaks ops pm)) of
            None \<Rightarrow> Inl NoRoot
          | Some h \<Rightarrow> Inr h)"

definition peak_path :: "('b, 't, 'e) backend_ops \<Rightarrow> (bytes \<Rightarrow> hash) \<Rightarrow> 'b pmmr \<Rightarrow> nat \<Rightarrow> hash list" where
  "peak_path ops blake pm peak_pos =
    (let rhs = bag_the_rhs ops blake pm peak_pos;
         res = filter_map (be_get_from_file ops (backend pm))
                 (filter (\<lambda>x. x < peak_pos) (peaks (last_pos pm)));
         res' = (case rhs of Some h \<Rightarrow> res @ [h] | None \<Rightarrow> res)
     in rev res')"

definition pmmr_get_hash :: "('b, 't, 'e) backend_ops \<Rightarrow> 'b pmmr \<Rightarrow> nat \<Rightarrow> hash option" where
  "pmmr_get_hash ops pm pos =
    (if pos > last_pos pm then None
     else if is_leaf pos then be_get_hash ops (backend pm) pos
     else be_get_from_file ops (backend pm) pos)"

definition pmmr_get_data :: "('b, 't, 'e) backend_ops \<Rightarrow> 'b pmmr \<Rightarrow> nat \<Rightarrow> 'e option" where
  "pmmr_get_data ops pm pos =
    (if pos > last_pos pm then None
     else if is_leaf pos then be_get_data ops (backend pm) pos
     else None)"

definition pmmr_get_from_file :: "('b, 't, 'e) backend_ops \<Rightarrow> 'b pmmr \<Rightarrow> nat \<Rightarrow> hash option" where
  "pmmr_get_from_file ops pm pos =
    (if pos > last_pos pm then None else be_get_from_file ops (backend pm) pos)"

record merkle_proof_rec =
  mp_mmr_size :: nat
  mp_path :: "hash list"

definition merkle_proof ::
  "('b, 't, 'e) backend_ops \<Rightarrow> (bytes \<Rightarrow> hash) \<Rightarrow> 'b pmmr \<Rightarrow> nat \<Rightarrow> pmmr_error + merkle_proof_rec" where
  "merkle_proof ops blake pm pos =
    (if \<not> is_leaf pos then Inl (NotALeaf pos)
     else case pmmr_get_hash ops pm pos of
       None \<Rightarrow> Inl (NoElementAt pos)
     | Some _ \<Rightarrow>
       (let fam = family_branch pos (last_pos pm);
            sibs = filter_map (\<lambda>x. pmmr_get_from_file ops pm (snd x)) fam;
            peak_pos = (if fam = [] then pos else fst (last fam))
        in Inr \<lparr>mp_mmr_size = unpruned_size pm,
                mp_path = sibs @ peak_path ops blake pm peak_pos\<rparr>))"

text \<open>
  The \<open>while\<close> loop of \<open>push\<close>. The local \<open>peak\<close> is a power of two and the model carries its exponent.
\<close>

lemma peak_bit_le: "n AND push_bit e 1 \<noteq> (0::nat) \<Longrightarrow> e < n"
proof -
  assume "n AND push_bit e 1 \<noteq> 0"
  then have "odd (n div 2 ^ e)" using peak_bit [of n e] by blast
  then have "2 ^ e \<le> n" by (metis div_less even_zero not_less)
  then show "e < n" using less_exp [of e] by linarith
qed

function push_loop ::
  "('b, 't, 'e) backend_ops \<Rightarrow> (bytes \<Rightarrow> hash) \<Rightarrow> 'b \<Rightarrow> nat \<Rightarrow> nat \<Rightarrow> nat \<Rightarrow> hash \<Rightarrow> hash list \<Rightarrow>
   pmmr_error + nat \<times> hash list" where
  "push_loop ops blake b peak_map e pos current_hash hashes =
    (if peak_map AND push_bit e 1 \<noteq> 0
     then let left_sibling = pos + 1 - 2 * push_bit e 1
          in case be_get_from_file ops b left_sibling of
               None \<Rightarrow> Inl MissingLeftSibling
             | Some left_hash \<Rightarrow>
               (let pos' = pos + 1;
                    h = hash_with_index blake (write_hash left_hash @ write_hash current_hash) (pos' - 1)
                in push_loop ops blake b peak_map (e + 1) pos' h (hashes @ [h]))
     else Inr (pos, hashes))"
  by pat_completeness auto
termination
  by (relation "measure (\<lambda>(_, _, _, peak_map, e, _). peak_map - e)")
     (auto dest!: peak_bit_le [simplified])

declare push_loop.simps [simp del]

definition pmmr_push ::
  "('b, 't, 'e) backend_ops \<Rightarrow> (bytes \<Rightarrow> hash) \<Rightarrow> ('t \<Rightarrow> bytes) \<Rightarrow> 'b pmmr \<Rightarrow> 't \<Rightarrow>
   pmmr_error + nat \<times> 'b pmmr" where
  "pmmr_push ops blake ser pm elmt =
    (let elmt_pos = last_pos pm + 1;
         current_hash = hash_with_index blake (ser elmt) (elmt_pos - 1);
         (peak_map, height) = peak_map_height (elmt_pos - 1)
     in if height \<noteq> 0 then Inl (BadMmrSize (elmt_pos - 1))
        else rbind (push_loop ops blake (backend pm) peak_map 0 elmt_pos current_hash [current_hash])
          (\<lambda>(pos, hashes).
             rbind (map_err BackendErr (be_append ops (backend pm) elmt hashes))
               (\<lambda>b. Inr (elmt_pos, pm\<lparr>backend := b, last_pos := pos\<rparr>))))"

text \<open>
  The loop of \<open>rewind\<close>, with the wrap-around of \<open>pos + 1\<close>: it ends at the latest when the position
  wraps to 0, whose height is 0.
\<close>

function rewind_pos :: "nat \<Rightarrow> nat" where
  "rewind_pos pos =
    (let next = (pos + 1) mod 2 ^ 64
     in if bintree_postorder_height next > 0 then rewind_pos next else pos)"
  by pat_completeness auto
termination
proof (relation "measure (\<lambda>pos. if pos < 2 ^ 64 then 2 ^ 64 - pos else 2 ^ 64 + 1)")
  fix pos x :: nat
  assume x: "x = (pos + 1) mod 2 ^ 64" and "0 < bintree_postorder_height x"
  then have "x \<noteq> 0" by (metis bintree_postorder_height_def less_irrefl)
  moreover have "x < 2 ^ 64" unfolding x by simp
  moreover have "x = pos + 1" if "pos < 2 ^ 64"
  proof (cases "pos + 1 = 2 ^ 64")
    case True
    then show ?thesis using x \<open>x \<noteq> 0\<close> by simp
  next
    case False
    then show ?thesis using x that by simp
  qed
  ultimately show "(x, pos) \<in> measure (\<lambda>pos. if pos < 2 ^ 64 then 2 ^ 64 - pos else 2 ^ 64 + 1)"
    by auto
qed simp

declare rewind_pos.simps [simp del]

definition pmmr_rewind ::
  "('b, 't, 'e) backend_ops \<Rightarrow> 'b pmmr \<Rightarrow> nat \<Rightarrow> nat set \<Rightarrow> pmmr_error + 'b pmmr" where
  "pmmr_rewind ops pm position rewind_rm_pos =
    (let pos = rewind_pos position
     in rbind (map_err BackendErr (be_rewind ops (backend pm) pos rewind_rm_pos))
          (\<lambda>b. Inr (pm\<lparr>backend := b, last_pos := pos\<rparr>)))"

definition pmmr_prune :: "('b, 't, 'e) backend_ops \<Rightarrow> 'b pmmr \<Rightarrow> nat \<Rightarrow> pmmr_error + bool \<times> 'b pmmr" where
  "pmmr_prune ops pm position =
    (if \<not> is_leaf position then Inl (NotALeaf position)
     else if be_get_hash ops (backend pm) position = None then Inr (False, pm)
     else rbind (map_err BackendErr (be_remove ops (backend pm) position))
            (\<lambda>b. Inr (True, pm\<lparr>backend := b\<rparr>)))"

definition validate_node :: "('b, 't, 'e) backend_ops \<Rightarrow> (bytes \<Rightarrow> hash) \<Rightarrow> 'b pmmr \<Rightarrow> nat \<Rightarrow> bool" where
  "validate_node ops blake pm n =
    (let height = bintree_postorder_height n
     in if height > 0 then
          (case (pmmr_get_hash ops pm n, pmmr_get_from_file ops pm (n - push_bit height 1),
                 pmmr_get_from_file ops pm (n - 1)) of
             (Some h, Some l, Some r) \<Rightarrow> hash_with_index blake (write_hash l @ write_hash r) (n - 1) = h
           | _ \<Rightarrow> True)
        else True)"

definition validate :: "('b, 't, 'e) backend_ops \<Rightarrow> (bytes \<Rightarrow> hash) \<Rightarrow> 'b pmmr \<Rightarrow> pmmr_error + unit" where
  "validate ops blake pm =
    (case find (\<lambda>n. \<not> validate_node ops blake pm n) [1..<last_pos pm + 1] of
       None \<Rightarrow> Inr ()
     | Some n \<Rightarrow> Inl (InvalidMmr n))"

section \<open>Views\<close>

text \<open>
  \<open>ReadonlyPMMR\<close> and \<open>RewindablePMMR\<close> hold the same two fields and repeat the reading functions;
  \<open>readonly_pmmr\<close> turns a range into the view. The read-only \<open>root\<close> panics where the other returns
  an error, so it is an option here.
\<close>

definition readonly_pmmr :: "'b pmmr \<Rightarrow> 'b pmmr" where
  "readonly_pmmr pm = pmmr_at (backend pm) (last_pos pm)"

definition ro_get_data :: "('b, 't, 'e) backend_ops \<Rightarrow> 'b pmmr \<Rightarrow> nat \<Rightarrow> 'e option" where
  "ro_get_data ops pm pos =
    (if pos > last_pos pm then None
     else if is_leaf pos then be_get_data ops (backend pm) pos
     else None)"

definition ro_get_hash :: "('b, 't, 'e) backend_ops \<Rightarrow> 'b pmmr \<Rightarrow> nat \<Rightarrow> hash option" where
  "ro_get_hash ops pm pos =
    (if pos > last_pos pm then None
     else if is_leaf pos then be_get_hash ops (backend pm) pos
     else be_get_from_file ops (backend pm) pos)"

definition ro_get_from_file :: "('b, 't, 'e) backend_ops \<Rightarrow> 'b pmmr \<Rightarrow> nat \<Rightarrow> hash option" where
  "ro_get_from_file ops pm pos =
    (if pos > last_pos pm then None else be_get_from_file ops (backend pm) pos)"

definition ro_peaks :: "('b, 't, 'e) backend_ops \<Rightarrow> 'b pmmr \<Rightarrow> hash list" where
  "ro_peaks ops pm = filter_map (be_get_from_file ops (backend pm)) (peaks (last_pos pm))"

definition ro_root :: "('b, 't, 'e) backend_ops \<Rightarrow> (bytes \<Rightarrow> hash) \<Rightarrow> 'b pmmr \<Rightarrow> hash option" where
  "ro_root ops blake pm =
    (if is_empty pm then Some ZERO_HASH
     else foldl (bag_step blake (unpruned_size pm)) None (rev (ro_peaks ops pm)))"

function elements_loop ::
  "('b, 't, 'e) backend_ops \<Rightarrow> 'b pmmr \<Rightarrow> nat \<Rightarrow> nat \<Rightarrow> nat \<Rightarrow> 'e list \<Rightarrow> nat \<times> 'e list" where
  "elements_loop ops pm max_count lastp pmmr_index acc =
    (if length acc < max_count \<and> pmmr_index \<le> lastp
     then elements_loop ops pm max_count lastp (pmmr_index + 1)
            (case ro_get_data ops pm pmmr_index of Some t \<Rightarrow> acc @ [t] | None \<Rightarrow> acc)
     else (pmmr_index, acc))"
  by pat_completeness auto
termination
  by (relation "measure (\<lambda>(_, _, _, lastp, pmmr_index, _). Suc lastp - pmmr_index)") auto

declare elements_loop.simps [simp del]

definition elements_from_pmmr_index ::
  "('b, 't, 'e) backend_ops \<Rightarrow> 'b pmmr \<Rightarrow> nat \<Rightarrow> nat \<Rightarrow> nat option \<Rightarrow> nat \<times> 'e list" where
  "elements_from_pmmr_index ops pm pmmr_index max_count max_pmmr_pos =
    (let lastp = (case max_pmmr_pos of Some p \<Rightarrow> p | None \<Rightarrow> last_pos pm);
         start = (if pmmr_index = 0 then 1 else pmmr_index);
         (ix, acc) = elements_loop ops pm max_count lastp start []
     in (ix - 1, acc))"

primrec last_n_loop :: "('b, 't, 'e) backend_ops \<Rightarrow> 'b pmmr \<Rightarrow> nat \<Rightarrow> nat \<Rightarrow> (hash \<times> 'e) list" where
  "last_n_loop ops pm 0 lf = []"
| "last_n_loop ops pm (Suc n) lf =
    (if lf = 0 then []
     else let leaf = bintree_rightmost lf;
              rest = last_n_loop ops pm n (leaf - 1)
          in case be_get_hash ops (backend pm) leaf of
               None \<Rightarrow> rest
             | Some h \<Rightarrow> (case be_get_data ops (backend pm) leaf of None \<Rightarrow> rest | Some d \<Rightarrow> (h, d) # rest))"

definition get_last_n_insertions :: "('b, 't, 'e) backend_ops \<Rightarrow> 'b pmmr \<Rightarrow> nat \<Rightarrow> (hash \<times> 'e) list" where
  "get_last_n_insertions ops pm n = last_n_loop ops pm n (last_pos pm)"

definition rw_rewind :: "'b pmmr \<Rightarrow> nat \<Rightarrow> pmmr_error + 'b pmmr" where
  "rw_rewind pm position = Inr (pm\<lparr>last_pos := rewind_pos position\<rparr>)"

definition rw_get_data :: "('b, 't, 'e) backend_ops \<Rightarrow> 'b pmmr \<Rightarrow> nat \<Rightarrow> 'e option" where
  "rw_get_data ops pm pos =
    (if pos > last_pos pm then None
     else if is_leaf pos then be_get_data ops (backend pm) pos
     else None)"

definition rw_peaks :: "('b, 't, 'e) backend_ops \<Rightarrow> 'b pmmr \<Rightarrow> hash list" where
  "rw_peaks ops pm = filter_map (be_get_from_file ops (backend pm)) (peaks (last_pos pm))"

definition rw_root :: "('b, 't, 'e) backend_ops \<Rightarrow> (bytes \<Rightarrow> hash) \<Rightarrow> 'b pmmr \<Rightarrow> pmmr_error + hash" where
  "rw_root ops blake pm =
    (if is_empty pm then Inr ZERO_HASH
     else case foldl (bag_step blake (unpruned_size pm)) None (rev (rw_peaks ops pm)) of
            None \<Rightarrow> Inl NoRoot
          | Some h \<Rightarrow> Inr h)"

section \<open>Reference model\<close>

text \<open>The hash of node \<open>(h, j)\<close> of the range over the leaves \<open>xs\<close>, by recursion on the height.\<close>

primrec node_hash :: "(bytes \<Rightarrow> hash) \<Rightarrow> ('t \<Rightarrow> bytes) \<Rightarrow> 't list \<Rightarrow> nat \<Rightarrow> nat \<Rightarrow> hash" where
  "node_hash blake ser xs 0 j = hash_with_index blake (ser (xs ! j)) (node_pos 0 j - 1)"
| "node_hash blake ser xs (Suc h) j =
    hash_with_index blake (node_hash blake ser xs h (2 * j) @ node_hash blake ser xs h (2 * j + 1))
      (node_pos (Suc h) j - 1)"

text \<open>Bagging a list of peaks from the left: the last peak is the seed.\<close>

fun bag :: "(bytes \<Rightarrow> hash) \<Rightarrow> nat \<Rightarrow> hash list \<Rightarrow> hash option" where
  "bag blake sz [] = None"
| "bag blake sz [p] = Some p"
| "bag blake sz (p # q # ps) =
    map_option (\<lambda>r. hash_with_index blake (p @ r) sz) (bag blake sz (q # ps))"

definition mountain_hashes :: "(bytes \<Rightarrow> hash) \<Rightarrow> ('t \<Rightarrow> bytes) \<Rightarrow> 't list \<Rightarrow> hash list" where
  "mountain_hashes blake ser xs = map (\<lambda>(h, j). node_hash blake ser xs h j) (mountains (length xs))"

definition mmr_root :: "(bytes \<Rightarrow> hash) \<Rightarrow> ('t \<Rightarrow> bytes) \<Rightarrow> 't list \<Rightarrow> hash" where
  "mmr_root blake ser xs =
    (case bag blake (mmr_size (length xs)) (mountain_hashes blake ser xs) of
       None \<Rightarrow> ZERO_HASH | Some h \<Rightarrow> h)"

lemma bag_eq_None [simp]: "bag blake sz ps = None \<longleftrightarrow> ps = []"
  by (induction blake sz ps rule: bag.induct) auto

lemma foldl_bag_step: "foldl (bag_step blake sz) None (rev ps) = bag blake sz ps"
proof (induction blake sz ps rule: bag.induct)
  case (3 blake sz p q ps)
  obtain r where "bag blake sz (q # ps) = Some r" by (cases "bag blake sz (q # ps)") auto
  then show ?case using 3 by (simp add: bag_step_def write_hash_def)
qed (simp_all add: bag_step_def)

lemma node_hash_append:
  "(j + 1) * 2 ^ h \<le> length xs \<Longrightarrow> node_hash blake ser (xs @ ys) h j = node_hash blake ser xs h j"
proof (induction h arbitrary: j)
  case 0
  then show ?case by (simp add: nth_append)
next
  case (Suc h)
  have "(2 * j + 1) * 2 ^ h \<le> length xs" "(2 * j + 1 + 1) * 2 ^ h \<le> length xs"
    using Suc.prems by (simp_all add: algebra_simps)
  then show ?case using Suc.IH [of "2 * j"] Suc.IH [of "2 * j + 1"] by simp
qed

lemma node_hash_take:
  assumes "(j + 1) * 2 ^ h \<le> m" "m \<le> length xs"
  shows "node_hash blake ser (take m xs) h j = node_hash blake ser xs h j"
  using node_hash_append [of j h "take m xs" blake ser "drop m xs"] assms by simp

lemma in_mountains: "(h, j) \<in> set (mountains n) \<longleftrightarrow> odd (n div 2 ^ h) \<and> j = n div 2 ^ h - 1"
proof -
  have "(h, j) \<in> set (peak_coords k n) \<longleftrightarrow> h < k \<and> odd (n div 2 ^ h) \<and> j = n div 2 ^ h - 1" for k
    by (induction k) (auto simp: less_Suc_eq)
  moreover have "h < bit_len n" if "odd (n div 2 ^ h)"
  proof (rule ccontr)
    assume "\<not> h < bit_len n"
    then have "n < 2 ^ h" using less_2_bit_len [of n] by (meson less_le_trans not_less one_le_numeral power_increasing)
    then show False using that by simp
  qed
  ultimately show ?thesis by (auto simp: mountains_def)
qed

lemma mountains_exist: "(h, j) \<in> set (mountains n) \<Longrightarrow> (j + 1) * 2 ^ h \<le> n"
  using div_times_less_eq_dividend [of n "2 ^ h"] by (auto simp: in_mountains)

lemma mountains_Nil [simp]: "mountains n = [] \<longleftrightarrow> n = 0"
proof
  assume empty: "mountains n = []"
  show "n = 0"
  proof (rule ccontr)
    assume "n \<noteq> 0"
    have "\<exists>h. odd (n div 2 ^ h)" using \<open>n \<noteq> 0\<close>
    proof (induction n rule: bit_len.induct)
      case (1 n)
      show ?case
      proof (cases "odd n")
        case True
        then show ?thesis by (intro exI [of _ 0]) simp
      next
        case False
        then have "n div 2 \<noteq> 0" using "1.prems" by auto
        then obtain h where "odd (n div 2 div 2 ^ h)" using 1 by auto
        then show ?thesis by (intro exI [of _ "Suc h"]) (simp add: div_mult2_eq)
      qed
    qed
    then show False using empty in_mountains [of _ _ n] by (metis empty_iff list.set(1))
  qed
qed (simp add: mountains_def bit_len.simps)

section \<open>Files of hashes\<close>

text \<open>
  \<open>mmr_file blake ser xs fl\<close>: the file \<open>fl\<close>, a list of hashes with gaps for what was compacted away,
  holds the range over the leaves \<open>xs\<close>. Gaps are allowed everywhere but at the peaks.
\<close>

definition mmr_file :: "(bytes \<Rightarrow> hash) \<Rightarrow> ('t \<Rightarrow> bytes) \<Rightarrow> 't list \<Rightarrow> hash option list \<Rightarrow> bool" where
  "mmr_file blake ser xs fl \<longleftrightarrow>
     length fl = mmr_size (length xs)
   \<and> (\<forall>h j. (j + 1) * 2 ^ h \<le> length xs \<longrightarrow>
        fl ! (node_pos h j - 1) \<in> {None, Some (node_hash blake ser xs h j)})
   \<and> (\<forall>h j. (h, j) \<in> set (mountains (length xs)) \<longrightarrow>
        fl ! (node_pos h j - 1) = Some (node_hash blake ser xs h j))"

lemma mountains_0 [simp]: "mountains 0 = []"
  by simp

lemma mmr_file_Nil [simp]: "mmr_file blake ser [] []"
  by (auto simp: mmr_file_def mountains_def bit_len.simps)

lemma node_pos_index_less: "(j + 1) * 2 ^ h \<le> n \<Longrightarrow> node_pos h j - 1 < mmr_size n"
  using node_pos_le_mmr_size [of h j n] node_pos_pos(1) [of h j] by linarith

text \<open>A node that the next leaf completes has that leaf as its last one.\<close>

lemma new_node:
  assumes "(j + 1) * 2 ^ h \<le> Suc n" "\<not> (j + 1) * 2 ^ h \<le> n"
  shows "last_leaf h j = n" "j = n div 2 ^ h" "node_pos h j - 1 = mmr_size n + h"
proof -
  show last: "last_leaf h j = n" using assms Suc_last_leaf [of h j] by linarith
  then show "j = n div 2 ^ h" using last_leaf_div [of h j] by simp
  show "node_pos h j - 1 = mmr_size n + h" using last by (simp add: node_pos_def)
qed

lemma mountains_Suc_old:
  assumes "(h, j) \<in> set (mountains (Suc n))" "(j + 1) * 2 ^ h \<le> n"
  shows "(h, j) \<in> set (mountains n)"
proof -
  have odd: "odd (Suc n div 2 ^ h)" and j: "j + 1 = Suc n div 2 ^ h"
    using assms(1) by (auto simp: in_mountains)
  have "Suc n div 2 ^ h = n div 2 ^ h"
  proof (rule antisym)
    show "Suc n div 2 ^ h \<le> n div 2 ^ h"
      using assms(2) unfolding j by (simp add: less_eq_div_iff_mult_less_eq)
    show "n div 2 ^ h \<le> Suc n div 2 ^ h" by (simp add: div_le_mono)
  qed
  then show ?thesis using odd j by (simp add: in_mountains)
qed

text \<open>The hashes of the nodes that the next leaf completes.\<close>

definition new_hashes :: "(bytes \<Rightarrow> hash) \<Rightarrow> ('t \<Rightarrow> bytes) \<Rightarrow> 't list \<Rightarrow> 't \<Rightarrow> hash list" where
  "new_hashes blake ser xs x =
    map (\<lambda>i. node_hash blake ser (xs @ [x]) i (length xs div 2 ^ i)) [0..<mmr_size (Suc (length xs)) - mmr_size (length xs)]"

lemma length_new_hashes: "length (new_hashes blake ser xs x) = mmr_size (Suc (length xs)) - mmr_size (length xs)"
  by (simp add: new_hashes_def)

lemma new_hashes_range: "set (new_hashes blake ser xs x) \<subseteq> range blake"
proof -
  have "node_hash blake ser ys h j \<in> range blake" for ys h j
    by (cases h) (simp_all add: hash_with_index_def)
  then show ?thesis by (auto simp: new_hashes_def)
qed

lemma mmr_file_append:
  assumes fl: "mmr_file blake ser xs fl"
  shows "mmr_file blake ser (xs @ [x]) (fl @ map Some (new_hashes blake ser xs x))"
proof -
  define n t where n: "n = length xs" and "t = mmr_size (Suc n) - mmr_size n - 1"
  then have t: "mmr_size (Suc n) = mmr_size n + Suc t" using mmr_size_less_Suc [of n] by linarith
  define hs where hs: "hs = map (\<lambda>i. node_hash blake ser (xs @ [x]) i (n div 2 ^ i)) [0..<Suc t]"
  have eq: "new_hashes blake ser xs x = hs" by (simp add: new_hashes_def hs t flip: n del: upt_Suc)
  have len: "length fl = mmr_size n" using fl n by (simp add: mmr_file_def)
  have old: "(fl @ map Some hs) ! (node_pos h j - 1) = fl ! (node_pos h j - 1)"
      "node_hash blake ser (xs @ [x]) h j = node_hash blake ser xs h j"
    if "(j + 1) * 2 ^ h \<le> n" for h j
    using node_pos_index_less [OF that] that len node_hash_append [of j h xs] n by (simp_all add: nth_append)
  have new: "(fl @ map Some hs) ! (node_pos h j - 1) = Some (node_hash blake ser (xs @ [x]) h j)"
    if le: "(j + 1) * 2 ^ h \<le> Suc n" and gt: "\<not> (j + 1) * 2 ^ h \<le> n" for h j
  proof -
    note eqs = new_node [OF le gt]
    have "h < Suc t" using node_pos_index_less [OF le] eqs(3) t by linarith
    then show ?thesis using eqs len by (simp add: nth_append hs del: upt_Suc)
  qed
  show ?thesis unfolding mmr_file_def eq
  proof (intro conjI allI impI)
    show "length (fl @ map Some hs) = mmr_size (length (xs @ [x]))" using len t n by (simp add: hs)
  next
    fix h j assume "(j + 1) * 2 ^ h \<le> length (xs @ [x])"
    then show "(fl @ map Some hs) ! (node_pos h j - 1) \<in> {None, Some (node_hash blake ser (xs @ [x]) h j)}"
      using old [of j h] new [of j h] fl n unfolding mmr_file_def
      by (cases "(j + 1) * 2 ^ h \<le> n") (simp_all only: length_append list.size, auto)
  next
    fix h j assume "(h, j) \<in> set (mountains (length (xs @ [x])))"
    then have m: "(h, j) \<in> set (mountains (Suc n))" by (simp add: n)
    show "(fl @ map Some hs) ! (node_pos h j - 1) = Some (node_hash blake ser (xs @ [x]) h j)"
    proof (cases "(j + 1) * 2 ^ h \<le> n")
      case True
      then show ?thesis using mountains_Suc_old [OF m True] old [OF True] fl n by (simp add: mmr_file_def)
    next
      case False
      then show ?thesis using mountains_exist [OF m] new by blast
    qed
  qed
qed

lemma mmr_file_take:
  assumes "mmr_file blake ser xs fl" "None \<notin> set fl" "m \<le> length xs"
  shows "mmr_file blake ser (take m xs) (take (mmr_size m) fl)"
proof -
  have len: "length fl = mmr_size (length xs)" using assms(1) by (simp add: mmr_file_def)
  have le: "mmr_size m \<le> length fl" using len assms(3) by simp
  have "take (mmr_size m) fl ! (node_pos h j - 1) = Some (node_hash blake ser (take m xs) h j)"
    if ex: "(j + 1) * 2 ^ h \<le> m" for h j
  proof -
    have ix: "node_pos h j - 1 < mmr_size m" by (rule node_pos_index_less [OF ex])
    have "(j + 1) * 2 ^ h \<le> length xs" using ex assms(3) by linarith
    then have "fl ! (node_pos h j - 1) \<in> {None, Some (node_hash blake ser xs h j)}"
      using assms(1) by (simp only: mmr_file_def)
    moreover have "fl ! (node_pos h j - 1) \<in> set fl" using ix le by simp
    ultimately have "fl ! (node_pos h j - 1) = Some (node_hash blake ser xs h j)" using assms(2) by auto
    then show ?thesis using ix node_hash_take [OF ex assms(3)] by simp
  qed
  then show ?thesis using le assms(3) mountains_exist unfolding mmr_file_def by (simp add: min_absorb2)
qed

text \<open>The range \<open>pm\<close> stands for the leaves \<open>xs\<close>.\<close>

definition mmr_state ::
  "('b \<Rightarrow> hash option list) \<Rightarrow> ('b \<Rightarrow> bool) \<Rightarrow> (bytes \<Rightarrow> hash) \<Rightarrow> ('t \<Rightarrow> bytes) \<Rightarrow> 't list \<Rightarrow> 'b pmmr \<Rightarrow> bool" where
  "mmr_state hfile invar blake ser xs pm \<longleftrightarrow> invar (backend pm) \<and> last_pos pm = mmr_size (length xs)
     \<and> mmr_size (length xs) < 2 ^ 64 \<and> mmr_file blake ser xs (hfile (backend pm))"

lemma push_loop_step:
  assumes "peak_map AND push_bit e 1 \<noteq> 0"
    and "be_get_from_file ops b (pos + 1 - 2 * push_bit e 1) = Some l"
    and "hash_with_index blake (write_hash l @ write_hash c) pos = h" "pos + 1 = pos'"
  shows "push_loop ops blake b peak_map e pos c hashes
    = push_loop ops blake b peak_map (Suc e) pos' h (hashes @ [h])"
  using assms(1,2) unfolding assms(3,4) [symmetric] by (subst push_loop.simps) (simp add: Let_def)

lemma validate_nodeI:
  assumes "bintree_postorder_height n = Suc k"
    and "pmmr_get_hash ops pm n \<in> {None, Some c}"
    and "pmmr_get_from_file ops pm (n - push_bit (Suc k) 1) \<in> {None, Some l}"
    and "pmmr_get_from_file ops pm (n - 1) \<in> {None, Some r}"
    and "hash_with_index blake (write_hash l @ write_hash r) (n - 1) = c"
  shows "validate_node ops blake pm n"
  unfolding validate_node_def Let_def assms(1) using assms(2-5) by (auto split: option.splits)

section \<open>What the range needs from its storage\<close>

locale mmr_storage =
  fixes ops :: "('b, 't, 'e) backend_ops"
    and hfile :: "'b \<Rightarrow> hash option list"
    and invar :: "'b \<Rightarrow> bool"
    and storable :: "'b \<Rightarrow> 't \<Rightarrow> hash list \<Rightarrow> bool"
    and rewindable :: "'b \<Rightarrow> nat \<Rightarrow> nat set \<Rightarrow> bool"
  assumes get_from_file_law: "invar b \<Longrightarrow> 0 < pos \<Longrightarrow> pos \<le> length (hfile b) \<Longrightarrow>
      be_get_from_file ops b pos = hfile b ! (pos - 1)"
    and get_hash_law: "invar b \<Longrightarrow> be_get_hash ops b pos = Some h \<Longrightarrow> be_get_from_file ops b pos = Some h"
    and append_law: "invar b \<Longrightarrow> storable b x hs \<Longrightarrow>
      \<exists>b'. be_append ops b x hs = Inr b' \<and> invar b' \<and> hfile b' = hfile b @ map Some hs"
    and rewind_law: "invar b \<Longrightarrow> None \<notin> set (hfile b) \<Longrightarrow> rewindable b pos rm \<Longrightarrow> pos \<le> length (hfile b) \<Longrightarrow>
      \<exists>b'. be_rewind ops b pos rm = Inr b' \<and> invar b' \<and> hfile b' = take pos (hfile b)"
    and remove_law: "invar b \<Longrightarrow> \<exists>b'. be_remove ops b pos = Inr b' \<and> invar b' \<and> hfile b' = hfile b"
begin

abbreviation stands_for :: "(bytes \<Rightarrow> hash) \<Rightarrow> ('t \<Rightarrow> bytes) \<Rightarrow> 't list \<Rightarrow> 'b pmmr \<Rightarrow> bool" where
  "stands_for \<equiv> mmr_state hfile invar"

lemmas stands_for_def = mmr_state_def [of hfile invar]

lemma get_from_file_node:
  assumes "stands_for blake ser xs pm" "(j + 1) * 2 ^ h \<le> length xs"
  shows "be_get_from_file ops (backend pm) (node_pos h j) \<in> {None, Some (node_hash blake ser xs h j)}"
  using assms get_from_file_law [of "backend pm" "node_pos h j"] node_pos_le_mmr_size [of h j "length xs"]
  unfolding stands_for_def mmr_file_def by simp

lemma get_from_file_peak:
  assumes "stands_for blake ser xs pm" "(h, j) \<in> set (mountains (length xs))"
  shows "be_get_from_file ops (backend pm) (node_pos h j) = Some (node_hash blake ser xs h j)"
  using assms get_from_file_law [of "backend pm" "node_pos h j"] mountains_exist [OF assms(2)]
    node_pos_le_mmr_size [of h j "length xs"]
  unfolding stands_for_def mmr_file_def by simp

lemma peaks_stands_for:
  "stands_for blake ser xs pm \<Longrightarrow> peaks (last_pos pm) = map (\<lambda>(h, j). node_pos h j) (mountains (length xs))"
  by (simp add: stands_for_def peaks_mmr_size)

lemma push_loop_ok:
  assumes st: "stands_for blake ser xs pm" and n: "n = length xs"
    and last: "last_leaf e j = n"
  shows "\<exists>t\<ge>e. push_loop ops blake (backend pm) n e (node_pos e j)
      (node_hash blake ser (xs @ [x]) e j) hs
    = Inr (mmr_size (Suc n), hs @ map (\<lambda>i. node_hash blake ser (xs @ [x]) i (n div 2 ^ i)) [Suc e..<Suc t])
    \<and> mmr_size (Suc n) = mmr_size n + Suc t"
  using last
proof (induction "n - e" arbitrary: e j hs rule: less_induct)
  case less
  have j: "j = n div 2 ^ e" using less.prems last_leaf_div [of e j] by simp
  have bit: "n AND push_bit e 1 \<noteq> 0 \<longleftrightarrow> odd j" using peak_bit [of n e] j by simp
  show ?case
  proof (cases "odd j")
    case True
    let ?H = "node_hash blake ser (xs @ [x])"
    have sib: "sib j = j - 1" using True by (simp add: sib_def)
    have left: "node_pos e j + 1 - 2 * push_bit e 1 = node_pos e (j - 1)"
      using node_pos_sib_odd [OF True, of e] sib by (simp add: push_bit_eq_mult)
    have peak: "(e, j - 1) \<in> set (mountains n)" using True j by (simp add: in_mountains)
    have ex: "(j - 1 + 1) * 2 ^ e \<le> length xs" using mountains_exist [OF peak] n by simp
    have got: "be_get_from_file ops (backend pm) (node_pos e (j - 1)) = Some (?H e (j - 1))"
      using get_from_file_peak [OF st] peak n node_hash_append [OF ex] by simp
    have pos: "node_pos e j + 1 = node_pos (Suc e) (j div 2)" using node_pos_parent_odd [OF True] by simp
    have "2 * (j div 2) = j - 1" "2 * (j div 2) + 1 = j" using True by (auto elim: oddE)
    then have hash: "hash_with_index blake (write_hash (?H e (j - 1)) @ write_hash (?H e j)) (node_pos e j)
        = ?H (Suc e) (j div 2)"
      using pos by (simp add: write_hash_def flip: pos)
    have unf: "push_loop ops blake (backend pm) n e (node_pos e j) (?H e j) hs
      = push_loop ops blake (backend pm) n (Suc e) (node_pos (Suc e) (j div 2)) (?H (Suc e) (j div 2))
          (hs @ [?H (Suc e) (j div 2)])"
      using bit True by (intro push_loop_step [OF _ _ hash pos]) (blast, simp only: left got)
    have "e < n" using peak_bit_le bit True by blast
    then have lt: "n - Suc e < n - e" by simp
    have lf: "last_leaf (Suc e) (j div 2) = n"
      using less.prems True by (auto simp: last_leaf_def elim!: oddE)
    obtain t where t: "t \<ge> Suc e" "mmr_size (Suc n) = mmr_size n + Suc t"
      "push_loop ops blake (backend pm) n (Suc e) (node_pos (Suc e) (j div 2)) (?H (Suc e) (j div 2))
          (hs @ [?H (Suc e) (j div 2)])
       = Inr (mmr_size (Suc n), (hs @ [?H (Suc e) (j div 2)]) @ map (\<lambda>i. ?H i (n div 2 ^ i)) [Suc (Suc e)..<Suc t])"
      using less.hyps [OF lt lf, of "hs @ [?H (Suc e) (j div 2)]"] by blast
    have "[Suc e..<Suc t] = Suc e # [Suc (Suc e)..<Suc t]" using t(1) by (simp add: upt_conv_Cons)
    moreover have "n div 2 ^ Suc e = j div 2" by (simp only: j power_Suc2 div_mult2_eq)
    ultimately have "(hs @ [?H (Suc e) (j div 2)]) @ map (\<lambda>i. ?H i (n div 2 ^ i)) [Suc (Suc e)..<Suc t]
        = hs @ map (\<lambda>i. ?H i (n div 2 ^ i)) [Suc e..<Suc t]"
      by (simp only: list.map append_assoc append_Cons append_Nil)
    then show ?thesis using t unf by (intro exI [of _ t]) (simp only: Suc_leD simp_thms)
  next
    case False
    then have "node_pos e j = mmr_size ((j + 1) * 2 ^ e)" by (simp only: node_pos_even not_not)
    then have pos: "node_pos e j = mmr_size (Suc n)" using less.prems Suc_last_leaf [of e j] by simp
    moreover have "node_pos e j = mmr_size n + Suc e" using less.prems by (simp add: node_pos_def)
    moreover have "push_loop ops blake (backend pm) n e (node_pos e j) c hs = Inr (node_pos e j, hs)" for c
      using bit False by (subst push_loop.simps) simp
    ultimately show ?thesis by (intro exI [of _ e]) simp
  qed
qed

lemma push_stands_for_step:
  assumes st: "stands_for blake ser xs pm"
  shows "pmmr_push ops blake ser pm x
    = rbind (map_err BackendErr (be_append ops (backend pm) x (new_hashes blake ser xs x)))
        (\<lambda>b. Inr (mmr_size (length xs) + 1, pm\<lparr>backend := b, last_pos := mmr_size (Suc (length xs))\<rparr>))"
proof -
  let ?n = "length xs" and ?H = "node_hash blake ser (xs @ [x])"
  have lp: "last_pos pm = mmr_size ?n" and lt: "mmr_size ?n < 2 ^ 64"
    using st by (simp_all add: stands_for_def)
  have pmh: "peak_map_height (mmr_size ?n) = (?n, 0)"
    using peak_map_height_bracket [OF lt order_refl mmr_size_less_Suc] by simp
  have pos: "node_pos 0 ?n = mmr_size ?n + 1" by (simp add: node_pos_def last_leaf_def)
  have h0: "hash_with_index blake (ser x) (mmr_size ?n) = ?H 0 ?n" by (simp add: pos)
  obtain t where t: "mmr_size (Suc ?n) = mmr_size ?n + Suc t"
    and loop: "push_loop ops blake (backend pm) ?n 0 (node_pos 0 ?n) (?H 0 ?n) [?H 0 ?n]
      = Inr (mmr_size (Suc ?n), [?H 0 ?n] @ map (\<lambda>i. ?H i (?n div 2 ^ i)) [Suc 0..<Suc t])"
    using push_loop_ok [OF st refl, of 0 ?n x "[?H 0 ?n]"] by (auto simp: last_leaf_def)
  have hs: "[?H 0 ?n] @ map (\<lambda>i. ?H i (?n div 2 ^ i)) [Suc 0..<Suc t] = new_hashes blake ser xs x"
    unfolding new_hashes_def t add_diff_cancel_left' by (subst upt_conv_Cons [of 0 "Suc t"]) (simp_all del: upt_Suc)
  show ?thesis
    unfolding pmmr_push_def Let_def lp add_diff_cancel_right' pmh prod.case h0
    using loop unfolding hs pos by simp
qed

lemma push_stands_for:
  assumes st: "stands_for blake ser xs pm" and bound: "mmr_size (Suc (length xs)) < 2 ^ 64"
    and sto: "storable (backend pm) x (new_hashes blake ser xs x)"
  shows "\<exists>pm'. pmmr_push ops blake ser pm x = Inr (mmr_size (length xs) + 1, pm')
    \<and> stands_for blake ser (xs @ [x]) pm'
    \<and> (None \<notin> set (hfile (backend pm)) \<longrightarrow> None \<notin> set (hfile (backend pm')))"
proof -
  have b: "invar (backend pm)" and fl: "mmr_file blake ser xs (hfile (backend pm))"
    using st by (simp_all add: stands_for_def)
  obtain b' where b': "be_append ops (backend pm) x (new_hashes blake ser xs x) = Inr b'" "invar b'"
    "hfile b' = hfile (backend pm) @ map Some (new_hashes blake ser xs x)"
    using append_law [OF b sto] by blast
  then show ?thesis using push_stands_for_step [OF st, of x] bound mmr_file_append [OF fl, of x]
    by (auto simp: stands_for_def)
qed

lemma pmmr_peaks_stands_for:
  assumes "stands_for blake ser xs pm"
  shows "pmmr_peaks ops pm = mountain_hashes blake ser xs"
proof -
  have "filter_map (be_get_from_file ops (backend pm)) (map (\<lambda>(h, j). node_pos h j) ms)
      = map (\<lambda>(h, j). node_hash blake ser xs h j) ms"
    if "set ms \<subseteq> set (mountains (length xs))" for ms
    using that get_from_file_peak [OF assms] by (induction ms) auto
  then show ?thesis
    by (simp add: pmmr_peaks_def peaks_stands_for [OF assms] mountain_hashes_def)
qed

lemma root_stands_for:
  assumes "stands_for blake ser xs pm"
  shows "root ops blake pm = Inr (mmr_root blake ser xs)"
proof -
  have "last_pos pm = mmr_size (length xs)" using assms by (simp add: stands_for_def)
  moreover have "mmr_size (length xs) = 0 \<longleftrightarrow> xs = []" using le_mmr_size [of "length xs"] by auto
  ultimately show ?thesis
    unfolding root_def foldl_bag_step pmmr_peaks_stands_for [OF assms] mmr_root_def
    by (auto simp: is_empty_def unpruned_size_def mountain_hashes_def split: option.splits)
qed

lemma rewind_stands_for:
  assumes st: "stands_for blake ser xs pm" and full: "None \<notin> set (hfile (backend pm))"
    and m: "m \<le> length xs" and pos: "rewind_pos position = mmr_size m"
    and rw: "rewindable (backend pm) (mmr_size m) rm"
  shows "\<exists>pm'. pmmr_rewind ops pm position rm = Inr pm' \<and> stands_for blake ser (take m xs) pm'
    \<and> None \<notin> set (hfile (backend pm'))"
proof -
  have b: "invar (backend pm)" and fl: "mmr_file blake ser xs (hfile (backend pm))"
    and lt: "mmr_size (length xs) < 2 ^ 64"
    using st by (simp_all add: stands_for_def)
  have le: "mmr_size m \<le> length (hfile (backend pm))" using fl m by (simp add: mmr_file_def)
  obtain b' where b': "be_rewind ops (backend pm) (mmr_size m) rm = Inr b'" "invar b'"
    "hfile b' = take (mmr_size m) (hfile (backend pm))"
    using rewind_law [OF b full rw le] by blast
  have "mmr_size m < 2 ^ 64" using lt m by (meson le_less_trans mmr_size_le_iff)
  then have "stands_for blake ser (take m xs) (pm\<lparr>backend := b', last_pos := mmr_size m\<rparr>)"
    using b' mmr_file_take [OF fl full m] m by (simp add: stands_for_def min_absorb2)
  moreover have "None \<notin> set (hfile b')" using full b'(3) by (auto dest: in_set_takeD)
  ultimately show ?thesis using b'(1) by (simp add: pmmr_rewind_def Let_def pos)
qed

lemma validate_node_ok:
  assumes st: "stands_for blake ser xs pm" and n: "1 \<le> n" "n \<le> last_pos pm"
  shows "validate_node ops blake pm n"
proof -
  obtain h j where hj: "n = node_pos h j" using node_pos_exists n(1) by (metis Suc_le_eq One_nat_def)
  have lp: "last_pos pm = mmr_size (length xs)" and b: "invar (backend pm)"
    and le: "node_pos h j \<le> 2 ^ 64"
    using st n(2) hj by (auto simp: stands_for_def)
  have ex: "(j + 1) * 2 ^ h \<le> length xs" using n(2) hj lp by (simp only: node_pos_le_mmr_size)
  show ?thesis
  proof (cases h)
    case 0
    then show ?thesis unfolding validate_node_def hj postorder_height_node_pos [OF le] by simp
  next
    case (Suc k)
    let ?H = "node_hash blake ser xs"
    have left: "n - push_bit (Suc k) 1 = node_pos k (2 * j)"
      using node_pos_left_child [of k j] hj Suc by (simp add: push_bit_eq_mult)
    have right: "n - 1 = node_pos k (2 * j + 1)" using node_pos_right_child [of k j] hj Suc by simp
    have ex2: "(2 * j + 1) * 2 ^ k \<le> length xs" "(2 * j + 1 + 1) * 2 ^ k \<le> length xs"
      using ex Suc by (simp_all add: algebra_simps)
    have "\<not> is_leaf n" using is_leaf_node_pos [OF le] hj Suc by simp
    then have "pmmr_get_hash ops pm n \<in> {None, Some (?H (Suc k) j)}"
      using get_from_file_node [OF st ex] hj Suc by (auto simp: pmmr_get_hash_def)
    moreover have "pmmr_get_from_file ops pm (node_pos k (2 * j)) \<in> {None, Some (?H k (2 * j))}"
      "pmmr_get_from_file ops pm (node_pos k (2 * j + 1)) \<in> {None, Some (?H k (2 * j + 1))}"
      using get_from_file_node [OF st ex2(1)] get_from_file_node [OF st ex2(2)]
      by (auto simp: pmmr_get_from_file_def)
    moreover have "hash_with_index blake (write_hash (?H k (2 * j)) @ write_hash (?H k (2 * j + 1))) (n - 1) = ?H (Suc k) j"
      using hj Suc by (simp add: write_hash_def)
    ultimately show ?thesis using Suc postorder_height_node_pos [OF le] hj left right
      by (intro validate_nodeI) auto
  qed
qed

lemma validate_stands_for: "stands_for blake ser xs pm \<Longrightarrow> validate ops blake pm = Inr ()"
proof -
  assume st: "stands_for blake ser xs pm"
  have "find (\<lambda>n. \<not> validate_node ops blake pm n) [1..<last_pos pm + 1] = None"
    using validate_node_ok [OF st] by (auto simp: find_None_iff)
  then show ?thesis by (simp add: validate_def)
qed

lemma prune_stands_for:
  assumes "stands_for blake ser xs pm" "pmmr_prune ops pm position = Inr (flag, pm')"
  shows "stands_for blake ser xs pm'"
  using assms remove_law [of "backend pm" position]
  by (auto simp: pmmr_prune_def stands_for_def split: if_splits)

end

lemma rewind_pos_step:
  assumes "Suc pos < 2 ^ 64"
  shows "rewind_pos pos = (if bintree_postorder_height (Suc pos) > 0 then rewind_pos (Suc pos) else pos)"
  using assms by (subst rewind_pos.simps) simp

text \<open>A rewind goes to the end of the range of the leaves up to the given position.\<close>

lemma rewind_pos_mmr_size:
  assumes "Suc (mmr_size m) < 2 ^ 64"
  shows "rewind_pos (mmr_size m) = mmr_size m"
proof -
  have "peak_map_height (mmr_size m) = (m, 0)"
    using peak_map_height_bracket [OF _ order_refl mmr_size_less_Suc, of m] assms by simp
  then show ?thesis using assms
    by (subst rewind_pos_step) (simp_all add: bintree_postorder_height_def)
qed

lemma rewind_pos_inside:
  assumes "Suc (mmr_size (Suc n)) < 2 ^ 64" "mmr_size n < pos" "pos \<le> mmr_size (Suc n)"
  shows "rewind_pos pos = mmr_size (Suc n)"
  using assms(3,2)
proof (induction pos rule: inc_induct)
  case base
  show ?case by (rule rewind_pos_mmr_size [OF assms(1)])
next
  case (step pos)
  have "peak_map_height pos = (n, pos - mmr_size n)"
    using peak_map_height_bracket [of pos n] step assms(1) by simp
  then have "bintree_postorder_height (Suc pos) > 0"
    using step by (simp add: bintree_postorder_height_def)
  moreover have "Suc pos < 2 ^ 64" using step assms(1) by simp
  ultimately show ?case using step by (simp only: rewind_pos_step if_True)
qed

lemma rewind_pos_n_leaves:
  assumes "Suc (mmr_size (n_leaves pos)) < 2 ^ 64" "pos < 2 ^ 64"
  shows "rewind_pos pos = mmr_size (n_leaves pos)"
proof (cases "n_leaves pos")
  case 0
  then have "pos = 0" using n_leaves_le_iff [OF assms(2), of 0] by simp
  then show ?thesis using rewind_pos_mmr_size [of 0] 0 by simp
next
  case (Suc m)
  have "mmr_size m < pos" "pos \<le> mmr_size (Suc m)"
    using n_leaves_le_iff [OF assms(2), of m] n_leaves_le_iff [OF assms(2), of "Suc m"] Suc by simp_all
  then show ?thesis using rewind_pos_inside [of m pos] assms(1) Suc by simp
qed

section \<open>The vector backend\<close>

interpretation vecs: mmr_storage "vec_ops as_elmt" "\<lambda>b. map Some (vb_hashes b)" "\<lambda>_. True"
  "\<lambda>_ _ _. True" "\<lambda>_ _ _. True" for as_elmt
proof (unfold_locales, goal_cases)
  case (1 b pos)
  then show ?case by (auto simp: vec_ops_def vec_get_from_file_def vec_get_def)
next
  case (2 b pos h)
  then show ?case by (simp add: vec_ops_def vec_get_hash_def split: if_splits)
next
  case (3 b x hs)
  then show ?case by (simp add: vec_ops_def vec_append_def Let_def split: option.splits)
next
  case (4 b pos rm)
  then show ?case by (auto simp: vec_ops_def vec_rewind_def Let_def take_map split: option.splits)
next
  case (5 b pos)
  then show ?case by (simp add: vec_ops_def vec_remove_def)
qed

section \<open>Runs of a range over the vector backend\<close>

text \<open>
  \<open>vec_mmr blake ser xs pm\<close>: the range over the vector backend stands for the leaves \<open>xs\<close>, and the data
  vector, when there is one, is \<open>xs\<close>.
\<close>

definition vec_mmr :: "(bytes \<Rightarrow> hash) \<Rightarrow> ('t \<Rightarrow> bytes) \<Rightarrow> 't list \<Rightarrow> 't vec_backend pmmr \<Rightarrow> bool" where
  "vec_mmr blake ser xs pm \<longleftrightarrow>
     mmr_state (\<lambda>b. map Some (vb_hashes b)) (\<lambda>_. True) blake ser xs pm
   \<and> vb_data (backend pm) \<in> {None, Some xs}"

lemma vec_mmr_new:
  "vec_mmr blake ser [] (pmmr_new vec_new)" "vec_mmr blake ser [] (pmmr_new vec_new_hash_only)"
  by (simp_all add: vec_mmr_def mmr_state_def pmmr_new_def vec_new_def vec_new_hash_only_def)

lemma pmmr_push_Inr:
  assumes "pmmr_push ops blake ser pm x = Inr (p, pm')"
  shows "\<exists>hs. be_append ops (backend pm) x hs = Inr (backend pm')"
  using assms by (auto simp: pmmr_push_def Let_def rbind_eq_Inr case_prod_beta split: if_splits)

lemma vec_append_data:
  "vec_append b x hs = Inr b' \<Longrightarrow> vb_data b' = map_option (\<lambda>d. d @ [x]) (vb_data b)"
  by (auto simp: vec_append_def Let_def split: option.splits)

lemma vec_mmr_push:
  assumes "vec_mmr blake ser xs pm" "mmr_size (Suc (length xs)) < 2 ^ 64"
  shows "\<exists>pm'. pmmr_push (vec_ops as_elmt) blake ser pm x = Inr (mmr_size (length xs) + 1, pm')
    \<and> vec_mmr blake ser (xs @ [x]) pm'"
proof -
  obtain pm' where pm': "pmmr_push (vec_ops as_elmt) blake ser pm x = Inr (mmr_size (length xs) + 1, pm')"
    "mmr_state (\<lambda>b. map Some (vb_hashes b)) (\<lambda>_. True) blake ser (xs @ [x]) pm'"
    using vecs.push_stands_for [of blake ser xs pm as_elmt x] assms by (auto simp: vec_mmr_def)
  then obtain hs where "vec_append (backend pm) x hs = Inr (backend pm')"
    using pmmr_push_Inr by (fastforce simp: vec_ops_def)
  then have "vb_data (backend pm') = map_option (\<lambda>d. d @ [x]) (vb_data (backend pm))"
    by (rule vec_append_data)
  then show ?thesis using pm' assms(1) by (auto simp: vec_mmr_def)
qed

lemma vec_mmr_rewind:
  assumes "vec_mmr blake ser xs pm" "n_leaves position \<le> length xs" "position < 2 ^ 64"
    "Suc (mmr_size (length xs)) < 2 ^ 64"
  shows "\<exists>pm'. pmmr_rewind (vec_ops as_elmt) pm position rm = Inr pm'
    \<and> vec_mmr blake ser (take (n_leaves position) xs) pm'"
proof -
  let ?m = "n_leaves position"
  have lt: "Suc (mmr_size ?m) < 2 ^ 64" using assms(2,4) mmr_size_le_iff [of ?m "length xs"] by linarith
  note rw = rewind_pos_n_leaves [OF lt assms(3)]
  obtain pm' where pm': "pmmr_rewind (vec_ops as_elmt) pm position rm = Inr pm'"
    "mmr_state (\<lambda>b. map Some (vb_hashes b)) (\<lambda>_. True) blake ser (take ?m xs) pm'"
    using vecs.rewind_stands_for [OF _ _ assms(2) rw, of blake ser pm as_elmt rm] assms(1)
    by (auto simp: vec_mmr_def)
  then have "vb_data (backend pm') = map_option (take (n_leaves (mmr_size ?m))) (vb_data (backend pm))"
    by (auto simp: pmmr_rewind_def vec_ops_def vec_rewind_def Let_def rw split: option.splits)
  moreover have "n_leaves (mmr_size ?m) = ?m" using lt by (intro n_leaves_mmr_size) simp
  ultimately show ?thesis using pm' assms(1) by (auto simp: vec_mmr_def)
qed

lemma vec_mmr_prune:
  assumes "vec_mmr blake ser xs pm" "pmmr_prune (vec_ops as_elmt) pm position = Inr (flag, pm')"
  shows "vec_mmr blake ser xs pm'"
proof -
  have "vb_data (backend pm') = vb_data (backend pm)"
    using assms(2) by (auto simp: pmmr_prune_def vec_ops_def vec_remove_def split: if_splits)
  then show ?thesis using assms vecs.prune_stands_for [of blake ser xs pm as_elmt position flag pm']
    by (simp add: vec_mmr_def)
qed

text \<open>Any interleaving of pushes, rewinds to a position inside the range, and prunes.\<close>

inductive vec_run :: "('t \<Rightarrow> 'e) \<Rightarrow> (bytes \<Rightarrow> hash) \<Rightarrow> ('t \<Rightarrow> bytes) \<Rightarrow> 't list \<Rightarrow> 't vec_backend pmmr \<Rightarrow> bool"
  for as_elmt blake ser where
  run_new: "vec_run as_elmt blake ser [] (pmmr_new vec_new)"
| run_push: "vec_run as_elmt blake ser xs pm \<Longrightarrow> mmr_size (Suc (length xs)) < 2 ^ 62 \<Longrightarrow>
    pmmr_push (vec_ops as_elmt) blake ser pm x = Inr (p, pm') \<Longrightarrow> vec_run as_elmt blake ser (xs @ [x]) pm'"
| run_rewind: "vec_run as_elmt blake ser xs pm \<Longrightarrow> position \<le> last_pos pm \<Longrightarrow>
    pmmr_rewind (vec_ops as_elmt) pm position rm = Inr pm' \<Longrightarrow>
    vec_run as_elmt blake ser (take (n_leaves position) xs) pm'"
| run_prune: "vec_run as_elmt blake ser xs pm \<Longrightarrow>
    pmmr_prune (vec_ops as_elmt) pm position = Inr (flag, pm') \<Longrightarrow> vec_run as_elmt blake ser xs pm'"

lemma vec_run_vec_mmr:
  "vec_run as_elmt blake ser xs pm \<Longrightarrow> vec_mmr blake ser xs pm \<and> mmr_size (length xs) < 2 ^ 62"
proof (induction rule: vec_run.induct)
  case run_new
  then show ?case using vec_mmr_new(1) by simp
next
  case (run_push xs pm x p pm')
  then show ?case using vec_mmr_push [of blake ser xs pm as_elmt x] by auto
next
  case (run_rewind xs pm position rm pm')
  then have pos: "position \<le> mmr_size (length xs)" by (simp add: vec_mmr_def mmr_state_def)
  then have "position < 2 ^ 64" using run_rewind by simp
  then have le: "n_leaves position \<le> length xs" using pos by (simp only: n_leaves_le_iff)
  have "mmr_size (n_leaves position) < 2 ^ 62"
    using run_rewind le by (meson le_less_trans mmr_size_le_iff)
  then show ?case using vec_mmr_rewind [OF _ le \<open>position < 2 ^ 64\<close>, of blake ser pm as_elmt rm] run_rewind le
    by (auto simp: min_absorb2)
next
  case (run_prune xs pm position flag pm')
  then show ?case using vec_mmr_prune by blast
qed

section \<open>Views and prefixes\<close>

context mmr_storage
begin

lemma peaks_prefix:
  assumes st: "stands_for blake ser xs pm" and full: "None \<notin> set (hfile (backend pm))" and m: "m \<le> length xs"
  shows "filter_map (be_get_from_file ops (backend pm)) (peaks (mmr_size m)) = mountain_hashes blake ser (take m xs)"
proof -
  have "mmr_size m \<le> mmr_size (length xs)" "mmr_size (length xs) < 2 ^ 64"
    using m st by (simp_all add: stands_for_def)
  then have lt: "mmr_size m < 2 ^ 64" by linarith
  have node: "be_get_from_file ops (backend pm) (node_pos h j) = Some (node_hash blake ser (take m xs) h j)"
    if hj: "(h, j) \<in> set (mountains m)" for h j
  proof -
    have ex: "(j + 1) * 2 ^ h \<le> m" using mountains_exist [OF hj] .
    then have ex': "(j + 1) * 2 ^ h \<le> length xs" using m by linarith
    have le: "node_pos h j \<le> length (hfile (backend pm))"
      using ex' node_pos_le_mmr_size [of h j "length xs"] st by (simp add: stands_for_def mmr_file_def)
    have "be_get_from_file ops (backend pm) (node_pos h j) = hfile (backend pm) ! (node_pos h j - 1)"
      using get_from_file_law [of "backend pm" "node_pos h j"] st le by (simp add: stands_for_def)
    moreover have "hfile (backend pm) ! (node_pos h j - 1) \<in> set (hfile (backend pm))"
      using le node_pos_pos(1) [of h j] by (intro nth_mem) linarith
    ultimately have "be_get_from_file ops (backend pm) (node_pos h j) \<noteq> None" using full by metis
    then show ?thesis using get_from_file_node [OF st ex'] node_hash_take [OF ex m] by auto
  qed
  have "filter_map (be_get_from_file ops (backend pm)) (map (\<lambda>(h, j). node_pos h j) ms)
      = map (\<lambda>(h, j). node_hash blake ser (take m xs) h j) ms"
    if "set ms \<subseteq> set (mountains m)" for ms
    using that node by (induction ms) auto
  then show ?thesis using m lt by (simp add: peaks_mmr_size mountain_hashes_def min_absorb2)
qed

lemma rw_root_prefix:
  assumes "stands_for blake ser xs pm" "None \<notin> set (hfile (backend pm))" "m \<le> length xs"
    and "rewind_pos position = mmr_size m" "rw_rewind pm position = Inr pm'"
  shows "rw_root ops blake pm' = Inr (mmr_root blake ser (take m xs))"
proof -
  have pm': "pm' = pm\<lparr>last_pos := mmr_size m\<rparr>" using assms(4,5) by (simp add: rw_rewind_def)
  have "mmr_size m = 0 \<longleftrightarrow> m = 0" using le_mmr_size [of m] by auto
  then show ?thesis
    unfolding rw_root_def foldl_bag_step mmr_root_def rw_peaks_def pm'
    using peaks_prefix [OF assms(1-3)] assms(3)
    by (auto simp: is_empty_def unpruned_size_def mountain_hashes_def min_absorb2 split: option.splits)
qed

end

lemma ro_root_readonly:
  "ro_root ops blake (readonly_pmmr pm) = (case root ops blake pm of Inl _ \<Rightarrow> None | Inr h \<Rightarrow> Some h)"
  by (auto simp: ro_root_def root_def readonly_pmmr_def pmmr_at_def is_empty_def unpruned_size_def
      ro_peaks_def pmmr_peaks_def split: option.splits)

section \<open>The root binds the leaves\<close>

lemma mountains_cover:
  assumes "i < n"
  obtains h j where "(h, j) \<in> set (mountains n)" "j * 2 ^ h \<le> i" "i < (j + 1) * 2 ^ h"
proof -
  define k where "k = (LEAST k. i div 2 ^ k = n div 2 ^ k)"
  have "n < 2 ^ n" by (rule less_exp)
  moreover have "i < 2 ^ n" using assms calculation by linarith
  ultimately have "i div 2 ^ n = n div 2 ^ n" by (simp only: div_less)
  then have eq: "i div 2 ^ k = n div 2 ^ k" unfolding k_def by (rule LeastI)
  then obtain h where k: "k = Suc h" using assms by (cases k) auto
  have ne: "i div 2 ^ h \<noteq> n div 2 ^ h"
    using not_less_Least [of h "\<lambda>k. i div 2 ^ k = n div 2 ^ k"] k k_def by auto
  have le: "i div 2 ^ h \<le> n div 2 ^ h" using assms by (simp add: div_le_mono)
  have half: "i div 2 ^ h div 2 = n div 2 ^ h div 2" using eq unfolding k power_Suc2 div_mult2_eq .
  have "a = b - 1 \<and> odd b" if "a \<noteq> b" "a \<le> b" "a div 2 = b div 2" for a b :: nat
  proof -
    have "a = b div 2 * 2 + a mod 2" using that(3) div_mult_mod_eq [of a 2] by simp
    moreover have "b = b div 2 * 2 + b mod 2" by simp
    moreover have "a mod 2 < 2" "b mod 2 < 2" by simp_all
    ultimately have "b = a + 1" "b mod 2 = 1" using that(1,2) by linarith+
    moreover have "odd b" using \<open>b mod 2 = 1\<close> by (simp only: odd_iff_mod_2_eq_one)
    ultimately show ?thesis by simp
  qed
  from this [OF ne le half] have j: "i div 2 ^ h = n div 2 ^ h - 1" and "odd (n div 2 ^ h)" by blast+
  then have "(h, i div 2 ^ h) \<in> set (mountains n)" by (simp add: in_mountains)
  moreover have "i div 2 ^ h * 2 ^ h \<le> i" by simp
  moreover have "i < (i div 2 ^ h + 1) * 2 ^ h" using dividend_less_div_times [of "2 ^ h" i] by simp
  ultimately show ?thesis by (rule that)
qed

lemma hash_with_index_inj:
  "inj blake \<Longrightarrow> hash_with_index blake x i = hash_with_index blake y i \<Longrightarrow> x = y"
  by (auto simp: hash_with_index_def dest: injD)

lemma length_node_hash:
  assumes "\<And>x. length (blake x) = 32"
  shows "length (node_hash blake ser xs h j) = 32"
  by (cases h) (simp_all add: hash_with_index_def assms)

lemma node_hash_binds:
  assumes inj: "inj blake" and len: "\<And>x. length (blake x) = 32"
  shows "node_hash blake ser xs h j = node_hash blake ser ys h j \<Longrightarrow> j * 2 ^ h \<le> i \<Longrightarrow> i < (j + 1) * 2 ^ h
    \<Longrightarrow> ser (xs ! i) = ser (ys ! i)"
proof (induction h arbitrary: j)
  case 0
  then have "i = j" by simp
  with 0 show ?case using hash_with_index_inj [OF inj] by simp
next
  case (Suc h)
  let ?x = "node_hash blake ser xs h" and ?y = "node_hash blake ser ys h"
  have "?x (2 * j) @ ?x (2 * j + 1) = ?y (2 * j) @ ?y (2 * j + 1)"
    using Suc.prems(1) hash_with_index_inj [OF inj] by simp
  then have eqs: "?x (2 * j) = ?y (2 * j)" "?x (2 * j + 1) = ?y (2 * j + 1)"
    by (simp_all add: length_node_hash [OF len])
  show ?case
  proof (cases "i < (2 * j + 1) * 2 ^ h")
    case True
    then show ?thesis using Suc.IH [OF eqs(1)] Suc.prems(2) by simp
  next
    case False
    then show ?thesis using Suc.IH [OF eqs(2)] Suc.prems(3) by (simp add: algebra_simps)
  qed
qed

lemma bag_Cons:
  "ps \<noteq> [] \<Longrightarrow> bag blake sz (p # ps) = map_option (\<lambda>r. hash_with_index blake (p @ r) sz) (bag blake sz ps)"
  by (cases ps) simp_all

lemma bag_inj:
  assumes inj: "inj blake"
  shows "length ps = length qs \<Longrightarrow> \<forall>p \<in> set ps \<union> set qs. length p = 32 \<Longrightarrow>
    bag blake sz ps = bag blake sz qs \<Longrightarrow> ps = qs"
proof (induction ps arbitrary: qs)
  case (Cons p ps)
  obtain q qs' where qs: "qs = q # qs'" using Cons.prems(1) by (cases qs) auto
  show ?case
  proof (cases "ps = []")
    case True
    then show ?thesis using Cons.prems qs by simp
  next
    case False
    then have "qs' \<noteq> []" using Cons.prems(1) qs by auto
    obtain r r' where r: "bag blake sz ps = Some r" "bag blake sz qs' = Some r'"
      using False \<open>qs' \<noteq> []\<close> by (metis bag_eq_None not_None_eq)
    have "p @ r = q @ r'"
      using Cons.prems(3) r False \<open>qs' \<noteq> []\<close> hash_with_index_inj [OF inj] qs by (simp add: bag_Cons)
    moreover have "length p = length q" using Cons.prems(2) qs by simp
    ultimately have "p = q" "r = r'" by simp_all
    then show ?thesis using Cons qs r by simp
  qed
qed simp

lemma mmr_root_inj:
  assumes inj: "inj blake" and len: "\<And>x. length (blake x) = 32"
    and "length xs = length ys" "mmr_root blake ser xs = mmr_root blake ser ys"
  shows "map ser xs = map ser ys"
proof (rule nth_equalityI)
  let ?sz = "mmr_size (length xs)"
  let ?X = "mountain_hashes blake ser xs" and ?Y = "mountain_hashes blake ser ys"
  have lens: "length ?X = length ?Y" "\<forall>p \<in> set ?X \<union> set ?Y. length p = 32"
    using assms(3) by (auto simp: mountain_hashes_def length_node_hash [OF len])
  have "?X = [] \<longleftrightarrow> ?Y = []" using lens(1) by auto
  then have "bag blake ?sz ?X = bag blake ?sz ?Y"
    using assms(3,4) by (auto simp: mmr_root_def split: option.splits)
  then have peaks: "?X = ?Y" using bag_inj [OF inj] lens by blast
  fix i assume "i < length (map ser xs)"
  then have i: "i < length xs" by simp
  obtain h j where hj: "(h, j) \<in> set (mountains (length xs))" "j * 2 ^ h \<le> i" "i < (j + 1) * 2 ^ h"
    using mountains_cover [OF i] .
  have "node_hash blake ser xs h j = node_hash blake ser ys h j"
    using peaks hj(1) assms(3) by (auto simp: mountain_hashes_def)
  then have "ser (xs ! i) = ser (ys ! i)" using node_hash_binds [OF inj len] hj by blast
  then show "map ser xs ! i = map ser ys ! i" using i assms(3) by simp
qed (simp add: assms(3))

section \<open>Data and iterators of the vector backend\<close>

lemma vec_mmr_hashes: "vec_mmr blake ser xs pm \<Longrightarrow> length (vb_hashes (backend pm)) = mmr_size (length xs)"
  by (simp add: vec_mmr_def mmr_state_def mmr_file_def)

lemma vec_get_data_leaf:
  assumes "vec_mmr blake ser xs pm" "vb_data (backend pm) \<noteq> None" "i < length xs"
  shows "pmmr_get_data (vec_ops as_elmt) pm (node_pos 0 i)
    = (if node_pos 0 i \<in> vb_removed (backend pm) then None else Some (as_elmt (xs ! i)))"
proof -
  have lp: "last_pos pm = mmr_size (length xs)" and lt: "mmr_size (length xs) < 2 ^ 64"
    and d: "vb_data (backend pm) = Some xs"
    using assms by (auto simp: vec_mmr_def mmr_state_def)
  have le: "node_pos 0 i \<le> mmr_size (length xs)" using assms(3) node_pos_le_mmr_size [of 0 i] by simp
  then have leaf: "is_leaf (node_pos 0 i)" "n_leaves (node_pos 0 i) = Suc i"
    using lt is_leaf_node_pos [of 0 i] n_leaves_leaf [of i] by simp_all
  show ?thesis using le lp leaf d assms(3)
    by (auto simp: pmmr_get_data_def vec_ops_def vec_get_data_def vec_get_data_from_file_def vec_get_def)
qed

lemma vec_run_data: "vec_run as_elmt blake ser xs pm \<Longrightarrow> vb_data (backend pm) \<noteq> None"
proof (induction rule: vec_run.induct)
  case run_new
  then show ?case by (simp add: pmmr_new_def vec_new_def)
next
  case (run_push xs pm x p pm')
  obtain hs where "vec_append (backend pm) x hs = Inr (backend pm')"
    using pmmr_push_Inr [OF run_push.hyps(3)] by (auto simp: vec_ops_def)
  from vec_append_data [OF this] run_push.IH show ?case by simp
next
  case (run_rewind xs pm position rm pm')
  then show ?case by (auto simp: pmmr_rewind_def vec_ops_def vec_rewind_def Let_def)
next
  case (run_prune xs pm position flag pm')
  then show ?case by (auto simp: pmmr_prune_def vec_ops_def vec_remove_def split: if_splits)
qed

text \<open>A run that pushes two elements, for any digest.\<close>

lemma vec_push_removed:
  assumes "pmmr_push (vec_ops as_elmt) blake ser pm x = Inr (p, pm')"
  shows "vb_removed (backend pm') = vb_removed (backend pm)"
proof -
  have "vb_removed b' = vb_removed b" if "vec_append b x hs = Inr b'" for b b' :: "'a vec_backend" and hs
    using that by (auto simp: vec_append_def Let_def split: option.splits)
  then show ?thesis using pmmr_push_Inr [OF assms] by (auto simp: vec_ops_def)
qed

lemma vec_run_two:
  "\<exists>pm. vec_run as_elmt blake ser [x, y] pm \<and> vb_removed (backend pm) = {}"
proof -
  have sz: "mmr_size (Suc (length ([] :: 'a list))) < 2 ^ 62" "mmr_size (Suc (length [x])) < 2 ^ 62"
    by (simp_all add: mmr_size_def)
  obtain p1 pm1 where 1: "pmmr_push (vec_ops as_elmt) blake ser (pmmr_new vec_new) x = Inr (p1, pm1)"
    using vec_mmr_push [OF vec_mmr_new(1), of as_elmt blake ser x] sz by auto
  have r1: "vec_run as_elmt blake ser [x] pm1" using run_push [OF run_new sz(1) 1] by simp
  have "vec_mmr blake ser [x] pm1" using vec_run_vec_mmr [OF r1] by blast
  then obtain p2 pm2 where 2: "pmmr_push (vec_ops as_elmt) blake ser pm1 y = Inr (p2, pm2)"
    using vec_mmr_push [of blake ser "[x]" pm1 as_elmt y] sz by auto
  have "vec_run as_elmt blake ser [x, y] pm2" using run_push [OF r1 sz(2) 2] by simp
  moreover have "vb_removed (backend pm2) = {}"
    using vec_push_removed [OF 1] vec_push_removed [OF 2] by (simp add: pmmr_new_def vec_new_def)
  ultimately show ?thesis by blast
qed

section \<open>Properties\<close>



text \<open>
  Claim C6. After any sequence of pushes, rewinds and prunes that leaves the elements \<open>xs\<close>, the range
  has the size for \<open>xs\<close>, its root (and the root of its read-only view) is the reference root of \<open>xs\<close>,
  \<open>validate\<close> accepts it, and every element that was not pruned is returned at its leaf.
\<close>

theorem vec_run_correct:
  assumes "vec_run as_elmt blake ser xs pm"
  shows "last_pos pm = mmr_size (length xs)
    \<and> root (vec_ops as_elmt) blake pm = Inr (mmr_root blake ser xs)
    \<and> ro_root (vec_ops as_elmt) blake (readonly_pmmr pm) = Some (mmr_root blake ser xs)
    \<and> validate (vec_ops as_elmt) blake pm = Inr ()
    \<and> (\<forall>i < length xs.
         pmmr_get_data (vec_ops as_elmt) pm (insertion_to_pmmr_index (Suc i))
           = (if insertion_to_pmmr_index (Suc i) \<in> vb_removed (backend pm) then None
              else Some (as_elmt (xs ! i))))"
proof -
  have v: "vec_mmr blake ser xs pm" using vec_run_vec_mmr [OF assms] by blast
  then have st: "mmr_state (\<lambda>b. map Some (vb_hashes b)) (\<lambda>_. True) blake ser xs pm" by (simp add: vec_mmr_def)
  have r: "root (vec_ops as_elmt) blake pm = Inr (mmr_root blake ser xs)" by (rule vecs.root_stands_for [OF st])
  show ?thesis
    using st r vecs.validate_stands_for [OF st, where as_elmt = as_elmt]
      vec_get_data_leaf [OF v vec_run_data [OF assms], where as_elmt = as_elmt]
    by (auto simp: mmr_state_def ro_root_readonly insertion_to_pmmr_index_node_pos)
qed

lemma vec_run_correct_witness:
  "\<exists>pm. vec_run id (\<lambda>_. ZERO_HASH) write_u8 [7, 9] pm
    \<and> root (vec_ops id) (\<lambda>_. ZERO_HASH) pm = Inr (mmr_root (\<lambda>_. ZERO_HASH) write_u8 [7, 9])"
proof -
  obtain pm where pm: "vec_run id (\<lambda>_. ZERO_HASH) write_u8 [7, 9] pm" using vec_run_two [of id "\<lambda>_. ZERO_HASH" write_u8 7 9] by blast
  with vec_run_correct [OF pm] show ?thesis by blast
qed





end
