(* ===== verification/Chain_Types.thy ===== *)
theory Chain_Types
  imports Compact_Block Pmmr
begin

text \<open>
  The types of the chain crate (\<open>chain/src/types.rs\<close>, \<open>chain/src/error.rs\<close>): errors, options, tips, positions of commitments,
  the roots of the seven ranges, and the state of the synchronisation. \<open>blake\<close> is the hash function; strings inside errors
  are kept where the code builds them from a literal.
\<close>

section \<open>Errors\<close>

datatype store_error = NotFoundErr | LmdbErr | StoreSerErr ser_error

datatype (plugins del: size quickcheck_random quickcheck_exhaustive quickcheck_bounded_forall quickcheck_full_exhaustive quickcheck_narrowing transfer lifting) chain_error =
    Unfit string
  | Orphan
  | BitDifficultyTooLow
  | DifficultyTooLow
  | WrongTotalDifficulty
  | LowEdgebits
  | InvalidScaling
  | InvalidPow
  | InvalidCoinbase
  | InvalidMerklebranch
  | BadBitDiffbits
  | OldBlock
  | InvalidBlockProof block_error
  | InvalidBlockTime
  | InvalidBlockHeight
  | InvalidRoot
  | InvalidMMRSize
  | Keychain keychain_error
  | Secp secp_error
  | AlreadySpent commitment
  | DuplicateCommitment commitment
  | DuplicateTokenKey token_key
  | ImmatureCoinbase
  | MerkleProof
  | OutputNotFound
  | RangeproofNotFound
  | TxKernelNotFound
  | OutputSpent
  | InvalidBlockVersion header_version_t
  | InvalidTxHashSet pmmr_error
  | StoreErr store_error
  | FileReadErr
  | SerErr ser_error
  | TxHashSetErr pmmr_error
  | TxHashSetMsg string
  | TxLockHeight
  | GenesisBlockRequired
  | Transaction tx_error
  | Other string
  | OtherPmmr pmmr_error
  | Committed committed_error
  | Stopped
  | Bitmap
  | BadAuxDataBlock
  | SyncError string
  | Panic
  | Diverges

text \<open>
  The last two are not errors of the code: \<open>Panic\<close> stands for the panics (\<open>unwrap\<close>, \<open>assert\<close>) of the functions that return this
  type, \<open>Diverges\<close> for a loop that does not end.
\<close>

definition is_bad_data :: "chain_error \<Rightarrow> bool" where
  "is_bad_data e =
    (case e of
       Unfit _ \<Rightarrow> False
     | Orphan \<Rightarrow> False
     | StoreErr _ \<Rightarrow> False
     | SerErr _ \<Rightarrow> False
     | TxHashSetErr _ \<Rightarrow> False
     | TxHashSetMsg _ \<Rightarrow> False
     | GenesisBlockRequired \<Rightarrow> False
     | Other _ \<Rightarrow> False
     | OtherPmmr _ \<Rightarrow> False
     | _ \<Rightarrow> True)"

section \<open>Options\<close>

type_synonym options = u32

definition NONE :: options where "NONE = 0"
definition SKIP_POW :: options where "SKIP_POW = 1"
definition SYNC :: options where "SYNC = 2"
definition MINE :: options where "MINE = 4"

definition options_contains :: "options \<Rightarrow> options \<Rightarrow> bool" where
  "options_contains opts x \<longleftrightarrow> opts AND x = x"

section \<open>State of the synchronisation\<close>

datatype sync_status =
    Initial
  | NoSync
  | AwaitingPeers bool
  | HeaderSync u64 u64
  | TxHashsetDownload int int int u64 u64 u64
  | TxHashsetSetup
  | TxHashsetKernelsValidation u64 u64
  | TxHashsetRangeProofsValidation u64 u64
  | TxHashsetTokenKernelsValidation u64 u64
  | TxHashsetTokenRangeProofsValidation u64 u64
  | TxHashsetSave
  | TxHashsetDone
  | BodySync u64 u64
  | Shutdown

record sync_state =
  ss_current :: sync_status
  ss_error :: "chain_error option"

definition sync_state_new :: sync_state where
  "sync_state_new = \<lparr>ss_current = Initial, ss_error = None\<rparr>"

definition is_syncing :: "sync_state \<Rightarrow> bool" where
  "is_syncing s \<longleftrightarrow> ss_current s \<noteq> NoSync"

definition ss_update :: "sync_status \<Rightarrow> sync_state \<Rightarrow> sync_state" where
  "ss_update new_status s = (if ss_current s = new_status then s else s\<lparr>ss_current := new_status\<rparr>)"

definition update_txhashset_download :: "sync_status \<Rightarrow> sync_state \<Rightarrow> bool \<times> sync_state" where
  "update_txhashset_download new_status s =
    (case new_status of TxHashsetDownload _ _ _ _ _ _ \<Rightarrow> (True, s\<lparr>ss_current := new_status\<rparr>) | _ \<Rightarrow> (False, s))"

definition set_sync_error :: "chain_error \<Rightarrow> sync_state \<Rightarrow> sync_state" where
  "set_sync_error e s = s\<lparr>ss_error := Some e\<rparr>"

definition clear_sync_error :: "sync_state \<Rightarrow> sync_state" where
  "clear_sync_error s = s\<lparr>ss_error := None\<rparr>"

text \<open>\<open>TxHashsetWriteStatus\<close>: the calls report the progress of a validation, \<open>SyncState\<close> stores it.\<close>

datatype write_status =
    OnSetup
  | OnValidationKernels u64 u64
  | OnValidationRproofs u64 u64
  | OnValidationTokenKernels u64 u64
  | OnValidationTokenRproofs u64 u64
  | OnSave
  | OnDone

definition on_write_status :: "write_status \<Rightarrow> sync_state \<Rightarrow> sync_state" where
  "on_write_status c = ss_update
    (case c of
       OnSetup \<Rightarrow> TxHashsetSetup
     | OnValidationKernels k t \<Rightarrow> TxHashsetKernelsValidation k t
     | OnValidationRproofs r t \<Rightarrow> TxHashsetRangeProofsValidation r t
     | OnValidationTokenKernels k t \<Rightarrow> TxHashsetTokenKernelsValidation k t
     | OnValidationTokenRproofs r t \<Rightarrow> TxHashsetTokenRangeProofsValidation r t
     | OnSave \<Rightarrow> TxHashsetSave
     | OnDone \<Rightarrow> TxHashsetDone)"

section \<open>Roots\<close>

record output_roots =
  or_pmmr_root :: hash
  or_bitmap_root :: hash

definition merged_root :: "(bytes \<Rightarrow> hash) \<Rightarrow> output_roots \<Rightarrow> block_header \<Rightarrow> hash" where
  "merged_root blake r h = hash_with_index blake (write_hash (or_pmmr_root r) @ write_hash (or_bitmap_root r)) (unat (h_output_mmr_size h))"

definition output_roots_root :: "(bytes \<Rightarrow> hash) \<Rightarrow> output_roots \<Rightarrow> block_header \<Rightarrow> hash" where
  "output_roots_root blake r h = (if h_version h < 3 then or_pmmr_root r else merged_root blake r h)"

record txhashset_roots =
  tr_output_roots :: output_roots
  tr_rproof_root :: hash
  tr_kernel_root :: hash
  tr_token_output_root :: hash
  tr_token_rproof_root :: hash
  tr_token_issue_proof_root :: hash
  tr_token_kernel_root :: hash

definition tr_validate :: "(bytes \<Rightarrow> hash) \<Rightarrow> txhashset_roots \<Rightarrow> block_header \<Rightarrow> chain_error + unit" where
  "tr_validate blake r h =
    (if h_output_root h \<noteq> output_roots_root blake (tr_output_roots r) h \<or> h_range_proof_root h \<noteq> tr_rproof_root r
        \<or> h_kernel_root h \<noteq> tr_kernel_root r
     then Inl InvalidRoot
     else if h_token_output_root h \<noteq> tr_token_output_root r then Inl InvalidRoot
     else if h_token_range_proof_root h \<noteq> tr_token_rproof_root r then Inl InvalidRoot
     else if h_token_issue_proof_root h \<noteq> tr_token_issue_proof_root r then Inl InvalidRoot
     else if h_token_kernel_root h \<noteq> tr_token_kernel_root r then Inl InvalidRoot
     else Inr ())"

section \<open>Positions and tips\<close>

record commit_pos =
  cp_pos :: u64
  cp_height :: u64

definition write_commit_pos :: "commit_pos \<Rightarrow> bytes" where
  "write_commit_pos c = write_u64 (cp_pos c) @ write_u64 (cp_height c)"

definition read_commit_pos :: "reader \<Rightarrow> commit_pos parse" where
  "read_commit_pos r =
    rbind (read_u64 r) (\<lambda>(pos, r). rbind (read_u64 r) (\<lambda>(height, r). Inr (\<lparr>cp_pos = pos, cp_height = height\<rparr>, r)))"

record tip =
  t_height :: u64
  t_last_block_h :: hash
  t_prev_block_h :: hash
  t_total_difficulty :: difficulty

definition tip_from_header :: "chain_types \<Rightarrow> (bytes \<Rightarrow> hash) \<Rightarrow> block_header \<Rightarrow> tip" where
  "tip_from_header ct blake h = \<lparr>t_height = h_height h, t_last_block_h = hash_block_header ct blake h,
     t_prev_block_h = h_prev_hash h, t_total_difficulty = header_total_difficulty h\<rparr>"

definition tip_default :: tip where
  "tip_default = \<lparr>t_height = 0, t_last_block_h = ZERO_HASH, t_prev_block_h = ZERO_HASH, t_total_difficulty = difficulty_from_num 1\<rparr>"

definition tip_eq :: "chain_types \<Rightarrow> tip \<Rightarrow> tip \<Rightarrow> bool" where
  "tip_eq ct a b \<longleftrightarrow>
    (if t_height a \<ge> support_token_height ct
     then t_height a = t_height b \<and> t_last_block_h a = t_last_block_h b \<and> t_prev_block_h a = t_prev_block_h b
     else t_height a = t_height b \<and> t_last_block_h a = t_last_block_h b \<and> t_prev_block_h a = t_prev_block_h b
       \<and> t_total_difficulty a = t_total_difficulty b)"

definition write_tip :: "tip \<Rightarrow> bytes" where
  "write_tip t = write_u64 (t_height t) @ write_hash (t_last_block_h t) @ write_hash (t_prev_block_h t)
     @ write_difficulty (t_total_difficulty t)"

definition read_tip :: "reader \<Rightarrow> tip parse" where
  "read_tip r =
    rbind (read_u64 r) (\<lambda>(height, r).
    rbind (read_hash r) (\<lambda>(last_h, r).
    rbind (read_hash r) (\<lambda>(prev_h, r).
    rbind (read_difficulty r) (\<lambda>(diff, r).
      Inr (\<lparr>t_height = height, t_last_block_h = last_h, t_prev_block_h = prev_h, t_total_difficulty = diff\<rparr>, r)))))"

datatype block_status = Next | Fork | Reorg u64

section \<open>Round trips\<close>

definition tip_ok :: "tip \<Rightarrow> bool" where
  "tip_ok t \<longleftrightarrow> length (t_last_block_h t) = 32 \<and> length (t_prev_block_h t) = 32"

interpretation commit_posc: codec "\<lambda>_. write_commit_pos" read_commit_pos "\<lambda>_ _. True"
  by unfold_locales (simp add: read_commit_pos_def write_commit_pos_def tx_codec add.assoc)

interpretation tipc: codec "\<lambda>_. write_tip" read_tip "\<lambda>_. tip_ok"
  by unfold_locales (simp add: read_tip_def write_tip_def tip_ok_def read_difficulty_def write_difficulty_def tx_codec add.assoc)

lemma tr_validate_iff:
  "tr_validate blake r h = Inr () \<longleftrightarrow> h_output_root h = output_roots_root blake (tr_output_roots r) h
    \<and> h_range_proof_root h = tr_rproof_root r \<and> h_kernel_root h = tr_kernel_root r \<and> h_token_output_root h = tr_token_output_root r
    \<and> h_token_range_proof_root h = tr_token_rproof_root r \<and> h_token_issue_proof_root h = tr_token_issue_proof_root r
    \<and> h_token_kernel_root h = tr_token_kernel_root r"
  by (auto simp: tr_validate_def)

end
