(* ===== verification/Bitmap_Accumulator.thy ===== *)
theory Bitmap_Accumulator
  imports Chain_Types
begin

text \<open>
  The bitmap accumulator (\<open>chain/src/txhashset/bitmap_accumulator.rs\<close>): a range over a vector backend whose leaves are the
  chunks of 1024 bits of the bitmap of unspent outputs. A chunk is the list of its bits; \<open>tb\<close> stands for \<open>BitVec::to_bytes\<close>.
\<close>

section \<open>Chunks\<close>

type_synonym bitmap_chunk = "bool list"

definition LEN_BITS :: nat where "LEN_BITS = 1024"

definition chunk_new :: bitmap_chunk where
  "chunk_new = replicate LEN_BITS False"

definition chunk_set :: "bitmap_chunk \<Rightarrow> nat \<Rightarrow> bool \<Rightarrow> chain_error + bitmap_chunk" where
  "chunk_set c idx v = (if idx < LEN_BITS then Inr (c[idx := v]) else Inl Panic)"

definition chunk_any :: "bitmap_chunk \<Rightarrow> bool" where
  "chunk_any c \<longleftrightarrow> True \<in> set c"

section \<open>The accumulator\<close>

type_synonym bitmap_accumulator = "bitmap_chunk vec_backend"

definition bitmap_accumulator_new :: bitmap_accumulator where
  "bitmap_accumulator_new = vec_new_hash_only"

definition chunk_start_idx :: "nat \<Rightarrow> nat" where
  "chunk_start_idx idx = idx - idx mod 1024"

definition chunk_idx :: "nat \<Rightarrow> nat" where
  "chunk_idx idx = idx div 1024"

definition append_chunk ::
  "(bytes \<Rightarrow> hash) \<Rightarrow> (bitmap_chunk \<Rightarrow> bytes) \<Rightarrow> bitmap_accumulator \<Rightarrow> bitmap_chunk \<Rightarrow> chain_error + bitmap_accumulator" where
  "append_chunk blake tb acc chunk =
    rbind (map_err OtherPmmr (pmmr_push (vec_ops id) blake tb (pmmr_at acc (vec_size acc)) chunk)) (\<lambda>(_, pm). Inr (backend pm))"

text \<open>The loop of \<open>apply_from\<close> over the filtered indices; it returns the accumulator and the last, open chunk.\<close>

function apply_from_loop ::
  "(bytes \<Rightarrow> hash) \<Rightarrow> (bitmap_chunk \<Rightarrow> bytes) \<Rightarrow> nat list \<Rightarrow> nat \<Rightarrow> bitmap_chunk \<Rightarrow> bitmap_accumulator \<Rightarrow>
     chain_error + bitmap_accumulator \<times> bitmap_chunk" where
  "apply_from_loop blake tb [] ci chunk acc = Inr (acc, chunk)"
| "apply_from_loop blake tb (x # idxs) ci chunk acc =
    (if x < ci * 1024 then apply_from_loop blake tb idxs ci chunk acc
     else if x < (ci + 1) * 1024
       then rbind (chunk_set chunk (x mod 1024) True) (\<lambda>chunk. apply_from_loop blake tb idxs ci chunk acc)
       else rbind (append_chunk blake tb acc chunk) (\<lambda>acc. apply_from_loop blake tb (x # idxs) (ci + 1) chunk_new acc))"
  by pat_completeness auto
termination
  by (relation "measures [\<lambda>(_, _, idxs, _). length idxs, \<lambda>(_, _, idxs, ci, _). hd idxs - ci * 1024]") auto

definition apply_from ::
  "(bytes \<Rightarrow> hash) \<Rightarrow> (bitmap_chunk \<Rightarrow> bytes) \<Rightarrow> nat list \<Rightarrow> nat \<Rightarrow> nat \<Rightarrow> bitmap_accumulator \<Rightarrow> chain_error + bitmap_accumulator" where
  "apply_from blake tb idx from_idx sz acc =
    rbind (apply_from_loop blake tb (filter (\<lambda>x. x < sz) idx) (chunk_idx from_idx) chunk_new acc) (\<lambda>(acc, chunk).
      if chunk_any chunk then append_chunk blake tb acc chunk else Inr acc)"

definition ba_init ::
  "(bytes \<Rightarrow> hash) \<Rightarrow> (bitmap_chunk \<Rightarrow> bytes) \<Rightarrow> nat list \<Rightarrow> nat \<Rightarrow> bitmap_accumulator \<Rightarrow> chain_error + bitmap_accumulator" where
  "ba_init blake tb idx sz acc = apply_from blake tb idx 0 sz acc"

definition rewind_prior :: "nat \<Rightarrow> bitmap_accumulator \<Rightarrow> chain_error + bitmap_accumulator" where
  "rewind_prior from_idx acc =
    (let chunk_pos = insertion_to_pmmr_index (chunk_idx from_idx + 1)
     in rbind (map_err OtherPmmr (pmmr_rewind (vec_ops (id :: bitmap_chunk \<Rightarrow> bitmap_chunk)) (pmmr_at acc (vec_size acc)) (chunk_pos - 1) {}))
          (\<lambda>pm. Inr (backend pm)))"

fun append_empty :: "(bytes \<Rightarrow> hash) \<Rightarrow> (bitmap_chunk \<Rightarrow> bytes) \<Rightarrow> nat \<Rightarrow> bitmap_accumulator \<Rightarrow> chain_error + bitmap_accumulator" where
  "append_empty blake tb 0 acc = Inr acc"
| "append_empty blake tb (Suc n) acc = rbind (append_chunk blake tb acc chunk_new) (append_empty blake tb n)"

definition pad_left :: "(bytes \<Rightarrow> hash) \<Rightarrow> (bitmap_chunk \<Rightarrow> bytes) \<Rightarrow> nat \<Rightarrow> bitmap_accumulator \<Rightarrow> chain_error + bitmap_accumulator" where
  "pad_left blake tb from_idx acc = append_empty blake tb (chunk_idx from_idx - n_leaves (vec_size acc)) acc"

definition ba_apply ::
  "(bytes \<Rightarrow> hash) \<Rightarrow> (bitmap_chunk \<Rightarrow> bytes) \<Rightarrow> nat list \<Rightarrow> nat list \<Rightarrow> nat \<Rightarrow> bitmap_accumulator \<Rightarrow> chain_error + bitmap_accumulator" where
  "ba_apply blake tb invalidated_idx idx sz acc =
    (case invalidated_idx of
       [] \<Rightarrow> Inr acc
     | from_idx # _ \<Rightarrow>
        rbind (rewind_prior from_idx acc) (\<lambda>acc.
        rbind (pad_left blake tb from_idx acc) (\<lambda>acc.
          apply_from blake tb idx from_idx sz acc)))"

definition ba_root :: "(bytes \<Rightarrow> hash) \<Rightarrow> bitmap_accumulator \<Rightarrow> hash option" where
  "ba_root blake acc = ro_root (vec_ops (id :: bitmap_chunk \<Rightarrow> bitmap_chunk)) blake (pmmr_at acc (vec_size acc))"

section \<open>The bitmap as a list of chunks\<close>

definition bits_chunk :: "nat set \<Rightarrow> nat \<Rightarrow> bitmap_chunk" where
  "bits_chunk S c = map (\<lambda>k. c * 1024 + k \<in> S) [0..<1024]"

definition bits_chunks :: "nat set \<Rightarrow> nat \<Rightarrow> bitmap_chunk list" where
  "bits_chunks S n = map (bits_chunk S) [0..<n]"

definition n_chunks :: "nat set \<Rightarrow> nat" where
  "n_chunks S = (if S = {} then 0 else Suc (Max S div 1024))"

definition acc_for :: "(bytes \<Rightarrow> hash) \<Rightarrow> (bitmap_chunk \<Rightarrow> bytes) \<Rightarrow> bitmap_chunk list \<Rightarrow> bitmap_accumulator \<Rightarrow> bool" where
  "acc_for blake tb cs acc \<longleftrightarrow> vec_mmr blake tb cs (pmmr_at acc (vec_size acc))"

lemma acc_for_size: "acc_for blake tb cs acc \<Longrightarrow> vec_size acc = mmr_size (length cs)"
  by (simp add: acc_for_def vec_mmr_def mmr_state_def pmmr_at_def)

lemma acc_for_new: "acc_for blake tb [] bitmap_accumulator_new"
  using vec_mmr_new(2) [of blake tb]
  by (simp add: acc_for_def bitmap_accumulator_new_def pmmr_new_def pmmr_at_def vec_size_def vec_new_hash_only_def)

lemma mmr_size_small: "n < 2 ^ 32 \<Longrightarrow> Suc (mmr_size n) < 2 ^ 64"
  using mmr_size_alt [of n] by simp

lemma vec_mmr_at:
  assumes "vec_mmr blake tb cs pm" shows "acc_for blake tb cs (backend pm)"
proof -
  have "last_pos pm = vec_size (backend pm)" using assms by (simp add: vec_mmr_def mmr_state_def mmr_file_def vec_size_def)
  then have "pmmr_at (backend pm) (vec_size (backend pm)) = pm" by (cases pm) (simp add: pmmr_at_def)
  then show ?thesis using assms by (simp add: acc_for_def)
qed

lemma append_chunk_eq:
  assumes "acc_for blake tb cs acc" "length cs < 2 ^ 31"
  shows "\<exists>acc'. append_chunk blake tb acc c = Inr acc' \<and> acc_for blake tb (cs @ [c]) acc'"
proof -
  have "mmr_size (Suc (length cs)) < 2 ^ 64" using mmr_size_small [of "Suc (length cs)"] assms(2) by simp
  from vec_mmr_push [OF assms(1) [unfolded acc_for_def] this, of id c] show ?thesis
    by (auto simp: append_chunk_def dest: vec_mmr_at)
qed

lemma length_bits_chunk [simp]: "length (bits_chunk S c) = 1024"
  by (simp add: bits_chunk_def)

lemma nth_bits_chunk [simp]: "k < 1024 \<Longrightarrow> bits_chunk S c ! k \<longleftrightarrow> c * 1024 + k \<in> S"
  by (simp add: bits_chunk_def)

lemma bits_chunk_cong: "(\<And>x. x div 1024 = c \<Longrightarrow> x \<in> S \<longleftrightarrow> x \<in> T) \<Longrightarrow> bits_chunk S c = bits_chunk T c"
  by (intro nth_equalityI) simp_all

lemma bits_chunk_empty: "(\<And>x. x div 1024 = c \<Longrightarrow> x \<notin> S) \<Longrightarrow> bits_chunk S c = chunk_new"
  by (intro nth_equalityI) (simp_all add: chunk_new_def LEN_BITS_def)

lemma bits_chunk_any: "chunk_any (bits_chunk S c) \<longleftrightarrow> (\<exists>x \<in> S. x div 1024 = c)"
proof -
  have "chunk_any (bits_chunk S c) \<longleftrightarrow> (\<exists>k < 1024. c * 1024 + k \<in> S)" by (auto simp: chunk_any_def bits_chunk_def image_def)
  also have "\<dots> \<longleftrightarrow> (\<exists>x \<in> S. x div 1024 = c)"
  proof
    assume "\<exists>x \<in> S. x div 1024 = c"
    then obtain x where "x \<in> S" "x div 1024 = c" by blast
    then have "c * 1024 + x mod 1024 \<in> S" using div_mult_mod_eq [of x 1024] by simp
    then show "\<exists>k < 1024. c * 1024 + k \<in> S" by (intro exI [of _ "x mod 1024"]) simp
  next
    assume "\<exists>k < 1024. c * 1024 + k \<in> S"
    then obtain k where "k < 1024" "c * 1024 + k \<in> S" by blast
    then show "\<exists>x \<in> S. x div 1024 = c" by (intro bexI [of _ "c * 1024 + k"]) simp_all
  qed
  finally show ?thesis .
qed

lemma chunk_set_bits: "x div 1024 = c \<Longrightarrow> chunk_set (bits_chunk P c) (x mod 1024) True = Inr (bits_chunk (insert x P) c)"
proof -
  assume c: "x div 1024 = c"
  have "(bits_chunk P c)[x mod 1024 := True] = bits_chunk (insert x P) c"
  proof (rule nth_equalityI)
    fix k assume "k < length ((bits_chunk P c)[x mod 1024 := True])"
    then have k: "k < 1024" by simp
    have "c * 1024 + k = x \<longleftrightarrow> k = x mod 1024" using c k by (metis div_mult_mod_eq add_left_cancel)
    then show "(bits_chunk P c)[x mod 1024 := True] ! k = bits_chunk (insert x P) c ! k" using k by (simp add: nth_list_update)
  qed simp
  then show ?thesis by (simp add: chunk_set_def LEN_BITS_def)
qed

definition last_chunk :: "nat \<Rightarrow> nat list \<Rightarrow> nat" where
  "last_chunk ci idxs = (if idxs = [] then ci else max ci (last idxs div 1024))"

lemma last_chunk_Cons: "sorted (x # idxs) \<Longrightarrow> x div 1024 \<le> ci \<Longrightarrow> last_chunk ci (x # idxs) = last_chunk ci idxs"
  by (simp add: last_chunk_def)

lemma apply_from_loop_eq:
  "acc_for blake tb cs acc \<Longrightarrow> length cs = ci \<Longrightarrow> sorted idxs \<Longrightarrow> \<forall>x \<in> set idxs. x < 2 ^ 32 \<Longrightarrow> ci < 2 ^ 31 \<Longrightarrow>
    chunk = bits_chunk P ci \<Longrightarrow> \<forall>p \<in> P. p div 1024 \<le> ci \<Longrightarrow> T = P \<union> set idxs \<Longrightarrow>
    \<exists>acc'. apply_from_loop blake tb idxs ci chunk acc = Inr (acc', bits_chunk T (last_chunk ci idxs))
      \<and> acc_for blake tb (cs @ map (bits_chunk T) [ci..<last_chunk ci idxs]) acc'"
proof (induction blake tb idxs ci chunk acc arbitrary: cs P T rule: apply_from_loop.induct)
  case (1 blake tb ci chunk acc)
  then show ?case by (simp add: last_chunk_def)
next
  case (2 blake tb x idxs ci chunk acc)
  consider "x < ci * 1024" | "\<not> x < ci * 1024" "x < (ci + 1) * 1024" | "\<not> x < (ci + 1) * 1024" by linarith
  then show ?case
  proof cases
    case 1
    then have xc: "x div 1024 < ci" by (simp add: less_mult_imp_div_less)
    have eq: "bits_chunk T c = bits_chunk (P \<union> set idxs) c" if "ci \<le> c" for c
      using that xc by (intro bits_chunk_cong) (auto simp: \<open>T = P \<union> set (x # idxs)\<close>)
    have lc: "last_chunk ci (x # idxs) = last_chunk ci idxs" using 2(6) xc by (intro last_chunk_Cons) auto
    have le: "ci \<le> last_chunk ci idxs" by (simp add: last_chunk_def)
    obtain acc' where "apply_from_loop blake tb idxs ci chunk acc = Inr (acc', bits_chunk (P \<union> set idxs) (last_chunk ci idxs))"
        "acc_for blake tb (cs @ map (bits_chunk (P \<union> set idxs)) [ci..<last_chunk ci idxs]) acc'"
      using "2.IH"(1) [OF 1 2(4,5) _ _ 2(8-10) refl] 2(6,7) by auto
    moreover have m: "map (bits_chunk T) [ci..<last_chunk ci idxs] = map (bits_chunk (P \<union> set idxs)) [ci..<last_chunk ci idxs]"
      using eq by (intro map_cong) auto
    ultimately show ?thesis using 1 by (simp add: lc eq [OF le] m)
  next
    case c2: 2
    then have xc: "x div 1024 = ci" by (intro div_nat_eqI) simp_all
    have lc: "last_chunk ci (x # idxs) = last_chunk ci idxs" using 2(6) xc by (intro last_chunk_Cons) auto
    have st: "chunk_set chunk (x mod 1024) True = Inr (bits_chunk (insert x P) ci)" using chunk_set_bits [OF xc] 2(9) by simp
    have "sorted idxs" "\<forall>x \<in> set idxs. x < 2 ^ 32" "\<forall>p \<in> insert x P. p div 1024 \<le> ci" "T = insert x P \<union> set idxs" using 2(6,7,10,11) xc by auto
    from "2.IH"(2) [OF c2 2(4,5) this(1,2) 2(8) refl this(3,4)] show ?thesis using c2 st by (simp add: lc)
  next
    case 3
    then have ge: "\<not> x < ci * 1024" "\<not> x < (ci + 1) * 1024" by simp_all
    have big: "ci + 1 \<le> y div 1024" if "y \<in> set (x # idxs)" for y
    proof -
      have "x \<le> y" using 2(6) that by auto
      then show ?thesis using 3 by (simp add: less_eq_div_iff_mult_less_eq)
    qed
    have "chunk = bits_chunk T ci" unfolding 2(9) using big by (intro bits_chunk_cong) (auto simp: 2(11) Suc_le_eq)
    moreover obtain acc1 where a1: "append_chunk blake tb acc chunk = Inr acc1" "acc_for blake tb (cs @ [chunk]) acc1"
      using append_chunk_eq [OF 2(4)] 2(5,8) by blast
    moreover have "chunk_new = bits_chunk P (ci + 1)" using 2(10) by (intro bits_chunk_empty [symmetric]) fastforce
    moreover have "x div 1024 < 2 ^ 31" using 2(7) by (simp add: less_mult_imp_div_less)
    then have "ci + 1 < 2 ^ 31" using big [of x] by simp
    ultimately obtain acc' where "apply_from_loop blake tb (x # idxs) (ci + 1) chunk_new acc1 = Inr (acc', bits_chunk T (last_chunk (ci + 1) (x # idxs)))"
        "acc_for blake tb ((cs @ [bits_chunk T ci]) @ map (bits_chunk T) [ci + 1..<last_chunk (ci + 1) (x # idxs)]) acc'"
      using "2.IH"(3) [OF ge a1(2) _ 2(6,7) _ _ _ 2(11)] 2(5,10) by fastforce
    moreover have lc: "last_chunk (ci + 1) (x # idxs) = last (x # idxs) div 1024" "last_chunk ci (x # idxs) = last (x # idxs) div 1024"
      "ci < last (x # idxs) div 1024"
      using big [of "last (x # idxs)"] last_in_set [of "x # idxs"] by (simp_all add: last_chunk_def max_absorb2 del: last.simps)
    moreover have "[ci..<last (x # idxs) div 1024] = ci # [ci + 1..<last (x # idxs) div 1024]"
      using upt_conv_Cons [OF lc(3)] by (simp del: last.simps)
    ultimately show ?thesis using ge a1(1) by (simp del: last.simps)
  qed
qed

lemma le_last: "sorted xs \<Longrightarrow> x \<in> set xs \<Longrightarrow> x \<le> last xs"
  by (induction xs) auto

lemma n_chunks_last:
  assumes "sorted idxs" "T = set idxs"
  shows "last_chunk ci idxs + (if chunk_any (bits_chunk T (last_chunk ci idxs)) then 1 else 0) = max ci (n_chunks T)"
proof (cases "idxs = []")
  case True
  then show ?thesis using assms(2) by (simp add: last_chunk_def n_chunks_def bits_chunk_any)
next
  case False
  have Mx: "Max T = last idxs" using assms False le_last by (intro Max_eqI) auto
  show ?thesis
  proof (cases "ci \<le> last idxs div 1024")
    case True
    then have "chunk_any (bits_chunk T (last_chunk ci idxs))" using False assms(2) by (auto simp: bits_chunk_any last_chunk_def intro!: bexI [of _ "last idxs"])
    then show ?thesis using True False Mx assms(2) by (simp add: n_chunks_def last_chunk_def)
  next
    case small: False
    have "x div 1024 < ci" if "x \<in> T" for x
    proof -
      have "x \<le> last idxs" using that Mx assms(2) False by (metis List.finite_set Max_ge)
      then have "x div 1024 \<le> last idxs div 1024" by (rule div_le_mono)
      then show ?thesis using small by simp
    qed
    then have "\<not> chunk_any (bits_chunk T (last_chunk ci idxs))" using small False by (auto simp: bits_chunk_any last_chunk_def)
    then show ?thesis using small False Mx assms(2) by (simp add: n_chunks_def last_chunk_def)
  qed
qed

lemma apply_from_eq:
  assumes "acc_for blake tb cs acc" "length cs = chunk_idx from_idx" "sorted idx" "sz \<le> 2 ^ 32" "from_idx < 2 ^ 32"
    "T = {x \<in> set idx. x < sz}"
  shows "\<exists>acc'. apply_from blake tb idx from_idx sz acc = Inr acc'
    \<and> acc_for blake tb (cs @ map (bits_chunk T) [chunk_idx from_idx..<max (chunk_idx from_idx) (n_chunks T)]) acc'"
proof -
  let ?ci = "chunk_idx from_idx" and ?idx = "filter (\<lambda>x. x < sz) idx"
  have T: "T = set ?idx" using assms(6) by auto
  have srt: "sorted ?idx" using assms(3) by (rule sorted_wrt_filter)
  have ci: "?ci < 2 ^ 31" using assms(5) by (simp add: chunk_idx_def less_mult_imp_div_less)
  obtain acc1 where a1: "apply_from_loop blake tb ?idx ?ci chunk_new acc = Inr (acc1, bits_chunk T (last_chunk ?ci ?idx))"
      "acc_for blake tb (cs @ map (bits_chunk T) [?ci..<last_chunk ?ci ?idx]) acc1"
    using apply_from_loop_eq [OF assms(1,2) srt _ ci, of chunk_new "{}" T] assms(4) T bits_chunk_empty [of ?ci "{}"] by auto
  have bound: "length (cs @ map (bits_chunk T) [?ci..<last_chunk ?ci ?idx]) < 2 ^ 31"
  proof -
    have "last ?idx div 1024 < 2 ^ 31" if "?idx \<noteq> []"
      using last_in_set [OF that] assms(4) by (simp add: less_mult_imp_div_less)
    then show ?thesis using ci assms(2) by (auto simp: last_chunk_def)
  qed
  note nc = n_chunks_last [OF srt T, of ?ci]
  have le: "?ci \<le> last_chunk ?ci ?idx" by (simp add: last_chunk_def)
  show ?thesis
  proof (cases "chunk_any (bits_chunk T (last_chunk ?ci ?idx))")
    case True
    obtain acc2 where "append_chunk blake tb acc1 (bits_chunk T (last_chunk ?ci ?idx)) = Inr acc2"
        "acc_for blake tb ((cs @ map (bits_chunk T) [?ci..<last_chunk ?ci ?idx]) @ [bits_chunk T (last_chunk ?ci ?idx)]) acc2"
      using append_chunk_eq [OF a1(2) bound] by blast
    then show ?thesis using a1(1) True nc le by (simp add: apply_from_def flip: nc)
  next
    case False
    then show ?thesis using a1 nc by (simp add: apply_from_def flip: nc)
  qed
qed

lemma ba_init_eq:
  assumes "sorted idx" "sz \<le> 2 ^ 32" "T = {x \<in> set idx. x < sz}"
  shows "\<exists>acc. ba_init blake tb idx sz bitmap_accumulator_new = Inr acc \<and> acc_for blake tb (bits_chunks T (n_chunks T)) acc"
  using apply_from_eq [OF acc_for_new _ assms(1,2) _ assms(3), of 0 blake tb] by (simp add: ba_init_def chunk_idx_def bits_chunks_def)

lemma rewind_prior_eq:
  assumes "acc_for blake tb cs acc" "length cs < 2 ^ 31" "from_idx < 2 ^ 32"
  shows "\<exists>acc'. rewind_prior from_idx acc = Inr acc' \<and> acc_for blake tb (take (chunk_idx from_idx) cs) acc'"
proof -
  let ?c = "chunk_idx from_idx"
  have pos: "insertion_to_pmmr_index (Suc ?c) - Suc 0 = mmr_size ?c"
    using insertion_to_pmmr_index_node_pos [of ?c] by (simp add: node_pos_def last_leaf_def)
  have c: "?c < 2 ^ 31" using assms(3) by (simp add: chunk_idx_def less_mult_imp_div_less)
  then have sz: "Suc (mmr_size ?c) < 2 ^ 64" "Suc (mmr_size (length cs)) < 2 ^ 64" using mmr_size_small assms(2) by simp_all
  show ?thesis
  proof (cases "?c \<le> length cs")
    case True
    then have nl: "n_leaves (mmr_size ?c) = ?c" using sz(1) by simp
    from vec_mmr_rewind [OF assms(1) [unfolded acc_for_def], of "mmr_size ?c" id "{}"] True nl sz
    show ?thesis by (auto simp: rewind_prior_def pos dest: vec_mmr_at)
  next
    case False
    have "mmr_size (length cs) \<le> mmr_size ?c" using False by simp
    then have "vec_size acc \<le> mmr_size ?c" using acc_for_size [OF assms(1)] by simp
    moreover have "vb_data acc \<in> {None, Some cs}" using assms(1) by (simp add: acc_for_def vec_mmr_def pmmr_at_def)
    moreover have "n_leaves (mmr_size ?c) = ?c" using sz(1) by simp
    ultimately have "vec_rewind acc (mmr_size ?c) {} = Inr acc" using False by (auto simp: vec_rewind_def vec_size_def)
    then show ?thesis using assms(1) False rewind_pos_mmr_size [OF sz(1)]
      by (simp add: rewind_prior_def pos pmmr_rewind_def pmmr_at_def vec_ops_def)
  qed
qed

lemma append_empty_eq:
  "acc_for blake tb cs acc \<Longrightarrow> length cs + n < 2 ^ 31 \<Longrightarrow>
    \<exists>acc'. append_empty blake tb n acc = Inr acc' \<and> acc_for blake tb (cs @ replicate n chunk_new) acc'"
proof (induction n arbitrary: cs acc)
  case (Suc n)
  obtain a1 where a1: "append_chunk blake tb acc chunk_new = Inr a1" "acc_for blake tb (cs @ [chunk_new]) a1"
    using append_chunk_eq [OF Suc.prems(1)] Suc.prems(2) by auto
  then show ?case using Suc.IH [OF a1(2)] Suc.prems(2) by auto
qed simp

lemma ba_apply_eq:
  assumes "acc_for blake tb cs acc" "length cs < 2 ^ 31" "sorted idx" "sz \<le> 2 ^ 32" "from_idx < 2 ^ 32" "T = {x \<in> set idx. x < sz}"
  shows "\<exists>acc'. ba_apply blake tb (from_idx # later) idx sz acc = Inr acc'
    \<and> acc_for blake tb (take (chunk_idx from_idx) cs @ replicate (chunk_idx from_idx - length cs) chunk_new
        @ map (bits_chunk T) [chunk_idx from_idx..<max (chunk_idx from_idx) (n_chunks T)]) acc'"
proof -
  let ?c = "chunk_idx from_idx"
  have c: "?c < 2 ^ 31" using assms(5) by (simp add: chunk_idx_def less_mult_imp_div_less)
  obtain a1 where a1: "rewind_prior from_idx acc = Inr a1" "acc_for blake tb (take ?c cs) a1"
    using rewind_prior_eq [OF assms(1,2,5)] by blast
  have "min ?c (length cs) \<le> ?c" by simp
  then have "min ?c (length cs) < 2 ^ 32" using c by simp
  then have "mmr_size (min ?c (length cs)) < 2 ^ 64" using mmr_size_small by fastforce
  then have "n_leaves (vec_size a1) = min ?c (length cs)"
    using acc_for_size [OF a1(2)] n_leaves_mmr_size [of "min ?c (length cs)"] by (simp add: min.commute)
  then have n: "?c - n_leaves (vec_size a1) = ?c - length cs" by simp
  have "length (take ?c cs) + (?c - length cs) < 2 ^ 31" using c by (cases "?c \<le> length cs") simp_all
  from append_empty_eq [OF a1(2) this]
  obtain a2 where a2: "append_empty blake tb (?c - length cs) a1 = Inr a2" "acc_for blake tb (take ?c cs @ replicate (?c - length cs) chunk_new) a2"
    by blast
  have len: "length (take ?c cs @ replicate (?c - length cs) chunk_new) = ?c" by simp
  show ?thesis using apply_from_eq [OF a2(2) len assms(3-6)] a1(1) a2(1) n by (auto simp: ba_apply_def pad_left_def)
qed

lemma acc_for_root:
  assumes "acc_for blake tb cs acc" shows "ba_root blake acc = Some (mmr_root blake tb cs)"
proof -
  have st: "mmr_state (\<lambda>b. map Some (vb_hashes b)) (\<lambda>_. True) blake tb cs (pmmr_at acc (vec_size acc))"
    using assms by (simp add: acc_for_def vec_mmr_def)
  have "readonly_pmmr (pmmr_at acc (vec_size acc)) = pmmr_at acc (vec_size acc)" by (simp add: readonly_pmmr_def pmmr_at_def)
  then show ?thesis using vecs.root_stands_for [OF st, where as_elmt = id] ro_root_readonly [of "vec_ops id" blake "pmmr_at acc (vec_size acc)"]
    by (simp add: ba_root_def)
qed

lemma n_chunks_bound: "finite S \<Longrightarrow> x \<in> S \<Longrightarrow> x div 1024 < n_chunks S"
  using Max_ge [of S x] by (auto simp: n_chunks_def less_Suc_eq_le intro: div_le_mono)

lemma n_chunks_above:
  assumes "finite S" "T = {x \<in> S. c \<le> x div 1024}"
  shows "max c (n_chunks T) = max c (n_chunks S)"
proof (cases "T = {}")
  case True
  have "n_chunks S \<le> c"
  proof (cases "S = {}")
    case False
    then have "Max S \<in> S" using assms(1) by simp
    then show ?thesis using True assms(2) False by (auto simp: n_chunks_def Suc_le_eq)
  qed (simp add: n_chunks_def)
  then show ?thesis using True by (simp add: n_chunks_def)
next
  case False
  then obtain t where t: "t \<in> S" "c \<le> t div 1024" using assms(2) by auto
  have "Max S \<in> T" using assms(2) t div_le_mono [OF Max_ge [OF assms(1) t(1)], of 1024] Max_in [OF assms(1)] by auto
  then have "Max T = Max S" using assms by (intro Max_eqI) auto
  then show ?thesis using False t(1) by (auto simp: n_chunks_def)
qed

lemma chunks_updated:
  assumes "finite S0" "finite S1" "\<forall>x. x div 1024 < c \<longrightarrow> (x \<in> S0 \<longleftrightarrow> x \<in> S1)" "T = {x \<in> S1. c \<le> x div 1024}"
  shows "take c (bits_chunks S0 (n_chunks S0)) @ replicate (c - length (bits_chunks S0 (n_chunks S0))) chunk_new
      @ map (bits_chunk T) [c..<max c (n_chunks T)] = bits_chunks S1 (max c (n_chunks S1))"
proof -
  have lo: "take c (bits_chunks S0 (n_chunks S0)) @ replicate (c - length (bits_chunks S0 (n_chunks S0))) chunk_new = bits_chunks S1 c"
  proof (rule nth_equalityI)
    fix k assume "k < length (take c (bits_chunks S0 (n_chunks S0)) @ replicate (c - length (bits_chunks S0 (n_chunks S0))) chunk_new)"
    then have k: "k < c" by (simp add: bits_chunks_def)
    have "bits_chunk S0 k = bits_chunk S1 k" using k assms(3) by (intro bits_chunk_cong) auto
    moreover have "bits_chunk S0 k = chunk_new" if "n_chunks S0 \<le> k" using that n_chunks_bound [OF assms(1)] by (intro bits_chunk_empty) fastforce
    ultimately show "(take c (bits_chunks S0 (n_chunks S0)) @ replicate (c - length (bits_chunks S0 (n_chunks S0))) chunk_new) ! k = bits_chunks S1 c ! k"
      using k by (simp add: bits_chunks_def nth_append)
  qed (simp add: bits_chunks_def)
  have "map (bits_chunk T) [c..<max c (n_chunks T)] = map (bits_chunk S1) [c..<max c (n_chunks S1)]"
    unfolding n_chunks_above [OF assms(2,4)] using assms(4) by (intro map_cong bits_chunk_cong) auto
  then show ?thesis using lo upt_add_eq_append [of 0 c "max c (n_chunks S1) - c"] by (simp add: bits_chunks_def flip: append_assoc map_append)
qed

lemma sorted_dropWhile_set: "sorted xs \<Longrightarrow> set (dropWhile (\<lambda>x. x < (n::nat)) xs) = {x \<in> set xs. n \<le> x}"
  by (induction xs) auto

section \<open>Property\<close>



end
