(* ===== verification/Prune_List.thy ===== *)
theory Prune_List
  imports Pmmr
begin

text \<open>
  The prune list of the storage layer (\<open>store/src/prune_list.rs\<close>): the roots of the pruned subtrees, the cache of all
  pruned positions, and the caches of the shifts that translate a position into an index of the compacted hash and data
  files. A roaring bitmap is the set of its 32-bit values, \<open>as_u32\<close> the cast of a position to such a value. A panic is
  the value \<open>None\<close>; a loop that never ends is \<open>None\<close> too.

  The reference model is the set of pruned leaves: a node is pruned when all leaves below it are, a root is a pruned
  node whose parent is not, and the nodes strictly below the roots are compacted away.
\<close>

section \<open>Bitmaps\<close>

type_synonym bitmap = "nat set"

definition as_u32 :: "nat \<Rightarrow> nat" where
  "as_u32 x = x mod 2 ^ 32"

definition bm_iter :: "bitmap \<Rightarrow> nat list" where
  "bm_iter b = sorted_list_of_set b"

definition bm_maximum :: "bitmap \<Rightarrow> nat option" where
  "bm_maximum b = (if b = {} then None else Some (Max b))"

definition bm_rank :: "bitmap \<Rightarrow> nat \<Rightarrow> nat" where
  "bm_rank b x = card {y \<in> b. y \<le> x}"

lemma as_u32_id: "x < 2 ^ 32 \<Longrightarrow> as_u32 x = x"
  by (simp add: as_u32_def)

section \<open>The prune list\<close>

text \<open>\<open>pl_file\<close> is the bitmap on disk, \<open>None\<close> for a list without a path.\<close>

record prune_list =
  pl_file :: "bitmap option"
  pl_bitmap :: bitmap
  pl_pruned_cache :: bitmap
  pl_shift_cache :: "nat list"
  pl_leaf_shift_cache :: "nat list"

definition prune_list_new :: "bitmap option \<Rightarrow> bitmap \<Rightarrow> prune_list" where
  "prune_list_new fl bm =
    \<lparr>pl_file = fl, pl_bitmap = bm - {0}, pl_pruned_cache = {}, pl_shift_cache = [], pl_leaf_shift_cache = []\<rparr>"

definition prune_list_empty :: prune_list where
  "prune_list_empty = prune_list_new None {}"

text \<open>\<open>get_shift\<close> and \<open>get_leaf_shift\<close> look up the same rank in two caches.\<close>

definition cached_shift :: "bitmap \<Rightarrow> nat list \<Rightarrow> nat \<Rightarrow> nat option" where
  "cached_shift bm cache pos =
    (if bm = {} then Some 0
     else let idx = bm_rank bm (as_u32 pos)
          in if idx = 0 then Some 0
             else if idx > length cache then vec_get cache (length cache - 1)
             else vec_get cache (idx - 1))"

definition get_shift :: "prune_list \<Rightarrow> nat \<Rightarrow> nat option" where
  "get_shift pl pos = cached_shift (pl_bitmap pl) (pl_shift_cache pl) pos"

definition get_leaf_shift :: "prune_list \<Rightarrow> nat \<Rightarrow> nat option" where
  "get_leaf_shift pl pos = cached_shift (pl_bitmap pl) (pl_leaf_shift_cache pl) pos"

definition get_total_shift :: "prune_list \<Rightarrow> nat option" where
  "get_total_shift pl = get_shift pl (unwrap_or 0 (bm_maximum (pl_bitmap pl)))"

definition get_total_leaf_shift :: "prune_list \<Rightarrow> nat option" where
  "get_total_leaf_shift pl = get_leaf_shift pl (unwrap_or 0 (bm_maximum (pl_bitmap pl)))"

definition is_pruned :: "prune_list \<Rightarrow> nat \<Rightarrow> bool option" where
  "is_pruned pl pos = (if pos = 0 then None else Some (as_u32 pos \<in> pl_pruned_cache pl))"

definition is_pruned_root :: "prune_list \<Rightarrow> nat \<Rightarrow> bool option" where
  "is_pruned_root pl pos = (if pos = 0 then None else Some (as_u32 pos \<in> pl_bitmap pl))"

fun shift_loop :: "prune_list \<Rightarrow> nat list \<Rightarrow> prune_list option" where
  "shift_loop pl [] = Some pl"
| "shift_loop pl (pos # rest) =
    Option.bind (get_shift pl (pos - 1)) (\<lambda>prev_shift.
    Option.bind (is_pruned_root pl pos) (\<lambda>root.
      let curr_shift = (if root then 2 * (push_bit (bintree_postorder_height pos) 1 - 1) else 0)
      in shift_loop (pl\<lparr>pl_shift_cache := pl_shift_cache pl @ [prev_shift + curr_shift]\<rparr>) rest))"

definition build_shift_cache :: "prune_list \<Rightarrow> prune_list option" where
  "build_shift_cache pl =
    (if pl_bitmap pl = {} then Some pl
     else shift_loop (pl\<lparr>pl_shift_cache := []\<rparr>) (filter (\<lambda>x. x > 0) (bm_iter (pl_bitmap pl))))"

fun leaf_shift_loop :: "prune_list \<Rightarrow> nat list \<Rightarrow> prune_list option" where
  "leaf_shift_loop pl [] = Some pl"
| "leaf_shift_loop pl (pos # rest) =
    Option.bind (get_leaf_shift pl (pos - 1)) (\<lambda>prev_shift.
    Option.bind (is_pruned_root pl pos) (\<lambda>root.
      let curr_shift = (if root then let height = bintree_postorder_height pos
                                     in if height = 0 then 0 else push_bit height 1
                        else 0)
      in leaf_shift_loop (pl\<lparr>pl_leaf_shift_cache := pl_leaf_shift_cache pl @ [prev_shift + curr_shift]\<rparr>) rest))"

definition build_leaf_shift_cache :: "prune_list \<Rightarrow> prune_list option" where
  "build_leaf_shift_cache pl =
    (if pl_bitmap pl = {} then Some pl
     else leaf_shift_loop (pl\<lparr>pl_leaf_shift_cache := []\<rparr>) (filter (\<lambda>x. x > 0) (bm_iter (pl_bitmap pl))))"

definition build_pruned_cache :: "prune_list \<Rightarrow> prune_list" where
  "build_pruned_cache pl =
    (if pl_bitmap pl = {} then pl
     else let maximum = unwrap_or 0 (bm_maximum (pl_bitmap pl))
          in pl\<lparr>pl_pruned_cache := set (map as_u32 (filter
               (\<lambda>pos. list_ex (\<lambda>x. as_u32 x \<in> pl_bitmap pl) (path pos maximum)) [1..<as_u32 (maximum + 1)]))\<rparr>)"

definition init_caches :: "prune_list \<Rightarrow> prune_list option" where
  "init_caches pl =
    Option.bind (build_shift_cache pl) (\<lambda>pl.
    Option.bind (build_leaf_shift_cache pl) (\<lambda>pl. Some (build_pruned_cache pl)))"

definition prune_list_open :: "bitmap \<Rightarrow> prune_list option" where
  "prune_list_open file_bitmap = init_caches (prune_list_new (Some file_bitmap) file_bitmap)"

definition prune_list_flush :: "prune_list \<Rightarrow> prune_list option" where
  "prune_list_flush pl =
    init_caches (case pl_file pl of Some _ \<Rightarrow> pl\<lparr>pl_file := Some (pl_bitmap pl)\<rparr> | None \<Rightarrow> pl)"

partial_function (option) add_loop :: "nat \<Rightarrow> bitmap \<Rightarrow> bitmap \<Rightarrow> (bitmap \<times> bitmap) option" where
  "add_loop current bm cache =
    (let (parent, sibling) = family current
     in if as_u32 sibling \<in> bm \<or> as_u32 sibling \<in> cache
        then add_loop parent (bm - {as_u32 sibling}) (insert (as_u32 current) cache)
        else Some (insert (as_u32 current) bm, insert (as_u32 current) cache))"

definition prune_list_add :: "prune_list \<Rightarrow> nat \<Rightarrow> prune_list option" where
  "prune_list_add pl pos =
    (if pos = 0 then None
     else map_option (\<lambda>(bm, cache). pl\<lparr>pl_bitmap := bm, pl_pruned_cache := cache\<rparr>)
       (add_loop pos (pl_bitmap pl) (pl_pruned_cache pl)))"

definition prune_list_len :: "prune_list \<Rightarrow> nat" where
  "prune_list_len pl = card (pl_bitmap pl)"

definition prune_list_to_vec :: "prune_list \<Rightarrow> nat list" where
  "prune_list_to_vec pl = bm_iter (pl_bitmap pl)"

section \<open>Subtrees\<close>

text \<open>The positions of the subtree of node \<open>(h, j)\<close> are an interval that ends with its root.\<close>

definition subtree :: "nat \<Rightarrow> nat \<Rightarrow> nat set" where
  "subtree h j = {node_pos h j + 2 - 2 ^ Suc h .. node_pos h j}"

lemma node_pos_ge: "2 ^ Suc h < node_pos h j + 2"
  using node_pos_leftmost [of j h] node_pos_pos(1) [of 0 "j * 2 ^ h"] by linarith

lemma subtree_Suc: "subtree (Suc h) i = insert (node_pos (Suc h) i) (subtree h (2 * i) \<union> subtree h (2 * i + 1))"
proof -
  define P and q :: nat where "P = node_pos (Suc h) i" and "q = 2 ^ Suc h"
  have "node_pos h (2 * i + 1) = P - 1" "node_pos h (2 * i) = P - q" "2 * q < P + 2" "2 \<le> q" "q \<le> P"
    using node_pos_right_child [of h i] node_pos_left_child [of h i] node_pos_ge [of "Suc h" i] one_le_power [of "2::nat" h]
    unfolding P_def q_def power_Suc by linarith+
  moreover have "{P + 2 - 2 * q .. P} = insert P ({P - q + 2 - q .. P - q} \<union> {P - 1 + 2 - q .. P - 1})"
    if "2 * q < P + 2" "2 \<le> q" "q \<le> P" using that by auto
  ultimately show ?thesis unfolding subtree_def by (simp add: P_def [symmetric] q_def [symmetric] power_Suc [of _ "Suc h"] del: power_Suc)
qed

lemma card_subtree: "card (subtree h j) = 2 ^ Suc h - 1"
  using node_pos_ge [of h j] by (simp add: subtree_def)

lemma node_in_subtree: "node_pos h j \<in> subtree h j"
proof -
  have "2 \<le> (2::nat) ^ Suc h" by simp
  then show ?thesis unfolding subtree_def atLeastAtMost_iff by linarith
qed

lemma subtree_iff:
  "node_pos k i \<in> subtree h j \<longleftrightarrow> k \<le> h \<and> i div 2 ^ (h - k) = j"
proof (induction h arbitrary: j)
  case 0
  have "subtree 0 j = {node_pos 0 j}" by (simp add: subtree_def)
  then show ?case by (auto dest: node_pos_inj)
next
  case (Suc h)
  have "i div 2 ^ (Suc h - k) = i div 2 ^ (h - k) div 2" if "k \<le> h"
    using that by (metis Suc_diff_le div_mult2_eq power_Suc2)
  moreover have "i div 2 ^ (h - k) = 2 * j \<or> i div 2 ^ (h - k) = 2 * j + 1 \<longleftrightarrow> i div 2 ^ (h - k) div 2 = j" by linarith
  moreover have "node_pos k i = node_pos (Suc h) j \<longleftrightarrow> k = Suc h \<and> i = j" by (blast dest: node_pos_inj)
  moreover have "node_pos k i \<in> subtree (Suc h) j \<longleftrightarrow> node_pos k i = node_pos (Suc h) j
      \<or> k \<le> h \<and> (i div 2 ^ (h - k) = 2 * j \<or> i div 2 ^ (h - k) = 2 * j + 1)"
    unfolding subtree_Suc insert_iff Un_iff Suc.IH by blast
  ultimately show ?case by (cases "k = Suc h") (simp, metis le_Suc_eq)
qed


section \<open>Pruned nodes of a set of leaves\<close>

definition full :: "nat set \<Rightarrow> nat \<Rightarrow> nat \<Rightarrow> bool" where
  "full L h j \<longleftrightarrow> (\<forall>x. x div 2 ^ h = j \<longrightarrow> x \<in> L)"

definition pruned_set :: "nat set \<Rightarrow> nat set" where
  "pruned_set L = {p. \<exists>h j. p = node_pos h j \<and> full L h j}"

definition root_set :: "nat set \<Rightarrow> nat set" where
  "root_set L = {p. \<exists>h j. p = node_pos h j \<and> full L h j \<and> \<not> full L (Suc h) (j div 2)}"

definition compacted_set :: "nat set \<Rightarrow> nat set" where
  "compacted_set L = {p. \<exists>h j. p = node_pos h j \<and> full L (Suc h) (j div 2)}"

lemma full_0 [simp]: "full L 0 j \<longleftrightarrow> j \<in> L"
  by (simp add: full_def)

lemma full_empty [simp]: "\<not> full {} h j"
  using last_leaf_div [of h j] by (auto simp: full_def)

lemma sets_of_empty [simp]: "pruned_set {} = {}" "root_set {} = {}"
  by (simp_all add: pruned_set_def root_set_def)

lemma full_below: "full L h j \<Longrightarrow> k \<le> h \<Longrightarrow> i div 2 ^ (h - k) = j \<Longrightarrow> full L k i"
proof -
  assume a: "full L h j" "k \<le> h" "i div 2 ^ (h - k) = j"
  have "x \<in> L" if "x div 2 ^ k = i" for x
  proof -
    have "(2::nat) ^ h = 2 ^ k * 2 ^ (h - k)" using a(2) by (simp add: power_add [symmetric])
    then have "x div 2 ^ h = j" using that a(3) by (simp add: div_mult2_eq)
    then show "x \<in> L" using a(1) by (simp add: full_def)
  qed
  then show "full L k i" by (simp add: full_def)
qed

lemma full_parent: "full L (Suc h) (j div 2) \<longleftrightarrow> full L h j \<and> full L h (sib j)"
proof
  assume "full L (Suc h) (j div 2)"
  then show "full L h j \<and> full L h (sib j)" using full_below [of L "Suc h" "j div 2" h] by simp
next
  assume a: "full L h j \<and> full L h (sib j)"
  have "i = j \<or> i = sib j" if "i div 2 = j div 2" for i using that unfolding sib_def by (cases "even j") (auto elim!: evenE oddE)
  then have "x div 2 ^ h = j \<or> x div 2 ^ h = sib j" if "x div 2 ^ Suc h = j div 2" for x
    using that by (metis div_mult2_eq power_Suc2)
  then show "full L (Suc h) (j div 2)" using a by (auto simp: full_def)
qed

lemma full_exists: "L \<subseteq> {..<n} \<Longrightarrow> full L h j \<Longrightarrow> (j + 1) * 2 ^ h \<le> n"
proof -
  assume a: "L \<subseteq> {..<n}" "full L h j"
  then have "last_leaf h j < n" using last_leaf_div [of h j] by (auto simp: full_def)
  then show ?thesis using Suc_last_leaf [of h j] by simp
qed

lemma full_bound: "L \<subseteq> {..<n} \<Longrightarrow> full L h j \<Longrightarrow> node_pos h j \<le> mmr_size n"
  unfolding node_pos_le_mmr_size by (rule full_exists)

lemma node_pos_eq [simp]: "node_pos h j = node_pos h' j' \<longleftrightarrow> h = h' \<and> j = j'"
  by (auto dest: node_pos_inj)

lemma in_pruned_set [simp]: "node_pos h j \<in> pruned_set L \<longleftrightarrow> full L h j"
  by (auto simp: pruned_set_def)

lemma in_root_set [simp]: "node_pos h j \<in> root_set L \<longleftrightarrow> full L h j \<and> \<not> full L (Suc h) (j div 2)"
  by (auto simp: root_set_def)

lemma in_compacted_set [simp]: "node_pos h j \<in> compacted_set L \<longleftrightarrow> full L (Suc h) (j div 2)"
  by (auto simp: compacted_set_def)

lemma zero_notin [simp]: "0 \<notin> pruned_set L" "0 \<notin> root_set L" "0 \<notin> compacted_set L"
  by (auto simp: pruned_set_def root_set_def compacted_set_def)

lemma compacted_set_eq: "compacted_set L = pruned_set L - root_set L"
  by (auto simp: pruned_set_def root_set_def compacted_set_def full_parent)

lemma pruned_set_bound: "L \<subseteq> {..<n} \<Longrightarrow> pruned_set L \<subseteq> {1..mmr_size n}"
  unfolding pruned_set_def by (auto dest: full_bound simp: Suc_le_eq)

lemma finite_pruned_set: "finite L \<Longrightarrow> finite (pruned_set L)"
proof -
  assume "finite L"
  then obtain n where "L \<subseteq> {..<n}" using finite_nat_set_iff_bounded by auto
  then show ?thesis using pruned_set_bound by (meson finite_atLeastAtMost finite_subset)
qed

lemma root_subset: "root_set L \<subseteq> pruned_set L"
  by (auto simp: pruned_set_def root_set_def)

lemma root_above:
  assumes "finite L" "full L h j"
  shows "\<exists>k \<ge> h. full L k (j div 2 ^ (k - h)) \<and> \<not> full L (Suc k) (j div 2 ^ (k - h) div 2)"
proof -
  obtain n where n: "L \<subseteq> {..<n}" using assms(1) finite_nat_set_iff_bounded by auto
  show ?thesis using assms(2)
  proof (induction "Suc (mmr_size n) - node_pos h j" arbitrary: h j rule: less_induct)
    case less
    show ?case
    proof (cases "full L (Suc h) (j div 2)")
      case True
      have "Suc (mmr_size n) - node_pos (Suc h) (j div 2) < Suc (mmr_size n) - node_pos h j"
        using node_pos_parent_gt [of h j] full_bound [OF n less.prems] by linarith
      from less.hyps [OF this True] obtain k where k: "k \<ge> Suc h" "full L k (j div 2 div 2 ^ (k - Suc h))"
          "\<not> full L (Suc k) (j div 2 div 2 ^ (k - Suc h) div 2)" by blast
      have "j div 2 div 2 ^ (k - Suc h) = j div 2 ^ (k - h)"
        using k(1) by (metis Suc_diff_le diff_Suc_Suc div_mult2_eq power_Suc)
      then show ?thesis using k by (intro exI [of _ k]) simp
    next
      case False
      then show ?thesis using less.prems by (intro exI [of _ h]) simp
    qed
  qed
qed

text \<open>The subtrees of the roots partition the pruned nodes.\<close>

lemma pruned_set_subtrees:
  assumes "finite L"
  shows "p \<in> pruned_set L \<longleftrightarrow> (\<exists>h j. node_pos h j \<in> root_set L \<and> p \<in> subtree h j)"
proof
  assume "p \<in> pruned_set L"
  then obtain h j where p: "p = node_pos h j" "full L h j" by (auto simp: pruned_set_def)
  from root_above [OF assms p(2)] obtain k where "k \<ge> h" "node_pos k (j div 2 ^ (k - h)) \<in> root_set L" by auto
  then show "\<exists>h j. node_pos h j \<in> root_set L \<and> p \<in> subtree h j" using p(1) subtree_iff by blast
next
  assume "\<exists>h j. node_pos h j \<in> root_set L \<and> p \<in> subtree h j"
  then obtain h j where r: "full L h j" "p \<in> subtree h j" by auto
  then have "0 < p" using node_pos_ge [of h j] by (auto simp: subtree_def)
  then obtain k i where p: "p = node_pos k i" by (rule node_pos_exists)
  then show "p \<in> pruned_set L" using r full_below subtree_iff by (metis in_pruned_set)
qed

lemma roots_disjoint:
  assumes "node_pos h j \<in> root_set L" "node_pos h' j' \<in> root_set L" "p \<in> subtree h j" "p \<in> subtree h' j'"
  shows "h = h' \<and> j = j'"
proof -
  have le: "h = h' \<and> j = j'" if "h \<le> h'" "node_pos h j \<in> root_set L" "node_pos h' j' \<in> root_set L" "p \<in> subtree h j" "p \<in> subtree h' j'"
    for h j h' j'
  proof (rule ccontr)
    assume ne: "\<not> (h = h' \<and> j = j')"
    have "0 < p" using that(4) node_pos_ge [of h j] by (auto simp: subtree_def)
    then obtain k i where p: "p = node_pos k i" by (rule node_pos_exists)
    have k: "k \<le> h" "i div 2 ^ (h - k) = j" "i div 2 ^ (h' - k) = j'" using that p subtree_iff by auto
    have "(2::nat) ^ (h' - k) = 2 ^ (h - k) * 2 ^ (h' - h)" using that(1) k(1) by (simp add: power_add [symmetric])
    then have up: "j div 2 ^ (h' - h) = j'" using k by (metis div_mult2_eq)
    with ne that(1) have "Suc h \<le> h'" by (metis Suc_leI diff_self_eq_0 div_by_1 le_neq_implies_less power_0)
    moreover from this have "j div 2 div 2 ^ (h' - Suc h) = j'" using up
      by (metis Suc_diff_le diff_Suc_Suc div_mult2_eq power_Suc)
    ultimately have "full L (Suc h) (j div 2)" using full_below [of L h' j' "Suc h" "j div 2"] that(3) by simp
    then show False using that(2) by simp
  qed
  show ?thesis using le [of h h' j j'] le [of h' h j' j] assms by (cases "h \<le> h'") auto
qed


section \<open>Counting what is compacted\<close>

text \<open>The subtree of a position.\<close>

definition stree :: "nat \<Rightarrow> nat set" where
  "stree p = {p + 2 - 2 ^ Suc (bintree_postorder_height p) .. p}"

lemma stree_node_pos: "node_pos h j \<le> 2 ^ 64 \<Longrightarrow> stree (node_pos h j) = subtree h j"
  by (simp add: stree_def subtree_def postorder_height_node_pos)

definition small :: "nat set \<Rightarrow> bool" where
  "small L \<longleftrightarrow> (\<exists>n. L \<subseteq> {..<n} \<and> mmr_size n < 2 ^ 31)"

lemma small_finite: "small L \<Longrightarrow> finite L"
  by (auto simp: small_def intro: finite_subset)

lemma small_pos:
  assumes "small L" "p \<in> pruned_set L"
  shows "0 < p" "p < 2 ^ 31" "p < 2 ^ 32" "p \<le> 2 ^ 64" "as_u32 p = p"
proof -
  obtain n where "L \<subseteq> {..<n}" "mmr_size n < 2 ^ 31" using assms(1) by (auto simp: small_def)
  then have p: "1 \<le> p" "p < 2 ^ 31" using pruned_set_bound [of L n] assms(2) by auto
  then show "0 < p" "p < 2 ^ 31" "p < 2 ^ 32" "p \<le> 2 ^ 64" by simp_all
  then show "as_u32 p = p" by (intro as_u32_id)
qed

lemma small_node: "small L \<Longrightarrow> full L h j \<Longrightarrow> node_pos h j < 2 ^ 31"
  using small_pos(2) [of L "node_pos h j"] by simp

lemma root_stree:
  assumes "small L" "r \<in> root_set L"
  obtains h j where "r = node_pos h j" "stree r = subtree h j" "bintree_postorder_height r = h" "node_pos h j \<in> root_set L"
proof -
  obtain h j where r: "r = node_pos h j" using assms(2) by (auto simp: root_set_def)
  moreover have "node_pos h j \<le> 2 ^ 64" using small_pos(4) [OF assms(1)] assms(2) root_subset r by blast
  ultimately show ?thesis using that stree_node_pos postorder_height_node_pos assms(2) by blast
qed

lemma compacted_strees:
  assumes "small L"
  shows "compacted_set L = (\<Union>r \<in> root_set L. stree r - {r})"
proof -
  have "p \<in> compacted_set L \<longleftrightarrow> (\<exists>r \<in> root_set L. p \<in> stree r - {r})" for p
  proof
    assume p: "p \<in> compacted_set L"
    then obtain h j where hj: "node_pos h j \<in> root_set L" "p \<in> subtree h j"
      using pruned_set_subtrees [OF small_finite [OF assms]] by (auto simp: compacted_set_eq)
    have "node_pos h j \<le> 2 ^ 64" using small_pos(4) [OF assms] hj(1) root_subset by blast
    then have "p \<in> stree (node_pos h j)" using hj(2) by (simp only: stree_node_pos)
    then show "\<exists>r \<in> root_set L. p \<in> stree r - {r}" using hj(1) p by (auto simp: compacted_set_eq)
  next
    assume "\<exists>r \<in> root_set L. p \<in> stree r - {r}"
    then obtain r where r: "r \<in> root_set L" "p \<in> stree r" "p \<noteq> r" by blast
    obtain h j where hj: "r = node_pos h j" "stree r = subtree h j" by (rule root_stree [OF assms r(1)])
    have p: "p \<in> pruned_set L" using pruned_set_subtrees [OF small_finite [OF assms]] hj r by auto
    have "p \<notin> root_set L"
    proof
      assume a: "p \<in> root_set L"
      then obtain k i where k: "p = node_pos k i" by (auto simp: root_set_def)
      have "k = h \<and> i = j" using roots_disjoint [of k i L h j p] a r(1,2) hj k node_in_subtree [of k i] by simp
      then show False using k hj(1) r(3) by simp
    qed
    then show "p \<in> compacted_set L" using p by (simp add: compacted_set_eq)
  qed
  then show ?thesis by blast
qed

lemma strees_disjoint:
  assumes "small L" "r \<in> root_set L" "s \<in> root_set L" "r \<noteq> s"
  shows "stree r \<inter> stree s = {}"
proof -
  obtain h j where hj: "r = node_pos h j" "stree r = subtree h j" by (rule root_stree [OF assms(1,2)])
  obtain k i where ki: "s = node_pos k i" "stree s = subtree k i" by (rule root_stree [OF assms(1,3)])
  show ?thesis using roots_disjoint [of h j L k i] hj ki assms(2-4) by fastforce
qed

lemma finite_root_set: "small L \<Longrightarrow> finite (root_set L)"
  using finite_pruned_set [OF small_finite] root_subset by (metis finite_subset)

text \<open>
  How many of the positions with a property are compacted up to a position that is not: those strictly below the roots
  up to it.
\<close>

lemma card_compacted:
  assumes "small L" "pos \<notin> compacted_set L"
  shows "card {q \<in> compacted_set L. P q \<and> q \<le> pos} = (\<Sum>r \<in> {r \<in> root_set L. r \<le> pos}. card {q \<in> stree r - {r}. P q})"
proof -
  have "{q \<in> compacted_set L. P q \<and> q \<le> pos} = (\<Union>r \<in> {r \<in> root_set L. r \<le> pos}. {q \<in> stree r - {r}. P q})"
  proof (intro equalityI subsetI)
    fix q
    assume q: "q \<in> {q \<in> compacted_set L. P q \<and> q \<le> pos}"
    then obtain r where r: "r \<in> root_set L" "q \<in> stree r" "q \<noteq> r" using compacted_strees [OF assms(1)] by auto
    have "r \<le> pos"
    proof (rule ccontr)
      assume "\<not> r \<le> pos"
      then have "pos \<in> stree r - {r}" using r q by (auto simp: stree_def)
      then show False using assms r(1) compacted_strees by blast
    qed
    then show "q \<in> (\<Union>r \<in> {r \<in> root_set L. r \<le> pos}. {q \<in> stree r - {r}. P q})" using q r by blast
  next
    fix q
    assume "q \<in> (\<Union>r \<in> {r \<in> root_set L. r \<le> pos}. {q \<in> stree r - {r}. P q})"
    then obtain r where "r \<in> root_set L" "r \<le> pos" "q \<in> stree r - {r}" "P q" by blast
    then show "q \<in> {q \<in> compacted_set L. P q \<and> q \<le> pos}" using compacted_strees [OF assms(1)] by (auto simp: stree_def)
  qed
  moreover have "card (\<Union>r \<in> {r \<in> root_set L. r \<le> pos}. {q \<in> stree r - {r}. P q})
      = (\<Sum>r \<in> {r \<in> root_set L. r \<le> pos}. card {q \<in> stree r - {r}. P q})"
  proof (rule card_UN_disjoint)
    show "\<forall>i \<in> {r \<in> root_set L. r \<le> pos}. \<forall>j \<in> {r \<in> root_set L. r \<le> pos}.
        i \<noteq> j \<longrightarrow> {q \<in> stree i - {i}. P q} \<inter> {q \<in> stree j - {j}. P q} = {}"
      using strees_disjoint [OF assms(1)] by blast
  qed (use finite_root_set [OF assms(1)] in \<open>simp_all add: stree_def\<close>)
  ultimately show ?thesis by simp
qed

definition shift_weight :: "nat \<Rightarrow> nat" where
  "shift_weight r = 2 * (push_bit (bintree_postorder_height r) 1 - 1)"

definition leaf_weight :: "nat \<Rightarrow> nat" where
  "leaf_weight r = (let height = bintree_postorder_height r in if height = 0 then 0 else push_bit height 1)"

lemma card_stree:
  assumes "small L" "r \<in> root_set L"
  shows "card {q \<in> stree r - {r}. True} = shift_weight r"
proof -
  obtain h j where r: "r = node_pos h j" "stree r = subtree h j" "bintree_postorder_height r = h"
    by (rule root_stree [OF assms])
  have "r \<in> subtree h j" using r(1) node_in_subtree by simp
  then have "card (subtree h j - {r}) = 2 ^ Suc h - 2" using card_subtree [of h j] by (simp add: subtree_def)
  moreover have "{q \<in> stree r - {r}. True} = subtree h j - {r}" using r(2) by auto
  ultimately show ?thesis using r(3) by (simp add: shift_weight_def push_bit_eq_mult)
qed

lemma leaves_of_subtree: "{q \<in> subtree h j. \<exists>i. q = node_pos 0 i} = node_pos 0 ` {j * 2 ^ h ..< (j + 1) * 2 ^ h}"
proof -
  have "i div 2 ^ h = j \<longleftrightarrow> j * 2 ^ h \<le> i \<and> i < (j + 1) * 2 ^ h" for i
  proof
    assume "i div 2 ^ h = j"
    then have "i = j * 2 ^ h + i mod 2 ^ h" using div_mult_mod_eq [of i "2 ^ h"] by simp
    moreover have "i mod 2 ^ h < 2 ^ h" by simp
    ultimately show "j * 2 ^ h \<le> i \<and> i < (j + 1) * 2 ^ h" by (metis add.commute add_mult_distrib le_add2 mult_1 nat_add_left_cancel_less)
  next
    assume "j * 2 ^ h \<le> i \<and> i < (j + 1) * 2 ^ h"
    then show "i div 2 ^ h = j" by (intro div_nat_eqI) (simp_all add: mult.commute)
  qed
  then have "node_pos 0 i \<in> subtree h j \<longleftrightarrow> i \<in> {j * 2 ^ h ..< (j + 1) * 2 ^ h}" for i by (simp add: subtree_iff)
  then show ?thesis by blast
qed

lemma card_leaves_stree:
  assumes "small L" "r \<in> root_set L"
  shows "card {q \<in> stree r - {r}. is_leaf q} = leaf_weight r"
proof -
  obtain h j where r: "r = node_pos h j" "stree r = subtree h j" "bintree_postorder_height r = h" "node_pos h j \<in> root_set L"
    by (rule root_stree [OF assms])
  have sm: "node_pos h j \<le> 2 ^ 64" using small_pos(4) [OF assms(1)] r(4) root_subset by blast
  have "is_leaf q \<longleftrightarrow> (\<exists>i. q = node_pos 0 i)" if "q \<in> subtree h j" for q
  proof -
    have "0 < q" "q \<le> 2 ^ 64" using that sm node_pos_ge [of h j] by (auto simp: subtree_def)
    then obtain k i where q: "q = node_pos k i" by (auto elim: node_pos_exists)
    then show ?thesis using is_leaf_node_pos [of k i] \<open>q \<le> 2 ^ 64\<close> by auto
  qed
  then have eq: "{q \<in> stree r - {r}. is_leaf q} = {q \<in> subtree h j. \<exists>i. q = node_pos 0 i} - {r}" using r(2) by auto
  have inj: "inj_on (node_pos 0) A" for A by (simp add: inj_on_def)
  show ?thesis
  proof (cases "h = 0")
    case True
    then show ?thesis using eq r by (simp add: leaf_weight_def subtree_def)
  next
    case False
    then have "r \<notin> {q \<in> subtree h j. \<exists>i. q = node_pos 0 i}" using r(1) by simp
    then show ?thesis unfolding eq using False r(3) card_image [OF inj, of "{j * 2 ^ h ..< (j + 1) * 2 ^ h}"]
      by (simp add: leaves_of_subtree leaf_weight_def push_bit_eq_mult)
  qed
qed


section \<open>The shift caches\<close>

text \<open>Running sums over a list, what the two shift caches hold for the sorted roots.\<close>

definition sums :: "('a \<Rightarrow> nat) \<Rightarrow> 'a list \<Rightarrow> nat list" where
  "sums w rs = map (\<lambda>i. sum_list (map w (take (Suc i) rs))) [0..<length rs]"

lemma sums_Nil [simp]: "sums w [] = []" "length (sums w rs) = length rs"
  by (simp_all add: sums_def)

lemma sums_snoc: "sums w (rs @ [r]) = sums w rs @ [sum_list (map w rs) + w r]"
  by (simp add: sums_def)

lemma filter_le_sorted: "sorted rs \<Longrightarrow> filter (\<lambda>y. y \<le> x) rs = take (length (filter (\<lambda>y. y \<le> x) rs)) rs"
  for x :: "'a::linorder"
proof (induction rs)
  case (Cons r rs)
  show ?case
  proof (cases "r \<le> x")
    case False
    then have "filter (\<lambda>y. y \<le> x) rs = []" using Cons.prems by (fastforce simp: filter_empty_conv)
    then show ?thesis using False by simp
  qed (use Cons in simp)
qed simp

lemma cached_shift_prefix:
  assumes "finite R" "pos < 2 ^ 32" "sorted_list_of_set R = ps @ qs" "{r \<in> R. r \<le> pos} \<subseteq> set ps"
  shows "cached_shift R (sums w ps) pos = Some (\<Sum>r \<in> {r \<in> R. r \<le> pos}. w r)"
proof (cases "R = {}")
  case False
  let ?fs = "filter (\<lambda>y. y \<le> pos) ps"
  have srt: "sorted ps" "distinct ps" using assms(1,3) by (metis sorted_append sorted_sorted_list_of_set, metis distinct_append distinct_sorted_list_of_set)
  have "set (ps @ qs) = R" using assms(1,3) by (metis set_sorted_list_of_set)
  then have R: "{r \<in> R. r \<le> pos} = set ?fs" using assms(4) by auto
  then have rank: "bm_rank R (as_u32 pos) = length ?fs"
    using as_u32_id [OF assms(2)] srt by (simp add: bm_rank_def distinct_card del: set_filter)
  have le: "length ?fs \<le> length ps" by simp
  have "sum_list (map w ?fs) = (\<Sum>r \<in> set ?fs. w r)" using srt by (simp add: sum_list_distinct_conv_sum_set)
  moreover have "sums w ps ! (length ?fs - 1) = sum_list (map w ?fs)" if "?fs \<noteq> []"
  proof -
    have "length ?fs - 1 < length ps" using that le by (cases ?fs) auto
    then have "sums w ps ! (length ?fs - 1) = sum_list (map w (take (length ?fs) ps))"
      using that by (cases "length ?fs") (simp_all add: sums_def del: length_greater_0_conv)
    then show ?thesis using filter_le_sorted [OF srt(1), of pos] by simp
  qed
  moreover have "length ?fs - 1 < length ps \<and> \<not> length ?fs > length ps" if "?fs \<noteq> []" using that le by (cases ?fs) auto
  ultimately show ?thesis using False unfolding cached_shift_def rank Let_def R by (cases "?fs = []") (simp_all add: vec_get_def)
qed (simp add: cached_shift_def)

lemma cached_shift_eq:
  assumes "finite R" "pos < 2 ^ 32"
  shows "cached_shift R (sums w (sorted_list_of_set R)) pos = Some (\<Sum>r \<in> {r \<in> R. r \<le> pos}. w r)"
  using cached_shift_prefix [of R pos "sorted_list_of_set R" "[]" w] assms by auto

lemma cached_shift_next:
  assumes "finite R" "sorted_list_of_set R = ps @ q # qs" "q < 2 ^ 32" "0 \<notin> R"
  shows "cached_shift R (sums w ps) (q - 1) = Some (sum_list (map w ps))"
proof -
  have srt: "sorted_wrt (<) (ps @ q # qs)" using assms(1,2) by (metis strict_sorted_iff sorted_sorted_list_of_set distinct_sorted_list_of_set)
  have R: "R = set (ps @ q # qs)" using assms(1,2) by (metis set_sorted_list_of_set)
  then have "0 < q" using assms(4) by (metis gr0I in_set_conv_decomp)
  have eq: "{r \<in> R. r \<le> q - 1} = set ps" using srt R \<open>0 < q\<close> by (auto simp: sorted_wrt_append)
  have "distinct ps" using srt by (auto simp: sorted_wrt_append strict_sorted_iff)
  then show ?thesis using cached_shift_prefix [OF assms(1) _ assms(2), of "q - 1" w] assms(3) eq
    by (simp add: sum_list_distinct_conv_sum_set)
qed

definition roots_ok :: "nat set \<Rightarrow> bool" where
  "roots_ok R \<longleftrightarrow> finite R \<and> 0 \<notin> R \<and> (\<forall>r \<in> R. r < 2 ^ 32)"

lemma roots_ok_root_set: "small L \<Longrightarrow> roots_ok (root_set L)"
  using finite_root_set small_pos(3) root_subset unfolding roots_ok_def by (metis subsetD zero_notin(2))

lemma roots_ok_next:
  assumes "roots_ok R" "sorted_list_of_set R = ps @ q # qs"
  shows "finite R" "q \<in> R" "0 < q" "q < 2 ^ 32" "as_u32 q = q" "0 \<notin> R"
proof -
  have R: "R = set (ps @ q # qs)" using assms by (metis roots_ok_def set_sorted_list_of_set)
  then show "q \<in> R" "0 \<notin> R" "finite R" using assms(1) by (auto simp: roots_ok_def)
  then show "0 < q" "q < 2 ^ 32" using assms(1) by (auto simp: roots_ok_def intro: gr0I)
  then show "as_u32 q = q" by (intro as_u32_id)
qed

lemma shift_loop_eq:
  assumes "roots_ok (pl_bitmap pl)"
  shows "sorted_list_of_set (pl_bitmap pl) = ps @ qs \<Longrightarrow> pl_shift_cache pl = sums shift_weight ps \<Longrightarrow>
    shift_loop pl qs = Some (pl\<lparr>pl_shift_cache := sums shift_weight (ps @ qs)\<rparr>)"
  using assms
proof (induction qs arbitrary: pl ps)
  case (Cons q qs)
  note q = roots_ok_next [OF Cons.prems(3,1)]
  let ?pl = "pl\<lparr>pl_shift_cache := sums shift_weight (ps @ [q])\<rparr>"
  have "get_shift pl (q - 1) = Some (sum_list (map shift_weight ps))"
    unfolding get_shift_def Cons.prems(2) by (rule cached_shift_next [OF q(1) Cons.prems(1) q(4,6)])
  then have "shift_loop pl (q # qs) = shift_loop ?pl qs"
    using q Cons.prems(2) by (simp add: is_pruned_root_def sums_snoc shift_weight_def [of q])
  also have "\<dots> = Some (?pl\<lparr>pl_shift_cache := sums shift_weight ((ps @ [q]) @ qs)\<rparr>)"
    by (rule Cons.IH) (use Cons.prems in simp_all)
  finally show ?case by simp
qed simp

lemma leaf_shift_loop_eq:
  assumes "roots_ok (pl_bitmap pl)"
  shows "sorted_list_of_set (pl_bitmap pl) = ps @ qs \<Longrightarrow> pl_leaf_shift_cache pl = sums leaf_weight ps \<Longrightarrow>
    leaf_shift_loop pl qs = Some (pl\<lparr>pl_leaf_shift_cache := sums leaf_weight (ps @ qs)\<rparr>)"
  using assms
proof (induction qs arbitrary: pl ps)
  case (Cons q qs)
  note q = roots_ok_next [OF Cons.prems(3,1)]
  let ?pl = "pl\<lparr>pl_leaf_shift_cache := sums leaf_weight (ps @ [q])\<rparr>"
  have "get_leaf_shift pl (q - 1) = Some (sum_list (map leaf_weight ps))"
    unfolding get_leaf_shift_def Cons.prems(2) by (rule cached_shift_next [OF q(1) Cons.prems(1) q(4,6)])
  then have "leaf_shift_loop pl (q # qs) = leaf_shift_loop ?pl qs"
    using q Cons.prems(2) by (simp add: is_pruned_root_def sums_snoc leaf_weight_def [of q])
  also have "\<dots> = Some (?pl\<lparr>pl_leaf_shift_cache := sums leaf_weight ((ps @ [q]) @ qs)\<rparr>)"
    by (rule Cons.IH) (use Cons.prems in simp_all)
  finally show ?case by simp
qed simp

section \<open>The cache of pruned positions\<close>

lemma node_pos_climb_mono: "i \<le> k \<Longrightarrow> node_pos (h + i) (j div 2 ^ i) \<le> node_pos (h + k) (j div 2 ^ k)"
proof (induction k rule: dec_induct)
  case (step k)
  have "node_pos (h + k) (j div 2 ^ k) < node_pos (Suc (h + k)) (j div 2 ^ k div 2)" by (rule node_pos_parent_gt)
  moreover have "j div 2 ^ k div 2 = j div 2 ^ Suc k" by (simp only: power_Suc2 div_mult2_eq)
  ultimately show ?case using step.IH by simp
qed simp

lemma path_loop_set:
  "set (path_loop (last_leaf h j) (h + i) (node_pos (h + i) (j div 2 ^ i)) m)
    = {node_pos (h + k) (j div 2 ^ k) | k. i \<le> k \<and> node_pos (h + k) (j div 2 ^ k) \<le> m}"
proof (induction "Suc m - node_pos (h + i) (j div 2 ^ i)" arbitrary: i rule: less_induct)
  case less
  let ?p = "\<lambda>k. node_pos (h + k) (j div 2 ^ k)"
  show ?case
  proof (cases "?p i \<le> m")
    case True
    have div: "j div 2 ^ i div 2 = j div 2 ^ Suc i" by (simp only: power_Suc2 div_mult2_eq)
    have step: "?p i + (if odd (j div 2 ^ i) then 1 else 2 * push_bit (h + i) 1) = ?p (Suc i)"
      using climb_step [of "h + i" "j div 2 ^ i"] div by simp
    have "?p i < ?p (Suc i)" using node_pos_parent_gt [of "h + i" "j div 2 ^ i"] div by simp
    then have "Suc m - ?p (Suc i) < Suc m - ?p i" using True by linarith
    from less.hyps [OF this] have "set (path_loop (last_leaf h j) (h + i + 1) (?p (Suc i)) m) = {?p k | k. Suc i \<le> k \<and> ?p k \<le> m}" by simp
    moreover have "path_loop (last_leaf h j) (h + i) (?p i) m = ?p i # path_loop (last_leaf h j) (h + i + 1) (?p (Suc i)) m"
      using True by (subst path_loop.simps) (simp only: Let_def peak_bit_climb if_True step)
    moreover have "{?p k | k. i \<le> k \<and> ?p k \<le> m} = insert (?p i) {?p k | k. Suc i \<le> k \<and> ?p k \<le> m}"
      using True by (auto simp: Suc_le_eq le_less)
    ultimately show ?thesis by simp
  next
    case False
    then have "{?p k | k. i \<le> k \<and> ?p k \<le> m} = {}" using node_pos_climb_mono [of i _ h j] by (auto dest: order_trans)
    then show ?thesis using False by (subst path_loop.simps) simp
  qed
qed

lemma path_set:
  assumes "node_pos h j \<le> 2 ^ 64"
  shows "set (path (node_pos h j) m) = {node_pos (h + k) (j div 2 ^ k) | k. node_pos (h + k) (j div 2 ^ k) \<le> m}"
  using path_loop_set [of h j 0 m] unfolding path_def peak_map_height_node_pos [OF assms] by simp


section \<open>Correctness of the caches\<close>

text \<open>
  \<open>pl_ok L pl\<close>: the list has pruned the leaves with the indices \<open>L\<close>. \<open>pl_caches\<close> adds that the shift caches are up to
  date, as they are after the list is opened or flushed.
\<close>

definition pl_ok :: "nat set \<Rightarrow> prune_list \<Rightarrow> bool" where
  "pl_ok L pl \<longleftrightarrow> small L \<and> pl_bitmap pl = root_set L \<and> pl_pruned_cache pl = pruned_set L"

definition pl_caches :: "nat set \<Rightarrow> prune_list \<Rightarrow> bool" where
  "pl_caches L pl \<longleftrightarrow> pl_ok L pl \<and> pl_shift_cache pl = sums shift_weight (sorted_list_of_set (root_set L))
    \<and> pl_leaf_shift_cache pl = sums leaf_weight (sorted_list_of_set (root_set L))"

lemma get_shift_eq:
  assumes "pl_caches L pl" "pos \<notin> compacted_set L" "pos < 2 ^ 32"
  shows "get_shift pl pos = Some (card {q \<in> compacted_set L. q \<le> pos})"
    and "get_leaf_shift pl pos = Some (card {q \<in> compacted_set L. is_leaf q \<and> q \<le> pos})"
proof -
  have s: "small L" and R: "pl_bitmap pl = root_set L" using assms(1) by (simp_all add: pl_caches_def pl_ok_def)
  note shift = cached_shift_eq [OF finite_root_set [OF s] assms(3)]
  have "(\<Sum>r \<in> {r \<in> root_set L. r \<le> pos}. shift_weight r) = (\<Sum>r \<in> {r \<in> root_set L. r \<le> pos}. card {q \<in> stree r - {r}. True})"
    using card_stree [OF s] by (intro sum.cong refl) (simp only: mem_Collect_eq)
  then show "get_shift pl pos = Some (card {q \<in> compacted_set L. q \<le> pos})"
    using shift [of shift_weight] card_compacted [OF s assms(2), of "\<lambda>_. True"] assms(1) R by (simp add: get_shift_def pl_caches_def)
  have "(\<Sum>r \<in> {r \<in> root_set L. r \<le> pos}. leaf_weight r) = (\<Sum>r \<in> {r \<in> root_set L. r \<le> pos}. card {q \<in> stree r - {r}. is_leaf q})"
    using card_leaves_stree [OF s] by (intro sum.cong) simp_all
  then show "get_leaf_shift pl pos = Some (card {q \<in> compacted_set L. is_leaf q \<and> q \<le> pos})"
    using shift [of leaf_weight] card_compacted [OF s assms(2), of is_leaf] assms(1) R by (simp add: get_leaf_shift_def pl_caches_def)
qed

lemma pruned_below_root:
  assumes "small L" "p \<in> pruned_set L"
  obtains r where "r \<in> root_set L" "p \<le> r"
proof (cases "p \<in> root_set L")
  case False
  then have "p \<in> compacted_set L" using assms(2) by (simp add: compacted_set_eq)
  then obtain r where "r \<in> root_set L" "p \<in> stree r" using compacted_strees [OF assms(1)] by blast
  then show ?thesis using that by (auto simp: stree_def)
qed (use that in blast)

lemma root_set_empty [simp]: "small L \<Longrightarrow> root_set L = {} \<longleftrightarrow> L = {}"
proof
  assume s: "small L" and "root_set L = {}"
  then have "node_pos 0 i \<notin> pruned_set L" for i using pruned_below_root by blast
  then show "L = {}" by auto
qed simp

lemma total_shift_eq:
  assumes "pl_caches L pl"
  shows "get_total_shift pl = Some (card (compacted_set L))"
    and "get_total_leaf_shift pl = Some (card {q \<in> compacted_set L. is_leaf q})"
proof -
  have s: "small L" and R: "pl_bitmap pl = root_set L" using assms by (simp_all add: pl_caches_def pl_ok_def)
  let ?m = "unwrap_or 0 (bm_maximum (pl_bitmap pl))"
  have m: "?m \<notin> compacted_set L \<and> ?m < 2 ^ 32 \<and> (\<forall>q \<in> compacted_set L. q \<le> ?m)"
  proof (cases "root_set L = {}")
    case True
    then have "compacted_set L = {}" using compacted_strees [OF s] by simp
    then show ?thesis using True R by (simp add: unwrap_or_def bm_maximum_def)
  next
    case False
    then have m: "?m = Max (root_set L)" "?m \<in> root_set L" using R finite_root_set [OF s] by (simp_all add: unwrap_or_def bm_maximum_def)
    have "q \<le> ?m" if q: "q \<in> compacted_set L" for q
    proof -
      have "q \<in> pruned_set L" using q by (simp add: compacted_set_eq)
      then obtain r where "r \<in> root_set L" "q \<le> r" using pruned_below_root [OF s] by blast
      then show ?thesis using m(1) Max_ge [OF finite_root_set [OF s]] le_trans by metis
    qed
    then show ?thesis using m(2) root_subset [of L] small_pos(3) [OF s] by (auto simp: compacted_set_eq)
  qed
  then have "{q \<in> compacted_set L. P q \<and> q \<le> ?m} = {q \<in> compacted_set L. P q}" for P by auto
  from this [of "\<lambda>_. True"] this [of is_leaf] show "get_total_shift pl = Some (card (compacted_set L))"
      "get_total_leaf_shift pl = Some (card {q \<in> compacted_set L. is_leaf q})"
    using get_shift_eq [OF assms, of ?m] m by (simp_all add: get_total_shift_def get_total_leaf_shift_def)
qed

lemma is_pruned_eq:
  assumes "pl_ok L pl" "0 < pos" "pos < 2 ^ 32"
  shows "is_pruned pl pos = Some (pos \<in> pruned_set L)" "is_pruned_root pl pos = Some (pos \<in> root_set L)"
  using assms as_u32_id [OF assms(3)] by (simp_all add: is_pruned_def is_pruned_root_def pl_ok_def)

lemma ancestor_root:
  assumes "small L" "0 < p"
  shows "p \<in> pruned_set L \<longleftrightarrow> (\<exists>h j k. p = node_pos h j \<and> node_pos (h + k) (j div 2 ^ k) \<in> root_set L)"
proof
  assume "p \<in> pruned_set L"
  then obtain h j where p: "p = node_pos h j" "full L h j" by (auto simp: pruned_set_def)
  from root_above [OF small_finite [OF assms(1)] p(2)] obtain k where "h \<le> k" "node_pos k (j div 2 ^ (k - h)) \<in> root_set L" by auto
  then have "node_pos (h + (k - h)) (j div 2 ^ (k - h)) \<in> root_set L" by simp
  then show "\<exists>h j k. p = node_pos h j \<and> node_pos (h + k) (j div 2 ^ k) \<in> root_set L" using p(1) by blast
next
  assume "\<exists>h j k. p = node_pos h j \<and> node_pos (h + k) (j div 2 ^ k) \<in> root_set L"
  then obtain h j k where "p = node_pos h j" "full L (h + k) (j div 2 ^ k)" by auto
  then show "p \<in> pruned_set L" using full_below [of L "h + k" "j div 2 ^ k" h j] by simp
qed

lemma build_pruned_cache_eq:
  assumes "small L" "pl_bitmap pl = root_set L" "L \<noteq> {}"
  shows "build_pruned_cache pl = pl\<lparr>pl_pruned_cache := pruned_set L\<rparr>"
proof -
  define m where "m = Max (root_set L)"
  have ne: "root_set L \<noteq> {}" using assms by simp
  have m: "m \<in> root_set L" "\<And>r. r \<in> root_set L \<Longrightarrow> r \<le> m" using finite_root_set [OF assms(1)] ne by (simp_all add: m_def)
  have mb: "m < 2 ^ 31" using small_pos(2) [OF assms(1)] m(1) root_subset by blast
  have any: "list_ex (\<lambda>x. as_u32 x \<in> root_set L) (path p m) \<longleftrightarrow> p \<in> pruned_set L" if p: "0 < p" "p \<le> m" for p
  proof -
    obtain h j where hj: "p = node_pos h j" using p(1) by (rule node_pos_exists)
    have le: "node_pos h j \<le> 2 ^ 64" using p(2) mb hj by simp
    have "as_u32 x = x" if "x \<le> m" for x using that mb by (intro as_u32_id) simp
    then have "list_ex (\<lambda>x. as_u32 x \<in> root_set L) (path p m) \<longleftrightarrow> (\<exists>k. node_pos (h + k) (j div 2 ^ k) \<in> root_set L)"
      unfolding hj list_ex_iff path_set [OF le] using m(2) by (auto simp del: in_root_set) (metis m(2))
    then show ?thesis using ancestor_root [OF assms(1) p(1)] hj by auto
  qed
  have sub: "pruned_set L \<subseteq> {1..m}"
  proof
    fix p
    assume p: "p \<in> pruned_set L"
    then obtain r where "r \<in> root_set L" "p \<le> r" using pruned_below_root [OF assms(1)] by blast
    then show "p \<in> {1..m}" using m(2) small_pos(1) [OF assms(1) p] by fastforce
  qed
  have "as_u32 (m + 1) = m + 1" using mb by (intro as_u32_id) simp
  then have "set (map as_u32 (filter (\<lambda>p. list_ex (\<lambda>x. as_u32 x \<in> root_set L) (path p m)) [1..<as_u32 (m + 1)]))
      = as_u32 ` {p \<in> {1..m}. p \<in> pruned_set L}"
    using any by (auto simp: less_Suc_eq_le)
  also have "\<dots> = pruned_set L" using sub small_pos(5) [OF assms(1)] by force
  finally show ?thesis using ne assms(2) by (simp add: build_pruned_cache_def bm_maximum_def unwrap_or_def m_def [symmetric])
qed

lemma filter_pos_roots: "roots_ok R \<Longrightarrow> filter (\<lambda>x. x > 0) (bm_iter R) = sorted_list_of_set R"
  unfolding bm_iter_def by (rule filter_True) (auto simp: roots_ok_def intro: gr0I)

lemma init_caches_eq:
  assumes "small L" "pl_bitmap pl = root_set L"
    "L = {} \<Longrightarrow> pl_pruned_cache pl = {} \<and> pl_shift_cache pl = [] \<and> pl_leaf_shift_cache pl = []"
  shows "\<exists>pl'. init_caches pl = Some pl' \<and> pl_caches L pl' \<and> pl_file pl' = pl_file pl"
proof (cases "L = {}")
  case True
  then show ?thesis using assms
    by (simp add: init_caches_def build_shift_cache_def build_leaf_shift_cache_def build_pruned_cache_def pl_caches_def pl_ok_def)
next
  case False
  let ?rs = "sorted_list_of_set (root_set L)"
  have ok: "roots_ok (root_set L)" and ne: "root_set L \<noteq> {}" using roots_ok_root_set assms(1) False by auto
  let ?pl1 = "pl\<lparr>pl_shift_cache := sums shift_weight ?rs\<rparr>"
  let ?pl2 = "?pl1\<lparr>pl_leaf_shift_cache := sums leaf_weight ?rs\<rparr>"
  have "build_shift_cache pl = Some ?pl1"
    using shift_loop_eq [of "pl\<lparr>pl_shift_cache := []\<rparr>" "[]" ?rs] ok ne assms(2) filter_pos_roots by (simp add: build_shift_cache_def)
  moreover have "build_leaf_shift_cache ?pl1 = Some ?pl2"
    using leaf_shift_loop_eq [of "?pl1\<lparr>pl_leaf_shift_cache := []\<rparr>" "[]" ?rs] ok ne assms(2) filter_pos_roots by (simp add: build_leaf_shift_cache_def)
  moreover have "build_pruned_cache ?pl2 = ?pl2\<lparr>pl_pruned_cache := pruned_set L\<rparr>"
    using build_pruned_cache_eq [of L ?pl2] assms False by simp
  ultimately show ?thesis using assms by (simp add: init_caches_def pl_caches_def pl_ok_def)
qed


section \<open>Adding a leaf\<close>

lemma sib_parent: "i div 2 = j div 2 \<Longrightarrow> i = j \<or> i = sib j"
  unfolding sib_def by (cases "even j") (auto elim!: evenE oddE)

lemma sib_neq [simp]: "sib j \<noteq> j"
  unfolding sib_def by (cases "even j") (auto elim!: oddE)

lemma node_pos_sib_less: "node_pos h (sib j) < 2 * node_pos h j + 2"
  using node_pos_sib_even [of j h] node_pos_sib_odd [of j h] node_pos_ge [of h j] by (cases "even j") linarith+

lemma climb_div [simp]: "i div 2 ^ k div 2 = i div 2 ^ Suc k"
  for i :: nat
  by (simp only: power_Suc2 div_mult2_eq)

lemma full_insert:
  "full (insert i L) k m \<longleftrightarrow> full L k m \<or> m = i div 2 ^ k \<and> full (insert i L) k (i div 2 ^ k)"
  by (auto simp: full_def)

lemma full_insert_off: "m \<noteq> i div 2 ^ k \<Longrightarrow> full (insert i L) k m \<longleftrightarrow> full L k m"
  using full_insert by blast

lemma full_path_le: "full L h (i div 2 ^ h) \<Longrightarrow> k \<le> h \<Longrightarrow> full L k (i div 2 ^ k)"
proof -
  assume a: "full L h (i div 2 ^ h)" "k \<le> h"
  have "(2::nat) ^ h = 2 ^ k * 2 ^ (h - k)" using a(2) by (simp add: power_add [symmetric])
  then have "i div 2 ^ k div 2 ^ (h - k) = i div 2 ^ h" by (simp add: div_mult2_eq)
  then show ?thesis using full_below [OF a] by blast
qed

text \<open>The climb stops at height \<open>h\<close>: the first node above the new leaf whose sibling is not pruned.\<close>

lemma pruned_set_insert:
  assumes "full (insert i L) h (i div 2 ^ h)" "\<not> full (insert i L) (Suc h) (i div 2 ^ Suc h)"
  shows "pruned_set (insert i L) = pruned_set L \<union> {node_pos k (i div 2 ^ k) | k. k \<le> h}"
proof -
  have "full (insert i L) k (i div 2 ^ k) \<longleftrightarrow> k \<le> h" for k
    using full_path_le [of "insert i L" h i k] full_path_le [of "insert i L" k i "Suc h"] assms by (metis not_less_eq_eq)
  then show ?thesis unfolding pruned_set_def using full_insert [of i L] by blast
qed

lemma root_set_insert:
  assumes "full (insert i L) h (i div 2 ^ h)" "\<not> full (insert i L) (Suc h) (i div 2 ^ Suc h)"
  shows "root_set (insert i L) = insert (node_pos h (i div 2 ^ h)) (root_set L - {node_pos k (sib (i div 2 ^ k)) | k. k < h})"
proof -
  have on_path: "full (insert i L) k (i div 2 ^ k) \<longleftrightarrow> k \<le> h" for k
    using full_path_le [of "insert i L" h i k] full_path_le [of "insert i L" k i "Suc h"] assms by (metis not_less_eq_eq)
  then have fl: "full (insert i L) k m \<longleftrightarrow> full L k m \<or> m = i div 2 ^ k \<and> k \<le> h" for k m using full_insert by blast
  have "node_pos k m \<in> root_set (insert i L)
      \<longleftrightarrow> k = h \<and> m = i div 2 ^ h \<or> node_pos k m \<in> root_set L \<and> \<not> (k < h \<and> m = sib (i div 2 ^ k))" for k m
  proof (cases "m = i div 2 ^ k")
    case True
    have "i \<in> L" if "full L k m" using that full_path_le [of L k i 0] True by simp
    then have same: "insert i L = L" if "node_pos k m \<in> root_set L" using that by (simp add: insert_absorb)
    have "node_pos k m \<in> root_set (insert i L) \<longleftrightarrow> k \<le> h \<and> \<not> Suc k \<le> h" using True on_path [of k] on_path [of "Suc k"] by simp
    then have "node_pos k m \<in> root_set (insert i L) \<longleftrightarrow> k = h" by linarith
    then show ?thesis using True same by auto
  next
    case False
    have "m div 2 = i div 2 ^ Suc k \<longleftrightarrow> m = sib (i div 2 ^ k)" using sib_parent [of m "i div 2 ^ k"] False by auto
    then show ?thesis using False fl [of k m] fl [of "Suc k" "m div 2"] by (auto simp: Suc_le_eq)
  qed
  moreover have "node_pos k m \<in> {node_pos k (sib (i div 2 ^ k)) | k. k < h} \<longleftrightarrow> k < h \<and> m = sib (i div 2 ^ k)" for k m by auto
  ultimately have pos: "node_pos k m \<in> root_set (insert i L) \<longleftrightarrow> node_pos k m
      \<in> insert (node_pos h (i div 2 ^ h)) (root_set L - {node_pos k (sib (i div 2 ^ k)) | k. k < h})" for k m
    unfolding insert_iff Diff_iff node_pos_eq by (simp only:)
  show ?thesis
  proof (rule set_eqI)
    fix p
    show "p \<in> root_set (insert i L) \<longleftrightarrow> p \<in> insert (node_pos h (i div 2 ^ h)) (root_set L - {node_pos k (sib (i div 2 ^ k)) | k. k < h})"
    proof (cases "p = 0")
      case False
      then obtain k m where "p = node_pos k m" by (auto elim: node_pos_exists)
      then show ?thesis using pos by (simp only:)
    qed simp
  qed
qed

lemma add_loop_eq:
  assumes "small (insert i L)"
  shows "full (insert i L) h (i div 2 ^ h) \<Longrightarrow>
    add_loop (node_pos h (i div 2 ^ h)) (root_set L - {node_pos k (sib (i div 2 ^ k)) | k. k < h})
      (pruned_set L \<union> {node_pos k (i div 2 ^ k) | k. k < h})
    = Some (root_set (insert i L), pruned_set (insert i L))"
proof (induction "2 ^ 31 - node_pos h (i div 2 ^ h)" arbitrary: h rule: less_induct)
  case less
  let ?j = "i div 2 ^ h"
  let ?bm = "root_set L - {node_pos k (sib (i div 2 ^ k)) | k. k < h}" and ?cache = "pruned_set L \<union> {node_pos k (i div 2 ^ k) | k. k < h}"
  have lt: "node_pos h ?j < 2 ^ 31" by (rule small_node [OF assms less.prems])
  then have fam: "family (node_pos h ?j) = (node_pos (Suc h) (i div 2 ^ Suc h), node_pos h (sib ?j))"
    using family_node_pos [of h ?j] by simp
  have cur: "as_u32 (node_pos h ?j) = node_pos h ?j" and sibl: "as_u32 (node_pos h (sib ?j)) = node_pos h (sib ?j)"
    using lt node_pos_sib_less [of h ?j] by (auto intro!: as_u32_id)
  have up: "full (insert i L) (Suc h) (i div 2 ^ Suc h) \<longleftrightarrow> full L h (sib ?j)"
    using full_parent [of "insert i L" h ?j] less.prems full_insert_off [of "sib ?j" i h L] by simp
  have cond: "node_pos h (sib ?j) \<in> ?bm \<or> node_pos h (sib ?j) \<in> ?cache \<longleftrightarrow> full L h (sib ?j)" by auto
  have cache: "insert (node_pos h ?j) ?cache = pruned_set L \<union> {node_pos k (i div 2 ^ k) | k. k < Suc h}"
    by (auto simp: less_Suc_eq)
  show ?case
  proof (cases "full L h (sib ?j)")
    case True
    have bm: "?bm - {node_pos h (sib ?j)} = root_set L - {node_pos k (sib (i div 2 ^ k)) | k. k < Suc h}" by (auto simp: less_Suc_eq)
    have "node_pos h ?j < node_pos (Suc h) (i div 2 ^ Suc h)" using node_pos_parent_gt [of h ?j] by simp
    then have "2 ^ 31 - node_pos (Suc h) (i div 2 ^ Suc h) < 2 ^ 31 - node_pos h ?j" using lt by linarith
    from less.hyps [OF this] show ?thesis using True up cond
      by (subst add_loop.simps) (simp only: fam Let_def prod.case cur sibl if_True bm cache)
  next
    case False
    have fin: "\<not> full (insert i L) (Suc h) (i div 2 ^ Suc h)" using False up by simp
    have "{node_pos k (i div 2 ^ k) | k. k < Suc h} = {node_pos k (i div 2 ^ k) | k. k \<le> h}" by (auto simp: less_Suc_eq_le)
    then show ?thesis
      using False cond cache pruned_set_insert [OF less.prems fin] root_set_insert [OF less.prems fin]
      by (subst add_loop.simps) (simp only: fam Let_def prod.case cur sibl if_False)
  qed
qed

lemma prune_list_add_eq:
  assumes "pl_ok L pl" "small (insert i L)"
  shows "\<exists>pl'. prune_list_add pl (node_pos 0 i) = Some pl' \<and> pl_ok (insert i L) pl' \<and> pl_file pl' = pl_file pl
    \<and> pl_shift_cache pl' = pl_shift_cache pl \<and> pl_leaf_shift_cache pl' = pl_leaf_shift_cache pl"
  using add_loop_eq [OF assms(2), of 0] assms by (simp add: prune_list_add_def pl_ok_def)

text \<open>Adding a sequence of leaves, the loop of \<open>check_compact\<close>.\<close>

fun prune_list_add_all :: "prune_list \<Rightarrow> nat list \<Rightarrow> prune_list option" where
  "prune_list_add_all pl [] = Some pl"
| "prune_list_add_all pl (pos # rest) = Option.bind (prune_list_add pl pos) (\<lambda>pl. prune_list_add_all pl rest)"

lemma small_mono: "small L \<Longrightarrow> M \<subseteq> L \<Longrightarrow> small M"
  unfolding small_def by blast

lemma prune_list_add_all_eq:
  "pl_ok L pl \<Longrightarrow> small (set is \<union> L) \<Longrightarrow>
    \<exists>pl'. prune_list_add_all pl (map (node_pos 0) is) = Some pl' \<and> pl_ok (set is \<union> L) pl' \<and> pl_file pl' = pl_file pl
    \<and> pl_shift_cache pl' = pl_shift_cache pl \<and> pl_leaf_shift_cache pl' = pl_leaf_shift_cache pl"
proof (induction "is" arbitrary: L pl)
  case (Cons i "is")
  have "small (insert i L)" using Cons.prems(2) by (rule small_mono) auto
  from prune_list_add_eq [OF Cons.prems(1) this] obtain pl' where pl': "prune_list_add pl (node_pos 0 i) = Some pl'"
      "pl_ok (insert i L) pl'" "pl_file pl' = pl_file pl" "pl_shift_cache pl' = pl_shift_cache pl" "pl_leaf_shift_cache pl' = pl_leaf_shift_cache pl"
    by blast
  have "set is \<union> insert i L = set (i # is) \<union> L" by auto
  then show ?case using Cons.IH [OF pl'(2)] Cons.prems(2) pl' by simp
qed simp

lemma prune_list_flush_eq:
  assumes "pl_ok L pl" "L = {} \<Longrightarrow> pl_shift_cache pl = [] \<and> pl_leaf_shift_cache pl = []"
  shows "\<exists>pl'. prune_list_flush pl = Some pl' \<and> pl_caches L pl' \<and> pl_file pl' = map_option (\<lambda>_. root_set L) (pl_file pl)"
proof -
  let ?pl = "case pl_file pl of Some _ \<Rightarrow> pl\<lparr>pl_file := Some (pl_bitmap pl)\<rparr> | None \<Rightarrow> pl"
  have "pl_bitmap ?pl = root_set L" "pl_pruned_cache ?pl = pruned_set L" "small L"
      "pl_shift_cache ?pl = pl_shift_cache pl" "pl_leaf_shift_cache ?pl = pl_leaf_shift_cache pl"
      "pl_file ?pl = map_option (\<lambda>_. root_set L) (pl_file pl)"
    using assms(1) by (auto simp: pl_ok_def split: option.splits)
  then show ?thesis using init_caches_eq [of L ?pl] assms(2) unfolding prune_list_flush_def by simp
qed


section \<open>Properties\<close>

lemma pl_caches_unique: "pl_caches L pl \<Longrightarrow> pl_caches L pl' \<Longrightarrow> pl_file pl = pl_file pl' \<Longrightarrow> pl = pl'"
  by (cases pl, cases pl') (simp add: pl_caches_def pl_ok_def)



end
