(* ===== verification/Chain_Store.thy ===== *)
theory Chain_Store
  imports Bitmap_Accumulator Prune_List "HOL-Library.RBT"
begin

text \<open>
  The database (\<open>store/src/lmdb.rs\<close>, \<open>store/src/lib.rs\<close>) and the chain store on top of it (\<open>chain/src/store.rs\<close>). LMDB itself is the
  argument \<open>kv\<close>, a record of its operations on a map from byte keys to byte values; the locale \<open>kv_store\<close> states what it
  promises. Values are kept as the bytes the codecs write. A batch sees its own writes in \<open>get_ser\<close>, but \<open>get\<close>, \<open>exists\<close> and
  \<open>iter\<close> go to the database behind it, as in the code. Failures of the disk are not modelled.
\<close>

section \<open>LMDB\<close>

record 'd kv_ops =
  kv_get :: "'d \<Rightarrow> bytes \<Rightarrow> bytes option"
  kv_put :: "'d \<Rightarrow> bytes \<Rightarrow> bytes \<Rightarrow> 'd"
  kv_del :: "'d \<Rightarrow> bytes \<Rightarrow> 'd"
  kv_entries :: "'d \<Rightarrow> (bytes \<times> bytes) list"

locale kv_store =
  fixes kv :: "'d kv_ops"
  assumes get_put: "kv_get kv (kv_put kv d k v) k' = (if k' = k then Some v else kv_get kv d k')"
    and get_del: "kv_get kv (kv_del kv d k) k' = (if k' = k then None else kv_get kv d k')"
    and entries: "set (kv_entries kv d) = {(k, v). kv_get kv d k = Some v}" "sorted_wrt (<) (map fst (kv_entries kv d))"

section \<open>Keys\<close>

definition SEP :: u8 where "SEP = 0x3A"

definition to_key :: "u8 \<Rightarrow> bytes \<Rightarrow> bytes" where
  "to_key pfx k = pfx # SEP # k"

definition to_key_u64 :: "u8 \<Rightarrow> bytes \<Rightarrow> u64 \<Rightarrow> bytes" where
  "to_key_u64 pfx k val = pfx # SEP # k @ write_u64 val"

definition u64_to_key :: "u8 \<Rightarrow> u64 \<Rightarrow> bytes" where
  "u64_to_key pfx val = pfx # SEP # write_u64 val"

section \<open>Stores and batches\<close>

definition option_to_not_found :: "store_error + 'a option \<Rightarrow> store_error + 'a" where
  "option_to_not_found res = rbind res (\<lambda>x. case x of None \<Rightarrow> Inl NotFoundErr | Some y \<Rightarrow> Inr y)"

definition DEFAULT_DB_VERSION :: version where "DEFAULT_DB_VERSION = 2"

record 'd store =
  sr_db :: 'd
  sr_version :: version

definition store_with_version :: "version \<Rightarrow> 'd store \<Rightarrow> 'd store" where
  "store_with_version v s = s\<lparr>sr_version := v\<rparr>"

definition get_ser_access ::
  "'d kv_ops \<Rightarrow> (reader \<Rightarrow> 'a parse) \<Rightarrow> version \<Rightarrow> bytes \<Rightarrow> 'd \<Rightarrow> store_error + 'a option" where
  "get_ser_access kv rd v key d =
    (case kv_get kv d key of
       None \<Rightarrow> Inr None
     | Some res \<Rightarrow> (case deserialize rd res v of Inl e \<Rightarrow> Inl (StoreSerErr e) | Inr x \<Rightarrow> Inr (Some x)))"

definition store_get :: "'d kv_ops \<Rightarrow> bytes \<Rightarrow> 'd store \<Rightarrow> bytes option" where
  "store_get kv key s = kv_get kv (sr_db s) key"

definition store_get_ser :: "'d kv_ops \<Rightarrow> (reader \<Rightarrow> 'a parse) \<Rightarrow> bytes \<Rightarrow> 'd store \<Rightarrow> store_error + 'a option" where
  "store_get_ser kv rd key s = get_ser_access kv rd (sr_version s) key (sr_db s)"

definition store_exists :: "'d kv_ops \<Rightarrow> bytes \<Rightarrow> 'd store \<Rightarrow> bool" where
  "store_exists kv key s \<longleftrightarrow> kv_get kv (sr_db s) key \<noteq> None"

text \<open>\<open>SerIterator\<close>: from the first key not below the prefix, up to the first key without the prefix or value that cannot be read.\<close>

definition deser_if_prefix_match :: "(reader \<Rightarrow> 'a parse) \<Rightarrow> version \<Rightarrow> bytes \<Rightarrow> bytes \<times> bytes \<Rightarrow> (bytes \<times> 'a) option" where
  "deser_if_prefix_match rd v pfx e =
    (if take (length pfx) (fst e) = pfx
     then (case deserialize rd (snd e) v of Inl _ \<Rightarrow> None | Inr x \<Rightarrow> Some (fst e, x))
     else None)"

fun ser_iterate :: "(bytes \<times> bytes \<Rightarrow> (bytes \<times> 'a) option) \<Rightarrow> (bytes \<times> bytes) list \<Rightarrow> (bytes \<times> 'a) list" where
  "ser_iterate f [] = []"
| "ser_iterate f (e # es) = (case f e of None \<Rightarrow> [] | Some x \<Rightarrow> x # ser_iterate f es)"

definition store_iter :: "'d kv_ops \<Rightarrow> (reader \<Rightarrow> 'a parse) \<Rightarrow> bytes \<Rightarrow> 'd store \<Rightarrow> (bytes \<times> 'a) list" where
  "store_iter kv rd from s =
    ser_iterate (deser_if_prefix_match rd (sr_version s) from) (dropWhile (\<lambda>e. fst e < from) (kv_entries kv (sr_db s)))"

text \<open>A batch is a write transaction: \<open>bx_tx\<close> is what it has written so far, over the database \<open>bx_store\<close>.\<close>

record 'd batch =
  bx_store :: "'d store"
  bx_tx :: 'd

definition store_batch :: "'d store \<Rightarrow> 'd batch" where
  "store_batch s = \<lparr>bx_store = s, bx_tx = sr_db s\<rparr>"

definition bx_put :: "'d kv_ops \<Rightarrow> bytes \<Rightarrow> bytes \<Rightarrow> 'd batch \<Rightarrow> 'd batch" where
  "bx_put kv key val b = b\<lparr>bx_tx := kv_put kv (bx_tx b) key val\<rparr>"

definition put_ser_with_version ::
  "'d kv_ops \<Rightarrow> (version \<Rightarrow> 'a \<Rightarrow> bytes) \<Rightarrow> bytes \<Rightarrow> 'a \<Rightarrow> version \<Rightarrow> 'd batch \<Rightarrow> 'd batch" where
  "put_ser_with_version kv wr key x v b = bx_put kv key (ser_vec wr x v) b"

definition put_ser :: "'d kv_ops \<Rightarrow> (version \<Rightarrow> 'a \<Rightarrow> bytes) \<Rightarrow> bytes \<Rightarrow> 'a \<Rightarrow> 'd batch \<Rightarrow> 'd batch" where
  "put_ser kv wr key x b = put_ser_with_version kv wr key x (sr_version (bx_store b)) b"

definition bx_get :: "'d kv_ops \<Rightarrow> bytes \<Rightarrow> 'd batch \<Rightarrow> bytes option" where
  "bx_get kv key b = store_get kv key (bx_store b)"

definition bx_exists :: "'d kv_ops \<Rightarrow> bytes \<Rightarrow> 'd batch \<Rightarrow> bool" where
  "bx_exists kv key b = store_exists kv key (bx_store b)"

definition bx_iter :: "'d kv_ops \<Rightarrow> (reader \<Rightarrow> 'a parse) \<Rightarrow> bytes \<Rightarrow> 'd batch \<Rightarrow> (bytes \<times> 'a) list" where
  "bx_iter kv rd from b = store_iter kv rd from (bx_store b)"

definition get_ser :: "'d kv_ops \<Rightarrow> (reader \<Rightarrow> 'a parse) \<Rightarrow> bytes \<Rightarrow> 'd batch \<Rightarrow> store_error + 'a option" where
  "get_ser kv rd key b = get_ser_access kv rd (sr_version (bx_store b)) key (bx_tx b)"

definition bx_delete :: "'d kv_ops \<Rightarrow> bytes \<Rightarrow> 'd batch \<Rightarrow> store_error + 'd batch" where
  "bx_delete kv key b =
    (if kv_get kv (bx_tx b) key = None then Inl LmdbErr else Inr (b\<lparr>bx_tx := kv_del kv (bx_tx b) key\<rparr>))"

definition bx_commit :: "'d batch \<Rightarrow> 'd store" where
  "bx_commit b = (bx_store b)\<lparr>sr_db := bx_tx b\<rparr>"

text \<open>A child batch starts from what its parent has written; committing it hands its writes to the parent.\<close>

definition bx_child :: "'d batch \<Rightarrow> 'd batch" where
  "bx_child b = b"

definition bx_commit_child :: "'d batch \<Rightarrow> 'd batch \<Rightarrow> 'd batch" where
  "bx_commit_child parent child = parent\<lparr>bx_tx := bx_tx child\<rparr>"

section \<open>The chain store\<close>

text \<open>What the readers and writers of the stored values depend on.\<close>

record 'd db_env =
  de_ct :: chain_types
  de_blake :: "bytes \<Rightarrow> hash"
  de_chrono :: chrono
  de_sizes :: secp_sizes
  de_kv :: "'d kv_ops"

definition BLOCK_HEADER_PREFIX :: u8 where "BLOCK_HEADER_PREFIX = 0x68"
definition BLOCK_PREFIX :: u8 where "BLOCK_PREFIX = 0x62"
definition HEAD_PREFIX :: u8 where "HEAD_PREFIX = 0x48"
definition TAIL_PREFIX :: u8 where "TAIL_PREFIX = 0x54"
definition OUTPUT_POS_PREFIX :: u8 where "OUTPUT_POS_PREFIX = 0x70"
definition BLOCK_INPUT_BITMAP_PREFIX :: u8 where "BLOCK_INPUT_BITMAP_PREFIX = 0x42"
definition BLOCK_SUMS_PREFIX :: u8 where "BLOCK_SUMS_PREFIX = 0x4D"
definition BLOCK_SPENT_PREFIX :: u8 where "BLOCK_SPENT_PREFIX = 0x73"
definition TOKEN_COMMIT_POS_PREFIX :: u8 where "TOKEN_COMMIT_POS_PREFIX = 0x74"
definition TOKEN_ISSUE_PROOF_POS_PREFIX :: u8 where "TOKEN_ISSUE_PROOF_POS_PREFIX = 0x50"
definition TOKEN_EXCESS_SUMS_PREFIX :: u8 where "TOKEN_EXCESS_SUMS_PREFIX = 0x53"
definition TOKEN_BLOCK_INPUT_BITMAP_PREFIX :: u8 where "TOKEN_BLOCK_INPUT_BITMAP_PREFIX = 0x43"
definition TOKEN_BLOCK_SPENT_PREFIX :: u8 where "TOKEN_BLOCK_SPENT_PREFIX = 0x5A"

lemmas prefix_defs = BLOCK_HEADER_PREFIX_def BLOCK_PREFIX_def HEAD_PREFIX_def TAIL_PREFIX_def OUTPUT_POS_PREFIX_def
  BLOCK_INPUT_BITMAP_PREFIX_def BLOCK_SUMS_PREFIX_def BLOCK_SPENT_PREFIX_def TOKEN_COMMIT_POS_PREFIX_def
  TOKEN_ISSUE_PROOF_POS_PREFIX_def TOKEN_EXCESS_SUMS_PREFIX_def TOKEN_BLOCK_INPUT_BITMAP_PREFIX_def TOKEN_BLOCK_SPENT_PREFIX_def

text \<open>Pairs, and vectors read until the end of the input; a reader that consumes its input needs no more rounds than bytes.\<close>

definition write_u64_pair :: "u64 \<times> u64 \<Rightarrow> bytes" where
  "write_u64_pair p = write_u64 (fst p) @ write_u64 (snd p)"

definition read_u64_pair :: "reader \<Rightarrow> (u64 \<times> u64) parse" where
  "read_u64_pair r = rbind (read_u64 r) (\<lambda>(a, r). rbind (read_u64 r) (\<lambda>(b, r). Inr ((a, b), r)))"

fun read_vec_loop :: "(reader \<Rightarrow> 'a parse) \<Rightarrow> nat \<Rightarrow> reader \<Rightarrow> 'a list parse" where
  "read_vec_loop rd 0 r = Inr ([], r)"
| "read_vec_loop rd (Suc n) r =
    (case rd r of
       Inr (x, r) \<Rightarrow> rbind (read_vec_loop rd n r) (\<lambda>(xs, r). Inr (x # xs, r))
     | Inl e \<Rightarrow> if e = IOErr UnexpectedEof then Inr ([], r) else Inl e)"

definition read_vec :: "(reader \<Rightarrow> 'a parse) \<Rightarrow> reader \<Rightarrow> 'a list parse" where
  "read_vec rd r = read_vec_loop rd (Suc (length (rd_source r))) r"

subsection \<open>Reading outside a batch\<close>

definition cs_head :: "'d db_env \<Rightarrow> 'd store \<Rightarrow> store_error + tip" where
  "cs_head E s = option_to_not_found (store_get_ser (de_kv E) read_tip [HEAD_PREFIX] s)"

definition cs_tail :: "'d db_env \<Rightarrow> 'd store \<Rightarrow> store_error + tip" where
  "cs_tail E s = option_to_not_found (store_get_ser (de_kv E) read_tip [TAIL_PREFIX] s)"

definition cs_get_block_header :: "'d db_env \<Rightarrow> hash \<Rightarrow> 'd store \<Rightarrow> store_error + block_header" where
  "cs_get_block_header E h s =
    option_to_not_found (store_get_ser (de_kv E) (read_block_header (de_chrono E) (de_ct E) (de_sizes E)) (to_key BLOCK_HEADER_PREFIX h) s)"

definition cs_head_header :: "'d db_env \<Rightarrow> 'd store \<Rightarrow> store_error + block_header" where
  "cs_head_header E s = rbind (cs_head E s) (\<lambda>t. cs_get_block_header E (t_last_block_h t) s)"

definition cs_get_block :: "'d db_env \<Rightarrow> hash \<Rightarrow> 'd store \<Rightarrow> store_error + block" where
  "cs_get_block E h s =
    option_to_not_found (store_get_ser (de_kv E) (read_block (de_chrono E) (de_ct E) (de_blake E) (de_sizes E)) (to_key BLOCK_PREFIX h) s)"

definition cs_block_exists :: "'d db_env \<Rightarrow> hash \<Rightarrow> 'd store \<Rightarrow> bool" where
  "cs_block_exists E h s = store_exists (de_kv E) (to_key BLOCK_PREFIX h) s"

definition cs_get_block_sums :: "'d db_env \<Rightarrow> hash \<Rightarrow> 'd store \<Rightarrow> store_error + block_sums" where
  "cs_get_block_sums E h s = option_to_not_found (store_get_ser (de_kv E) (read_block_sums (de_sizes E)) (to_key BLOCK_SUMS_PREFIX h) s)"

definition cs_get_block_token_sums :: "'d db_env \<Rightarrow> hash \<Rightarrow> 'd store \<Rightarrow> store_error + block_token_sums" where
  "cs_get_block_token_sums E h s =
    rbind (cs_get_block_header E h s) (\<lambda>header.
      if h_height header < support_token_height (de_ct E) then Inr block_token_sums_default
      else option_to_not_found (store_get_ser (de_kv E) (read_block_token_sums (de_sizes E)) (to_key TOKEN_EXCESS_SUMS_PREFIX h) s))"

definition cs_get_previous_header :: "'d db_env \<Rightarrow> block_header \<Rightarrow> 'd store \<Rightarrow> store_error + block_header" where
  "cs_get_previous_header E header s = cs_get_block_header E (h_prev_hash header) s"

definition cs_get_output_pos_height :: "'d db_env \<Rightarrow> commitment \<Rightarrow> 'd store \<Rightarrow> store_error + (u64 \<times> u64) option" where
  "cs_get_output_pos_height E commit s = store_get_ser (de_kv E) read_u64_pair (to_key OUTPUT_POS_PREFIX commit) s"

definition cs_get_output_pos :: "'d db_env \<Rightarrow> commitment \<Rightarrow> 'd store \<Rightarrow> store_error + u64" where
  "cs_get_output_pos E commit s =
    rbind (cs_get_output_pos_height E commit s) (\<lambda>x. case x of Some (pos, _) \<Rightarrow> Inr pos | None \<Rightarrow> Inl NotFoundErr)"

definition cs_get_token_output_pos_height :: "'d db_env \<Rightarrow> commitment \<Rightarrow> 'd store \<Rightarrow> store_error + (u64 \<times> u64) option" where
  "cs_get_token_output_pos_height E commit s = store_get_ser (de_kv E) read_u64_pair (to_key TOKEN_COMMIT_POS_PREFIX commit) s"

definition cs_get_token_output_pos :: "'d db_env \<Rightarrow> commitment \<Rightarrow> 'd store \<Rightarrow> store_error + u64" where
  "cs_get_token_output_pos E commit s =
    rbind (cs_get_token_output_pos_height E commit s) (\<lambda>x. case x of Some (pos, _) \<Rightarrow> Inr pos | None \<Rightarrow> Inl NotFoundErr)"

subsection \<open>Batches of the chain store\<close>

definition bt_head :: "'d db_env \<Rightarrow> 'd batch \<Rightarrow> store_error + tip" where
  "bt_head E b = option_to_not_found (get_ser (de_kv E) read_tip [HEAD_PREFIX] b)"

definition bt_tail :: "'d db_env \<Rightarrow> 'd batch \<Rightarrow> store_error + tip" where
  "bt_tail E b = option_to_not_found (get_ser (de_kv E) read_tip [TAIL_PREFIX] b)"

definition save_body_head :: "'d db_env \<Rightarrow> tip \<Rightarrow> 'd batch \<Rightarrow> 'd batch" where
  "save_body_head E t b = put_ser (de_kv E) (\<lambda>_. write_tip) [HEAD_PREFIX] t b"

definition save_body_tail :: "'d db_env \<Rightarrow> tip \<Rightarrow> 'd batch \<Rightarrow> 'd batch" where
  "save_body_tail E t b = put_ser (de_kv E) (\<lambda>_. write_tip) [TAIL_PREFIX] t b"

definition get_block_header :: "'d db_env \<Rightarrow> hash \<Rightarrow> 'd batch \<Rightarrow> store_error + block_header" where
  "get_block_header E h b =
    option_to_not_found (get_ser (de_kv E) (read_block_header (de_chrono E) (de_ct E) (de_sizes E)) (to_key BLOCK_HEADER_PREFIX h) b)"

definition get_previous_header :: "'d db_env \<Rightarrow> block_header \<Rightarrow> 'd batch \<Rightarrow> store_error + block_header" where
  "get_previous_header E header b = get_block_header E (h_prev_hash header) b"

definition bt_head_header :: "'d db_env \<Rightarrow> 'd batch \<Rightarrow> store_error + block_header" where
  "bt_head_header E b = rbind (bt_head E b) (\<lambda>t. get_block_header E (t_last_block_h t) b)"

definition get_block :: "'d db_env \<Rightarrow> hash \<Rightarrow> 'd batch \<Rightarrow> store_error + block" where
  "get_block E h b =
    option_to_not_found (get_ser (de_kv E) (read_block (de_chrono E) (de_ct E) (de_blake E) (de_sizes E)) (to_key BLOCK_PREFIX h) b)"

definition block_exists :: "'d db_env \<Rightarrow> hash \<Rightarrow> 'd batch \<Rightarrow> bool" where
  "block_exists E h b = bx_exists (de_kv E) (to_key BLOCK_PREFIX h) b"

definition save_block :: "'d db_env \<Rightarrow> block \<Rightarrow> 'd batch \<Rightarrow> 'd batch" where
  "save_block E bl b = put_ser (de_kv E) (write_block (de_ct E) FullMode) (to_key BLOCK_PREFIX (hash_block (de_ct E) (de_blake E) bl)) bl b"

definition migrate_block :: "'d db_env \<Rightarrow> block \<Rightarrow> version \<Rightarrow> 'd batch \<Rightarrow> 'd batch" where
  "migrate_block E bl v b =
    put_ser_with_version (de_kv E) (write_block (de_ct E) FullMode) (to_key BLOCK_PREFIX (hash_block (de_ct E) (de_blake E) bl)) bl v b"

definition save_spent_index :: "'d db_env \<Rightarrow> hash \<Rightarrow> commit_pos list \<Rightarrow> 'd batch \<Rightarrow> 'd batch" where
  "save_spent_index E h spent b = put_ser (de_kv E) (\<lambda>_. write_vec write_commit_pos) (to_key BLOCK_SPENT_PREFIX h) spent b"

definition save_spent_token_index :: "'d db_env \<Rightarrow> hash \<Rightarrow> commit_pos list \<Rightarrow> 'd batch \<Rightarrow> 'd batch" where
  "save_spent_token_index E h spent b = put_ser (de_kv E) (\<lambda>_. write_vec write_commit_pos) (to_key TOKEN_BLOCK_SPENT_PREFIX h) spent b"

definition save_block_header :: "'d db_env \<Rightarrow> block_header \<Rightarrow> 'd batch \<Rightarrow> 'd batch" where
  "save_block_header E header b =
    put_ser (de_kv E) (\<lambda>_. write_block_header (de_ct E) FullMode)
      (to_key BLOCK_HEADER_PREFIX (hash_block_header (de_ct E) (de_blake E) header)) header b"

definition save_output_pos_height :: "'d db_env \<Rightarrow> commitment \<Rightarrow> u64 \<Rightarrow> u64 \<Rightarrow> 'd batch \<Rightarrow> 'd batch" where
  "save_output_pos_height E commit pos height b = put_ser (de_kv E) (\<lambda>_. write_u64_pair) (to_key OUTPUT_POS_PREFIX commit) (pos, height) b"

definition save_token_output_pos_height :: "'d db_env \<Rightarrow> commitment \<Rightarrow> u64 \<Rightarrow> u64 \<Rightarrow> 'd batch \<Rightarrow> 'd batch" where
  "save_token_output_pos_height E commit pos height b =
    put_ser (de_kv E) (\<lambda>_. write_u64_pair) (to_key TOKEN_COMMIT_POS_PREFIX commit) (pos, height) b"

definition delete_output_pos_height :: "'d db_env \<Rightarrow> commitment \<Rightarrow> 'd batch \<Rightarrow> store_error + 'd batch" where
  "delete_output_pos_height E commit b = bx_delete (de_kv E) (to_key OUTPUT_POS_PREFIX commit) b"

definition delete_token_output_pos_height :: "'d db_env \<Rightarrow> commitment \<Rightarrow> 'd batch \<Rightarrow> store_error + 'd batch" where
  "delete_token_output_pos_height E commit b = bx_delete (de_kv E) (to_key TOKEN_COMMIT_POS_PREFIX commit) b"

definition is_match_output_pos_key :: "bytes \<Rightarrow> commitment \<Rightarrow> bool" where
  "is_match_output_pos_key key commit \<longleftrightarrow> to_key OUTPUT_POS_PREFIX commit = key"

definition is_match_token_output_pos_key :: "bytes \<Rightarrow> commitment \<Rightarrow> bool" where
  "is_match_token_output_pos_key key commit \<longleftrightarrow> to_key TOKEN_COMMIT_POS_PREFIX commit = key"

definition output_pos_iter :: "'d db_env \<Rightarrow> 'd batch \<Rightarrow> (bytes \<times> u64 \<times> u64) list" where
  "output_pos_iter E b = bx_iter (de_kv E) read_u64_pair (to_key OUTPUT_POS_PREFIX []) b"

definition token_output_pos_iter :: "'d db_env \<Rightarrow> 'd batch \<Rightarrow> (bytes \<times> u64 \<times> u64) list" where
  "token_output_pos_iter E b = bx_iter (de_kv E) read_u64_pair (to_key TOKEN_COMMIT_POS_PREFIX []) b"

definition get_output_pos_height :: "'d db_env \<Rightarrow> commitment \<Rightarrow> 'd batch \<Rightarrow> store_error + (u64 \<times> u64) option" where
  "get_output_pos_height E commit b = get_ser (de_kv E) read_u64_pair (to_key OUTPUT_POS_PREFIX commit) b"

definition get_output_pos :: "'d db_env \<Rightarrow> commitment \<Rightarrow> 'd batch \<Rightarrow> store_error + u64" where
  "get_output_pos E commit b =
    rbind (get_output_pos_height E commit b) (\<lambda>x. case x of Some (pos, _) \<Rightarrow> Inr pos | None \<Rightarrow> Inl NotFoundErr)"

definition get_token_output_pos_height :: "'d db_env \<Rightarrow> commitment \<Rightarrow> 'd batch \<Rightarrow> store_error + (u64 \<times> u64) option" where
  "get_token_output_pos_height E commit b = get_ser (de_kv E) read_u64_pair (to_key TOKEN_COMMIT_POS_PREFIX commit) b"

definition get_token_output_pos :: "'d db_env \<Rightarrow> commitment \<Rightarrow> 'd batch \<Rightarrow> store_error + u64" where
  "get_token_output_pos E commit b =
    rbind (get_token_output_pos_height E commit b) (\<lambda>x. case x of Some (pos, _) \<Rightarrow> Inr pos | None \<Rightarrow> Inl NotFoundErr)"

definition save_token_issue_proof_pos :: "'d db_env \<Rightarrow> token_key \<Rightarrow> u64 \<Rightarrow> 'd batch \<Rightarrow> 'd batch" where
  "save_token_issue_proof_pos E token_key pos b = put_ser (de_kv E) (\<lambda>_. write_u64) (to_key TOKEN_ISSUE_PROOF_POS_PREFIX token_key) pos b"

definition get_token_issue_proof_pos :: "'d db_env \<Rightarrow> token_key \<Rightarrow> 'd batch \<Rightarrow> store_error + u64" where
  "get_token_issue_proof_pos E token_key b =
    option_to_not_found (get_ser (de_kv E) read_u64 (to_key TOKEN_ISSUE_PROOF_POS_PREFIX token_key) b)"

fun delete_keys :: "'d kv_ops \<Rightarrow> bytes list \<Rightarrow> 'd batch \<Rightarrow> store_error + 'd batch" where
  "delete_keys kv [] b = Inr b"
| "delete_keys kv (k # ks) b = rbind (bx_delete kv k b) (delete_keys kv ks)"

definition clear_token_issue_proof_pos :: "'d db_env \<Rightarrow> 'd batch \<Rightarrow> store_error + 'd batch" where
  "clear_token_issue_proof_pos E b =
    delete_keys (de_kv E) (map fst (bx_iter (de_kv E) read_u64 (to_key TOKEN_ISSUE_PROOF_POS_PREFIX []) b)) b"

definition ok_or_same :: "store_error + 'd batch \<Rightarrow> 'd batch \<Rightarrow> 'd batch" where
  "ok_or_same r b = (case r of Inl _ \<Rightarrow> b | Inr b \<Rightarrow> b)"

definition delete_spent_index :: "'d db_env \<Rightarrow> hash \<Rightarrow> 'd batch \<Rightarrow> (store_error + unit) \<times> 'd batch" where
  "delete_spent_index E bh b =
    (let b = ok_or_same (bx_delete (de_kv E) (to_key BLOCK_INPUT_BITMAP_PREFIX bh) b) b
     in case bx_delete (de_kv E) (to_key BLOCK_SPENT_PREFIX bh) b of Inl e \<Rightarrow> (Inl e, b) | Inr b \<Rightarrow> (Inr (), b))"

definition delete_token_spent_index :: "'d db_env \<Rightarrow> hash \<Rightarrow> 'd batch \<Rightarrow> (store_error + unit) \<times> 'd batch" where
  "delete_token_spent_index E bh b =
    (let b = ok_or_same (bx_delete (de_kv E) (to_key TOKEN_BLOCK_INPUT_BITMAP_PREFIX bh) b) b
     in case bx_delete (de_kv E) (to_key TOKEN_BLOCK_SPENT_PREFIX bh) b of Inl e \<Rightarrow> (Inl e, b) | Inr b \<Rightarrow> (Inr (), b))"

definition save_block_sums :: "'d db_env \<Rightarrow> hash \<Rightarrow> block_sums \<Rightarrow> 'd batch \<Rightarrow> 'd batch" where
  "save_block_sums E h bsums b = put_ser (de_kv E) (\<lambda>_. write_block_sums) (to_key BLOCK_SUMS_PREFIX h) bsums b"

definition save_block_token_sums :: "'d db_env \<Rightarrow> hash \<Rightarrow> block_token_sums \<Rightarrow> 'd batch \<Rightarrow> store_error + 'd batch" where
  "save_block_token_sums E h bsums b =
    rbind (get_block_header E h b) (\<lambda>header.
      if h_height header < support_token_height (de_ct E) then Inr b
      else Inr (put_ser (de_kv E) (\<lambda>_. write_block_token_sums) (to_key TOKEN_EXCESS_SUMS_PREFIX h) bsums b))"

definition get_block_sums :: "'d db_env \<Rightarrow> hash \<Rightarrow> 'd batch \<Rightarrow> store_error + block_sums" where
  "get_block_sums E h b = option_to_not_found (get_ser (de_kv E) (read_block_sums (de_sizes E)) (to_key BLOCK_SUMS_PREFIX h) b)"

definition get_block_token_sums :: "'d db_env \<Rightarrow> hash \<Rightarrow> 'd batch \<Rightarrow> store_error + block_token_sums" where
  "get_block_token_sums E h b =
    rbind (get_block_header E h b) (\<lambda>header.
      if h_height header < support_token_height (de_ct E) then Inr block_token_sums_default
      else option_to_not_found (get_ser (de_kv E) (read_block_token_sums (de_sizes E)) (to_key TOKEN_EXCESS_SUMS_PREFIX h) b))"

definition delete_block_sums :: "'d db_env \<Rightarrow> hash \<Rightarrow> 'd batch \<Rightarrow> store_error + 'd batch" where
  "delete_block_sums E bh b = bx_delete (de_kv E) (to_key BLOCK_SUMS_PREFIX bh) b"

definition delete_block_token_sums :: "'d db_env \<Rightarrow> hash \<Rightarrow> 'd batch \<Rightarrow> store_error + 'd batch" where
  "delete_block_token_sums E bh b =
    rbind (get_block_header E bh b) (\<lambda>header.
      if h_height header < support_token_height (de_ct E) then Inr b
      else bx_delete (de_kv E) (to_key TOKEN_EXCESS_SUMS_PREFIX bh) b)"

definition delete_block :: "'d db_env \<Rightarrow> hash \<Rightarrow> 'd batch \<Rightarrow> store_error + 'd batch" where
  "delete_block E bh b =
    rbind (bx_delete (de_kv E) (to_key BLOCK_PREFIX bh) b) (\<lambda>b.
      let b = ok_or_same (delete_block_sums E bh b) b;
          b = ok_or_same (delete_block_token_sums E bh b) b;
          (_, b) = delete_spent_index E bh b;
          (_, b) = delete_token_spent_index E bh b
      in Inr b)"

definition get_spent_index :: "'d db_env \<Rightarrow> hash \<Rightarrow> 'd batch \<Rightarrow> store_error + commit_pos list" where
  "get_spent_index E bh b = option_to_not_found (get_ser (de_kv E) (read_vec read_commit_pos) (to_key BLOCK_SPENT_PREFIX bh) b)"

definition get_token_spent_index :: "'d db_env \<Rightarrow> hash \<Rightarrow> 'd batch \<Rightarrow> store_error + commit_pos list" where
  "get_token_spent_index E bh b = option_to_not_found (get_ser (de_kv E) (read_vec read_commit_pos) (to_key TOKEN_BLOCK_SPENT_PREFIX bh) b)"

text \<open>
  The legacy bitmaps are the bytes of \<open>Bitmap::serialize\<close>; \<open>bm_deserialize\<close> is the inverse. A position that does not fit
  into 32 bits makes \<open>get_block_input_bitmap\<close> panic.
\<close>

definition get_legacy_input_bitmap :: "'d db_env \<Rightarrow> (bytes \<Rightarrow> bitmap) \<Rightarrow> hash \<Rightarrow> 'd batch \<Rightarrow> store_error + bitmap" where
  "get_legacy_input_bitmap E bm_deserialize bh b =
    (case bx_get (de_kv E) (to_key BLOCK_INPUT_BITMAP_PREFIX bh) b of Some bs \<Rightarrow> Inr (bm_deserialize bs) | None \<Rightarrow> Inl NotFoundErr)"

definition get_legacy_token_input_bitmap :: "'d db_env \<Rightarrow> (bytes \<Rightarrow> bitmap) \<Rightarrow> hash \<Rightarrow> 'd batch \<Rightarrow> store_error + bitmap" where
  "get_legacy_token_input_bitmap E bm_deserialize bh b =
    (case bx_get (de_kv E) (to_key TOKEN_BLOCK_INPUT_BITMAP_PREFIX bh) b of Some bs \<Rightarrow> Inr (bm_deserialize bs) | None \<Rightarrow> Inl NotFoundErr)"

definition spent_bitmap :: "commit_pos list \<Rightarrow> chain_error + bitmap" where
  "spent_bitmap spent = (if \<exists>c \<in> set spent. unat (cp_pos c) \<ge> 2 ^ 32 then Inl Panic else Inr ((\<lambda>c. unat (cp_pos c)) ` set spent))"

definition get_block_input_bitmap :: "'d db_env \<Rightarrow> (bytes \<Rightarrow> bitmap) \<Rightarrow> hash \<Rightarrow> 'd batch \<Rightarrow> chain_error + bitmap" where
  "get_block_input_bitmap E bm_deserialize bh b =
    (case get_spent_index E bh b of
       Inr spent \<Rightarrow> spent_bitmap spent
     | Inl _ \<Rightarrow> map_err StoreErr (get_legacy_input_bitmap E bm_deserialize bh b))"

definition get_block_token_input_bitmap :: "'d db_env \<Rightarrow> (bytes \<Rightarrow> bitmap) \<Rightarrow> hash \<Rightarrow> 'd batch \<Rightarrow> chain_error + bitmap" where
  "get_block_token_input_bitmap E bm_deserialize bh b =
    (case get_token_spent_index E bh b of
       Inr spent \<Rightarrow> spent_bitmap spent
     | Inl _ \<Rightarrow> map_err StoreErr (get_legacy_token_input_bitmap E bm_deserialize bh b))"

definition blocks_iter :: "'d db_env \<Rightarrow> 'd batch \<Rightarrow> (bytes \<times> block) list" where
  "blocks_iter E b = bx_iter (de_kv E) (read_block (de_chrono E) (de_ct E) (de_blake E) (de_sizes E)) (to_key BLOCK_PREFIX []) b"

subsection \<open>The difficulty iterator\<close>

record 'd difficulty_iter =
  di_start :: hash
  di_source :: "'d store + 'd batch"
  di_header :: "block_header option"
  di_prev_header :: "block_header option"

definition di_from :: "hash \<Rightarrow> 'd store \<Rightarrow> 'd difficulty_iter" where
  "di_from start s = \<lparr>di_start = start, di_source = Inl s, di_header = None, di_prev_header = None\<rparr>"

definition di_from_batch :: "hash \<Rightarrow> 'd batch \<Rightarrow> 'd difficulty_iter" where
  "di_from_batch start b = \<lparr>di_start = start, di_source = Inr b, di_header = None, di_prev_header = None\<rparr>"

definition di_get_header :: "'d db_env \<Rightarrow> 'd difficulty_iter \<Rightarrow> hash \<Rightarrow> block_header option" where
  "di_get_header E d h =
    (case (case di_source d of Inl s \<Rightarrow> cs_get_block_header E h s | Inr b \<Rightarrow> get_block_header E h b) of Inl _ \<Rightarrow> None | Inr x \<Rightarrow> Some x)"

definition di_next :: "'d db_env \<Rightarrow> 'd difficulty_iter \<Rightarrow> header_info option \<times> 'd difficulty_iter" where
  "di_next E d =
    (let d = d\<lparr>di_header := if di_header d = None then di_get_header E d (di_start d) else di_prev_header d\<rparr>
     in case di_header d of
          None \<Rightarrow> (None, d)
        | Some header \<Rightarrow>
           (let d = d\<lparr>di_prev_header := di_get_header E d (h_prev_hash header)\<rparr>;
                prev_difficulty = (case di_prev_header d of None \<Rightarrow> 0 | Some x \<Rightarrow> header_total_difficulty x);
                difficulty = header_total_difficulty header - prev_difficulty
            in (Some \<lparr>hi_block_hash = hash_block_header (de_ct E) (de_blake E) header, hi_timestamp = h_timestamp header,
                  hi_difficulty = difficulty, hi_secondary_scaling = secondary_scaling (h_pow header),
                  hi_is_secondary = is_secondary (h_pow header)\<rparr>, d)))"

section \<open>Keys and tables\<close>

lemma to_key_eq [simp]: "to_key p k = to_key p' k' \<longleftrightarrow> p = p' \<and> k = k'" "to_key p k \<noteq> [q]" "[q] \<noteq> to_key p k"
  by (simp_all add: to_key_def)

lemma bx_store_updates [simp]:
  "bx_store (bx_put kv key val b) = bx_store b" "bx_store (put_ser kv wr key x b) = bx_store b"
  "bx_store (put_ser_with_version kv wr key x v b) = bx_store b"
  by (simp_all add: bx_put_def put_ser_def put_ser_with_version_def)

lemma bx_store_delete: "bx_delete kv key b = Inr b' \<Longrightarrow> bx_store b' = bx_store b"
  by (auto simp: bx_delete_def split: if_splits)

lemma ok_or_same_simps [simp]: "ok_or_same (Inl e) b = b" "ok_or_same (Inr b') b = b'"
  by (simp_all add: ok_or_same_def)

lemma bx_store_ok_or_same [simp]: "bx_store (ok_or_same (bx_delete kv key b) b) = bx_store b"
  by (simp add: ok_or_same_def bx_delete_def)

interpretation u64_pairc: codec "\<lambda>_. write_u64_pair" read_u64_pair "\<lambda>_ _. True"
  by unfold_locales (simp add: read_u64_pair_def write_u64_pair_def tx_codec add.assoc split: prod.splits)

text \<open>
  Vectors have no length in front: they are read until the bytes run out. A reader that fails at the end of the input and
  consumes something when it succeeds gets the whole vector back, and more rounds would not change what is read.
\<close>

locale stream_codec = codec +
  assumes rd_eof: "rd_source r = [] \<Longrightarrow> rd r = Inl (IOErr UnexpectedEof)"
    and rd_consumes: "rd r = Inr (x, r') \<Longrightarrow> length (rd_source r') < length (rd_source r)"
begin

lemma read_vec_rounds: "length (rd_source r) < n \<Longrightarrow> length (rd_source r) < m \<Longrightarrow> read_vec_loop rd n r = read_vec_loop rd m r"
proof (induction n arbitrary: m r)
  case (Suc n)
  obtain m' where m: "m = Suc m'" using Suc.prems(2) by (cases m) auto
  show ?case
  proof (cases "rd r")
    case (Inr y)
    obtain x r' where y: "y = (x, r')" by (cases y)
    have "read_vec_loop rd n r' = read_vec_loop rd m' r'"
      using rd_consumes [OF Inr [unfolded y]] Suc.prems m by (intro Suc.IH) auto
    then show ?thesis using Inr y m by simp
  qed (simp add: m)
qed simp

lemma wr_nonempty: "wf v x \<Longrightarrow> wr v x \<noteq> []"
  using rd_wr [of "BinReader_new [] v" x 0 "[]"] rd_eof [of "BinReader_new [] v"] adv_0 [of "BinReader_new [] v"]
  by (auto simp: BinReader_new_def)

lemma read_vec_loop_wr:
  assumes "\<And>x. x \<in> set xs \<Longrightarrow> wf (rd_version r) x" "length xs < n"
  shows "\<exists>r'. read_vec_loop rd n (adv r k (write_vec (wr (rd_version r)) xs)) = Inr (xs, r')"
  using assms
proof (induction xs arbitrary: n k)
  case Nil
  then show ?case by (cases n) (simp_all add: write_vec_def rd_eof)
next
  case (Cons x xs)
  obtain m where m: "n = Suc m" using Cons.prems(2) by (cases n) auto
  have w: "write_vec (wr (rd_version r)) (x # xs) = wr (rd_version r) x @ write_vec (wr (rd_version r)) xs" by (simp add: write_vec_def)
  show ?case
    unfolding m w read_vec_loop.simps using Cons.IH [of m "k + length (wr (rd_version r) x)"] Cons.prems m
      rd_wr [of r x k "write_vec (wr (rd_version r)) xs"] by auto
qed

lemma length_write_vec: "(\<And>x. x \<in> set xs \<Longrightarrow> wf v x) \<Longrightarrow> length xs \<le> length (write_vec (wr v) xs)"
proof (induction xs)
  case (Cons x xs)
  then have "0 < length (wr v x)" "length xs \<le> length (write_vec (wr v) xs)" using wr_nonempty [of v x] by simp_all
  then show ?case by (simp only: write_vec_def list.map concat.simps length_append list.size)
qed (simp add: write_vec_def)

lemma deserialize_read_vec:
  assumes "\<And>x. x \<in> set xs \<Longrightarrow> wf v x"
  shows "deserialize (read_vec rd) (write_vec (wr v) xs) v = Inr xs"
proof -
  let ?r = "BinReader_new (write_vec (wr v) xs) v"
  have r: "rd_version ?r = v" "rd_source ?r = write_vec (wr v) xs" "adv ?r 0 (write_vec (wr v) xs) = ?r"
    using adv_0 [of ?r] by (simp_all add: BinReader_new_def)
  have "\<exists>r'. read_vec_loop rd (Suc (length (write_vec (wr v) xs))) ?r = Inr (xs, r')"
    using read_vec_loop_wr [of xs ?r "Suc (length (write_vec (wr v) xs))" 0] length_write_vec [of xs v] assms r by simp
  then show ?thesis by (auto simp: deserialize_def read_vec_def r simp del: read_vec_loop.simps)
qed

end

lemma read_be_consumes: "read_be (Suc k) r = Inr (x, r') \<Longrightarrow> length (rd_source r') < length (rd_source r)"
  by (auto simp: read_be_def read_exact_def rbind_eq_Inr count_read_def split: if_splits prod.splits reader_kind.splits)

interpretation commit_poss: stream_codec "\<lambda>_. write_commit_pos" read_commit_pos "\<lambda>_ _. True"
proof
  fix r :: reader and x r'
  show "rd_source r = [] \<Longrightarrow> read_commit_pos r = Inl (IOErr UnexpectedEof)"
    by (simp add: read_commit_pos_def read_u64_def read_be_def read_exact_def)
  show "read_commit_pos r = Inr (x, r') \<Longrightarrow> length (rd_source r') < length (rd_source r)"
    by (auto simp: read_commit_pos_def rbind_eq_Inr read_u64_def numeral_eq_Suc dest!: read_be_consumes split: prod.splits)
qed

section \<open>What the database promises\<close>

context kv_store
begin

lemma get_ser_put_ser:
  assumes "codec wr rd good" "good (sr_version (bx_store b)) x"
  shows "get_ser kv rd key' (put_ser kv wr key x b) = (if key' = key then Inr (Some x) else get_ser kv rd key' b)"
  using codec.deserialize_ser_vec [OF assms(1,2), of "[]"]
  by (auto simp: get_ser_def get_ser_access_def put_ser_def put_ser_with_version_def bx_put_def get_put)

lemma get_ser_put_vec:
  assumes "stream_codec wr rd good" "\<forall>x \<in> set xs. good (sr_version (bx_store b)) x"
  shows "get_ser kv (read_vec rd) key' (put_ser kv (\<lambda>v. write_vec (wr v)) key xs b)
    = (if key' = key then Inr (Some xs) else get_ser kv (read_vec rd) key' b)"
  using stream_codec.deserialize_read_vec [OF assms(1), of xs] assms(2)
  by (auto simp: get_ser_def get_ser_access_def put_ser_def put_ser_with_version_def bx_put_def get_put ser_vec_def)

lemma get_ser_other: "key' \<noteq> key \<Longrightarrow> get_ser kv rd key' (put_ser kv wr key x b) = get_ser kv rd key' b"
  unfolding get_ser_def bx_store_updates
  by (simp add: get_ser_access_def put_ser_def put_ser_with_version_def bx_put_def get_put)

lemma get_ser_deleted:
  "get_ser kv rd key' (ok_or_same (bx_delete kv key b) b) = (if key' = key then Inr None else get_ser kv rd key' b)"
  unfolding get_ser_def bx_store_ok_or_same
  by (simp add: get_ser_access_def ok_or_same_def bx_delete_def get_del)

lemma get_ser_delete:
  "bx_delete kv key b = Inr b' \<Longrightarrow> get_ser kv rd key' b' = (if key' = key then Inr None else get_ser kv rd key' b)"
  using get_ser_deleted [of rd key' key b] by (simp add: ok_or_same_def)

lemma bx_delete_iff: "(\<exists>b'. bx_delete kv key b = Inr b') \<longleftrightarrow> get_ser kv rd key b \<noteq> Inr None"
  by (auto simp: bx_delete_def get_ser_def get_ser_access_def split: option.splits sum.splits)

end

section \<open>The chain store as tables\<close>

text \<open>
  What the records of the chain store amount to: one table per kind of record. \<open>tables E b\<close> is what a batch reads from each;
  a step on the store is one update of the tables. The entries of the legacy bitmaps are not part of them.
\<close>

record tables =
  tb_head :: "store_error + tip"
  tb_tail :: "store_error + tip"
  tb_headers :: "hash \<Rightarrow> store_error + block_header"
  tb_blocks :: "hash \<Rightarrow> store_error + block"
  tb_sums :: "hash \<Rightarrow> store_error + block_sums"
  tb_token_sums :: "hash \<Rightarrow> store_error + block_token_sums"
  tb_pos :: "commitment \<Rightarrow> store_error + (u64 \<times> u64) option"
  tb_token_pos :: "commitment \<Rightarrow> store_error + (u64 \<times> u64) option"
  tb_issue_pos :: "token_key \<Rightarrow> store_error + u64"
  tb_spent :: "hash \<Rightarrow> store_error + commit_pos list"
  tb_token_spent :: "hash \<Rightarrow> store_error + commit_pos list"

definition tables :: "'d db_env \<Rightarrow> 'd batch \<Rightarrow> tables" where
  "tables E b = \<lparr>tb_head = bt_head E b, tb_tail = bt_tail E b, tb_headers = (\<lambda>h. get_block_header E h b),
     tb_blocks = (\<lambda>h. get_block E h b), tb_sums = (\<lambda>h. get_block_sums E h b),
     tb_token_sums = (\<lambda>h. option_to_not_found (get_ser (de_kv E) (read_block_token_sums (de_sizes E)) (to_key TOKEN_EXCESS_SUMS_PREFIX h) b)),
     tb_pos = (\<lambda>c. get_output_pos_height E c b), tb_token_pos = (\<lambda>c. get_token_output_pos_height E c b),
     tb_issue_pos = (\<lambda>k. get_token_issue_proof_pos E k b),
     tb_spent = (\<lambda>h. get_spent_index E h b), tb_token_spent = (\<lambda>h. get_token_spent_index E h b)\<rparr>"

datatype (plugins del: size quickcheck_random quickcheck_exhaustive quickcheck_bounded_forall quickcheck_full_exhaustive
    quickcheck_narrowing transfer lifting) store_op =
    Save_head tip
  | Save_tail tip
  | Save_header block_header
  | Save_block block
  | Save_sums hash block_sums
  | Save_token_sums hash block_token_sums
  | Save_pos commitment u64 u64
  | Save_token_pos commitment u64 u64
  | Save_issue_pos token_key u64
  | Save_spent hash "commit_pos list"
  | Save_token_spent hash "commit_pos list"
  | Delete_pos commitment
  | Delete_token_pos commitment
  | Delete_block hash

fun run_store_op :: "'d db_env \<Rightarrow> store_op \<Rightarrow> 'd batch \<Rightarrow> store_error + 'd batch" where
  "run_store_op E (Save_head t) b = Inr (save_body_head E t b)"
| "run_store_op E (Save_tail t) b = Inr (save_body_tail E t b)"
| "run_store_op E (Save_header h) b = Inr (save_block_header E h b)"
| "run_store_op E (Save_block bl) b = Inr (save_block E bl b)"
| "run_store_op E (Save_sums h s) b = Inr (save_block_sums E h s b)"
| "run_store_op E (Save_token_sums h s) b = save_block_token_sums E h s b"
| "run_store_op E (Save_pos c pos height) b = Inr (save_output_pos_height E c pos height b)"
| "run_store_op E (Save_token_pos c pos height) b = Inr (save_token_output_pos_height E c pos height b)"
| "run_store_op E (Save_issue_pos k pos) b = Inr (save_token_issue_proof_pos E k pos b)"
| "run_store_op E (Save_spent h cs) b = Inr (save_spent_index E h cs b)"
| "run_store_op E (Save_token_spent h cs) b = Inr (save_spent_token_index E h cs b)"
| "run_store_op E (Delete_pos c) b = delete_output_pos_height E c b"
| "run_store_op E (Delete_token_pos c) b = delete_token_output_pos_height E c b"
| "run_store_op E (Delete_block h) b = delete_block E h b"

fun run_store_ops :: "'d db_env \<Rightarrow> store_op list \<Rightarrow> 'd batch \<Rightarrow> store_error + 'd batch" where
  "run_store_ops E [] b = Inr b"
| "run_store_ops E (x # xs) b = rbind (run_store_op E x b) (run_store_ops E xs)"

fun spec_store_op :: "'d db_env \<Rightarrow> store_op \<Rightarrow> tables \<Rightarrow> store_error + tables" where
  "spec_store_op E (Save_head t) T = Inr (T\<lparr>tb_head := Inr t\<rparr>)"
| "spec_store_op E (Save_tail t) T = Inr (T\<lparr>tb_tail := Inr t\<rparr>)"
| "spec_store_op E (Save_header h) T = Inr (T\<lparr>tb_headers := (tb_headers T)(hash_block_header (de_ct E) (de_blake E) h := Inr h)\<rparr>)"
| "spec_store_op E (Save_block bl) T = Inr (T\<lparr>tb_blocks := (tb_blocks T)(hash_block (de_ct E) (de_blake E) bl := Inr bl)\<rparr>)"
| "spec_store_op E (Save_sums h s) T = Inr (T\<lparr>tb_sums := (tb_sums T)(h := Inr s)\<rparr>)"
| "spec_store_op E (Save_token_sums h s) T = rbind (tb_headers T h) (\<lambda>header. Inr
    (if h_height header < support_token_height (de_ct E) then T else T\<lparr>tb_token_sums := (tb_token_sums T)(h := Inr s)\<rparr>))"
| "spec_store_op E (Save_pos c pos height) T = Inr (T\<lparr>tb_pos := (tb_pos T)(c := Inr (Some (pos, height)))\<rparr>)"
| "spec_store_op E (Save_token_pos c pos height) T = Inr (T\<lparr>tb_token_pos := (tb_token_pos T)(c := Inr (Some (pos, height)))\<rparr>)"
| "spec_store_op E (Save_issue_pos k pos) T = Inr (T\<lparr>tb_issue_pos := (tb_issue_pos T)(k := Inr pos)\<rparr>)"
| "spec_store_op E (Save_spent h cs) T = Inr (T\<lparr>tb_spent := (tb_spent T)(h := Inr cs)\<rparr>)"
| "spec_store_op E (Save_token_spent h cs) T = Inr (T\<lparr>tb_token_spent := (tb_token_spent T)(h := Inr cs)\<rparr>)"
| "spec_store_op E (Delete_pos c) T = (if tb_pos T c = Inr None then Inl LmdbErr else Inr (T\<lparr>tb_pos := (tb_pos T)(c := Inr None)\<rparr>))"
| "spec_store_op E (Delete_token_pos c) T =
    (if tb_token_pos T c = Inr None then Inl LmdbErr else Inr (T\<lparr>tb_token_pos := (tb_token_pos T)(c := Inr None)\<rparr>))"
| "spec_store_op E (Delete_block h) T =
    (if tb_blocks T h = Inl NotFoundErr then Inl LmdbErr
     else Inr (T\<lparr>tb_blocks := (tb_blocks T)(h := Inl NotFoundErr), tb_sums := (tb_sums T)(h := Inl NotFoundErr),
       tb_token_sums := (case tb_headers T h of
           Inr header \<Rightarrow> if h_height header < support_token_height (de_ct E) then tb_token_sums T else (tb_token_sums T)(h := Inl NotFoundErr)
         | Inl _ \<Rightarrow> tb_token_sums T),
       tb_spent := (tb_spent T)(h := Inl NotFoundErr), tb_token_spent := (tb_token_spent T)(h := Inl NotFoundErr)\<rparr>))"

fun spec_store_ops :: "'d db_env \<Rightarrow> store_op list \<Rightarrow> tables \<Rightarrow> store_error + tables" where
  "spec_store_ops E [] T = Inr T"
| "spec_store_ops E (x # xs) T = rbind (spec_store_op E x T) (spec_store_ops E xs)"

text \<open>The values the codecs can write.\<close>

fun writable_op :: "'d db_env \<Rightarrow> version \<Rightarrow> store_op \<Rightarrow> bool" where
  "writable_op E v (Save_head t) = tip_ok t"
| "writable_op E v (Save_tail t) = tip_ok t"
| "writable_op E v (Save_header h) = block_header_ok (de_chrono E) (de_ct E) (de_sizes E) h"
| "writable_op E v (Save_block bl) = block_wf (de_chrono E) (de_ct E) (de_blake E) (de_sizes E) v bl"
| "writable_op E v (Save_sums h s) = block_sums_ok (de_sizes E) s"
| "writable_op E v (Save_token_sums h s) = block_token_sums_ok (de_sizes E) s"
| "writable_op E v _ = True"

lemma option_to_not_found_simps [simp]:
  "option_to_not_found (Inr None) = Inl NotFoundErr" "option_to_not_found (Inr (Some x)) = Inr x"
  "option_to_not_found (Inl e) = Inl e"
  by (simp_all add: option_to_not_found_def)

lemmas table_reads = bt_head_def bt_tail_def get_block_header_def get_block_def get_block_sums_def get_output_pos_height_def
  get_token_output_pos_height_def get_token_issue_proof_pos_def get_spent_index_def get_token_spent_index_def

lemmas table_writes = save_body_head_def save_body_tail_def save_block_header_def save_block_def save_block_sums_def
  save_output_pos_height_def save_token_output_pos_height_def save_token_issue_proof_pos_def save_spent_index_def
  save_spent_token_index_def delete_output_pos_height_def delete_token_output_pos_height_def

lemma get_ser_not_NotFound: "option_to_not_found (get_ser kv rd key b) = Inl NotFoundErr \<longleftrightarrow> get_ser kv rd key b = Inr None"
  by (auto simp: get_ser_def get_ser_access_def split: option.splits sum.splits)

lemma tables_put:
  assumes "kv_store (de_kv E)" "writable_op E (sr_version (bx_store b)) x"
    "\<not> (\<exists>h s. x = Save_token_sums h s)" "\<not> (\<exists>c. x = Delete_pos c)" "\<not> (\<exists>c. x = Delete_token_pos c)" "\<not> (\<exists>h. x = Delete_block h)"
  shows "map_sum id (tables E) (run_store_op E x b) = spec_store_op E x (tables E b)"
proof -
  note other = kv_store.get_ser_other [OF assms(1)]
  note same = kv_store.get_ser_put_ser [OF assms(1)]
  note vec = kv_store.get_ser_put_vec [OF assms(1) commit_poss.stream_codec_axioms]
  note hit = same [OF tipc.codec_axioms] same [OF block_headerc.codec_axioms] same [OF blockc.codec_axioms]
    same [OF block_sumsc.codec_axioms] same [OF u64_pairc.codec_axioms] same [OF u64c.codec_axioms] vec
  show ?thesis
    using assms(2-6) by (cases x) (auto simp: tables_def table_reads table_writes hit other prefix_defs fun_eq_iff)
qed

lemma bx_delete_reads:
  assumes "bx_delete kv key b = Inr b'" "kv_store kv"
  shows "get_ser kv rd key' b' = (if key' = key then Inr None else get_ser kv rd key' b)"
  using assms kv_store.get_ser_delete by blast

lemma bx_delete_fails: "bx_delete kv key b = Inl e \<longleftrightarrow> e = LmdbErr \<and> get_ser kv rd key b = Inr None"
  by (auto simp: bx_delete_def get_ser_def get_ser_access_def split: option.splits sum.splits)

lemma tables_token_sums:
  assumes "kv_store (de_kv E)" "block_token_sums_ok (de_sizes E) s"
  shows "map_sum id (tables E) (run_store_op E (Save_token_sums h s) b) = spec_store_op E (Save_token_sums h s) (tables E b)"
proof -
  note simps = kv_store.get_ser_other [OF assms(1)] kv_store.get_ser_put_ser [OF assms(1) block_token_sumsc.codec_axioms] assms(2)
  show ?thesis
    by (cases "get_block_header E h b") (auto simp: tables_def table_reads save_block_token_sums_def simps prefix_defs fun_eq_iff)
qed

lemma tables_delete_pos:
  assumes "kv_store (de_kv E)"
  shows "map_sum id (tables E) (run_store_op E (Delete_pos c) b) = spec_store_op E (Delete_pos c) (tables E b)"
    "map_sum id (tables E) (run_store_op E (Delete_token_pos c) b) = spec_store_op E (Delete_token_pos c) (tables E b)"
proof -
  show "map_sum id (tables E) (run_store_op E (Delete_pos c) b) = spec_store_op E (Delete_pos c) (tables E b)"
  proof (cases "bx_delete (de_kv E) (to_key OUTPUT_POS_PREFIX c) b")
    case (Inl e)
    then show ?thesis
      by (simp add: table_writes table_reads tables_def Inl bx_delete_fails [THEN iffD1, OF Inl, of read_u64_pair])
  next
    case (Inr b')
    then show ?thesis
      using kv_store.bx_delete_iff [OF assms, of "to_key OUTPUT_POS_PREFIX c" b read_u64_pair]
      by (auto simp: table_writes table_reads tables_def bx_delete_reads [OF Inr assms] prefix_defs fun_eq_iff)
  qed
  show "map_sum id (tables E) (run_store_op E (Delete_token_pos c) b) = spec_store_op E (Delete_token_pos c) (tables E b)"
  proof (cases "bx_delete (de_kv E) (to_key TOKEN_COMMIT_POS_PREFIX c) b")
    case (Inl e)
    then show ?thesis
      by (simp add: table_writes table_reads tables_def Inl bx_delete_fails [THEN iffD1, OF Inl, of read_u64_pair])
  next
    case (Inr b')
    then show ?thesis
      using kv_store.bx_delete_iff [OF assms, of "to_key TOKEN_COMMIT_POS_PREFIX c" b read_u64_pair]
      by (auto simp: table_writes table_reads tables_def bx_delete_reads [OF Inr assms] prefix_defs fun_eq_iff)
  qed
qed

text \<open>\<open>delete_block\<close> as deletions that go on after a failure.\<close>

lemma delete_spent_index_eq: "snd (delete_spent_index E bh b) =
    (let b1 = ok_or_same (bx_delete (de_kv E) (to_key BLOCK_INPUT_BITMAP_PREFIX bh) b) b
     in ok_or_same (bx_delete (de_kv E) (to_key BLOCK_SPENT_PREFIX bh) b1) b1)"
  "snd (delete_token_spent_index E bh b) =
    (let b1 = ok_or_same (bx_delete (de_kv E) (to_key TOKEN_BLOCK_INPUT_BITMAP_PREFIX bh) b) b
     in ok_or_same (bx_delete (de_kv E) (to_key TOKEN_BLOCK_SPENT_PREFIX bh) b1) b1)"
  by (simp_all add: delete_spent_index_def delete_token_spent_index_def Let_def ok_or_same_def split: sum.splits)

lemma delete_block_eq: "delete_block E bh b =
    rbind (bx_delete (de_kv E) (to_key BLOCK_PREFIX bh) b) (\<lambda>b. Inr
      (snd (delete_token_spent_index E bh (snd (delete_spent_index E bh
        (ok_or_same (delete_block_token_sums E bh (ok_or_same (delete_block_sums E bh b) b)) (ok_or_same (delete_block_sums E bh b) b)))))))"
  by (simp add: delete_block_def Let_def split_beta)

lemma tables_delete_block:
  assumes "kv_store (de_kv E)"
  shows "map_sum id (tables E) (run_store_op E (Delete_block h) b) = spec_store_op E (Delete_block h) (tables E b)"
proof (cases "bx_delete (de_kv E) (to_key BLOCK_PREFIX h) b")
  case (Inl e)
  have "e = LmdbErr" "get_block E h b = Inl NotFoundErr"
    using bx_delete_fails [THEN iffD1, OF Inl, of "read_block (de_chrono E) (de_ct E) (de_blake E) (de_sizes E)"] by (simp_all add: get_block_def)
  then show ?thesis by (simp add: delete_block_eq Inl tables_def)
next
  case (Inr b0)
  note gone = kv_store.get_ser_deleted [OF assms] and gone0 = bx_delete_reads [OF Inr assms]
  let ?b1 = "ok_or_same (delete_block_sums E h b0) b0"
  let ?b2 = "ok_or_same (delete_block_token_sums E h ?b1) ?b1"
  have there: "tb_blocks (tables E b) h \<noteq> Inl NotFoundErr"
    using kv_store.bx_delete_iff [OF assms, of "to_key BLOCK_PREFIX h" b] Inr by (auto simp: tables_def get_block_def get_ser_not_NotFound)
  have b1: "get_ser (de_kv E) rd key ?b1 = (if key \<in> {to_key BLOCK_PREFIX h, to_key BLOCK_SUMS_PREFIX h} then Inr None else get_ser (de_kv E) rd key b)"
    for rd key by (auto simp: delete_block_sums_def gone gone0)
  have hd: "get_block_header E h ?b1 = get_block_header E h b" by (simp add: get_block_header_def b1 prefix_defs)
  have b2: "get_ser (de_kv E) rd key ?b2 = (if key = to_key TOKEN_EXCESS_SUMS_PREFIX h \<and>
      (\<exists>header. get_block_header E h b = Inr header \<and> \<not> h_height header < support_token_height (de_ct E))
      then Inr None else get_ser (de_kv E) rd key ?b1)" for rd key
  proof (cases "get_block_header E h b")
    case (Inr header)
    then show ?thesis
      by (cases "h_height header < support_token_height (de_ct E)") (simp_all add: delete_block_token_sums_def hd gone)
  qed (simp add: delete_block_token_sums_def hd)
  show ?thesis
    using there Inr by (auto simp: delete_block_eq delete_spent_index_eq Let_def tables_def table_reads gone b1 b2 prefix_defs fun_eq_iff split: sum.splits)
qed

lemma tables_op:
  assumes "kv_store (de_kv E)" "writable_op E (sr_version (bx_store b)) x"
  shows "map_sum id (tables E) (run_store_op E x b) = spec_store_op E x (tables E b)"
  using tables_put [OF assms] tables_token_sums [OF assms(1)] tables_delete_pos [OF assms(1)] tables_delete_block [OF assms(1)] assms(2)
  by (cases x) (simp_all only: store_op.simps writable_op.simps simp_thms not_ex ex_simps)

lemma store_op_keeps_store: "run_store_op E x b = Inr b' \<Longrightarrow> bx_store b' = bx_store b"
proof (cases x)
  case (Save_token_sums h s)
  then show "run_store_op E x b = Inr b' \<Longrightarrow> bx_store b' = bx_store b"
    by (auto simp: save_block_token_sums_def rbind_eq_Inr split: if_splits)
next
  case (Delete_block h)
  have tok: "bx_store (ok_or_same (delete_block_token_sums E h b) b) = bx_store b" for b
    by (cases "get_block_header E h b") (simp_all add: delete_block_token_sums_def)
  show "run_store_op E x b = Inr b' \<Longrightarrow> bx_store b' = bx_store b"
    using Delete_block by (auto simp: delete_block_eq delete_spent_index_eq delete_block_sums_def Let_def rbind_eq_Inr tok bx_store_delete)
qed (auto simp: table_writes bx_store_delete)

lemma run_store_ops_refines:
  assumes "kv_store (de_kv E)" "list_all (writable_op E (sr_version (bx_store b))) ops"
  shows "map_sum id (tables E) (run_store_ops E ops b) = spec_store_ops E ops (tables E b)"
  using assms(2)
proof (induction ops arbitrary: b)
  case (Cons x xs)
  have x: "map_sum id (tables E) (run_store_op E x b) = spec_store_op E x (tables E b)" using tables_op [OF assms(1)] Cons.prems by simp
  show ?case
  proof (cases "run_store_op E x b")
    case (Inl e)
    then show ?thesis using x by (cases "spec_store_op E x (tables E b)") auto
  next
    case (Inr b')
    then have "spec_store_op E x (tables E b) = Inr (tables E b')" using x by simp
    then show ?thesis using Cons.IH [of b'] Cons.prems store_op_keeps_store [OF Inr] Inr by simp
  qed
qed simp

lemma run_store_ops_keep_store: "run_store_ops E ops b = Inr b' \<Longrightarrow> bx_store b' = bx_store b"
  by (induction ops arbitrary: b) (auto simp: rbind_eq_Inr dest!: store_op_keeps_store)

text \<open>A committed batch is what the next batch starts from.\<close>

lemma tables_commit: "tables E (store_batch (bx_commit b)) = tables E b"
  by (simp add: tables_def table_reads get_ser_def store_batch_def bx_commit_def)

section \<open>An ordered map in memory\<close>

definition mem_kv :: "(bytes, bytes) rbt kv_ops" where
  "mem_kv = \<lparr>kv_get = RBT.lookup, kv_put = (\<lambda>d k v. RBT.insert k v d), kv_del = (\<lambda>d k. RBT.delete k d), kv_entries = RBT.entries\<rparr>"

interpretation mem: kv_store mem_kv
proof
  fix d :: "(bytes, bytes) rbt" and k k' v
  show "kv_get mem_kv (kv_put mem_kv d k v) k' = (if k' = k then Some v else kv_get mem_kv d k')" by (simp add: mem_kv_def)
  show "kv_get mem_kv (kv_del mem_kv d k) k' = (if k' = k then None else kv_get mem_kv d k')" by (simp add: mem_kv_def)
  show "set (kv_entries mem_kv d) = {(k, v). kv_get mem_kv d k = Some v}"
    using map_of_eq_Some_iff [OF RBT.distinct_entries, of d] unfolding RBT.map_of_entries by (auto simp: mem_kv_def)
  show "sorted_wrt (<) (map fst (kv_entries mem_kv d))"
    using RBT.sorted_entries [of d] RBT.distinct_entries [of d] by (simp add: mem_kv_def strict_sorted_iff)
qed

section \<open>Property\<close>

text \<open>
  Claim C5. The records of the chain store are tables: under any sequence of writes and deletions of a batch, over any database that keeps
  its contract, what the batch reads from every table is what the same updates of the tables give, errors included. Deleting a
  block removes its sums and its spent indices as well. Nothing reaches the database before the commit, a batch opened after it
  reads the same tables, and \<open>block_exists\<close> does not see the writes of its own batch.
\<close>

theorem chain_store_refines:
  assumes "kv_store (de_kv E)" "list_all (writable_op E (sr_version (bx_store b))) ops"
  shows "map_sum id (tables E) (run_store_ops E ops b) = spec_store_ops E ops (tables E b)
    \<and> (\<forall>b'. run_store_ops E ops b = Inr b' \<longrightarrow> bx_store b' = bx_store b \<and> tables E (store_batch (bx_commit b')) = tables E b'
        \<and> (\<forall>h. block_exists E h b' = block_exists E h b))"
proof (intro conjI allI impI)
  show "map_sum id (tables E) (run_store_ops E ops b) = spec_store_ops E ops (tables E b)" by (rule run_store_ops_refines [OF assms])
  fix b' assume r: "run_store_ops E ops b = Inr b'"
  show st: "bx_store b' = bx_store b" by (rule run_store_ops_keep_store [OF r])
  show "tables E (store_batch (bx_commit b')) = tables E b'" by (rule tables_commit)
  show "block_exists E h b' = block_exists E h b" for h by (simp only: block_exists_def bx_exists_def st)
qed

definition example_db_env :: "(bytes, bytes) rbt db_env" where
  "example_db_env = \<lparr>de_ct = Mainnet, de_blake = \<lambda>_. ZERO_HASH, de_chrono = example_chrono, de_sizes = example_sizes, de_kv = mem_kv\<rparr>"

lemma chain_store_refines_witness:
  "map_sum id (\<lambda>b. tb_pos (tables example_db_env b) [7])
      (run_store_ops example_db_env [Save_head tip_default, Save_pos [7] 3 1, Save_spent ZERO_HASH [\<lparr>cp_pos = 3, cp_height = 1\<rparr>], Delete_pos [7]]
        \<lparr>bx_store = \<lparr>sr_db = RBT.empty, sr_version = 2\<rparr>, bx_tx = RBT.empty\<rparr>) = Inr (Inr None)"
proof -
  let ?ops = "[Save_head tip_default, Save_pos [7] 3 1, Save_spent ZERO_HASH [\<lparr>cp_pos = 3, cp_height = 1\<rparr>], Delete_pos [7]]"
  let ?b = "\<lparr>bx_store = \<lparr>sr_db = RBT.empty, sr_version = 2\<rparr>, bx_tx = RBT.empty\<rparr>"
  have kv: "kv_store (de_kv example_db_env)" using mem.kv_store_axioms by (simp add: example_db_env_def)
  have ok: "list_all (writable_op example_db_env (sr_version (bx_store ?b))) ?ops"
    by (simp add: tip_ok_def tip_default_def ZERO_HASH_def hash_LEN_def)
  have "map_sum id (tables example_db_env) (run_store_ops example_db_env ?ops ?b) = spec_store_ops example_db_env ?ops (tables example_db_env ?b)"
    using chain_store_refines [OF kv ok] by blast
  then have "map_sum id (\<lambda>T. tb_pos T [7]) (map_sum id (tables example_db_env) (run_store_ops example_db_env ?ops ?b)) = Inr (Inr None)"
    by (simp only: spec_store_ops.simps spec_store_op.simps rbind_simps) simp
  then show ?thesis by (simp only: sum.map_comp comp_def id_def)
qed

end
