(* ===== verification/Leaf_Set.thy ===== *)
theory Leaf_Set
  imports Prune_List
begin

text \<open>
  The leaf set of the storage layer (\<open>store/src/leaf_set.rs\<close>): the bitmap of the leaf positions that are not removed,
  with the copy that a discard restores and the bitmap on disk.
\<close>

section \<open>Operations\<close>

record leaf_set =
  ls_file :: bitmap
  ls_bitmap :: bitmap
  ls_bitmap_bak :: bitmap

definition leaf_set_open :: "bitmap \<Rightarrow> leaf_set" where
  "leaf_set_open file_bitmap = \<lparr>ls_file = file_bitmap, ls_bitmap = file_bitmap, ls_bitmap_bak = file_bitmap\<rparr>"

definition leaf_set_flush :: "leaf_set \<Rightarrow> leaf_set" where
  "leaf_set_flush ls = ls\<lparr>ls_file := ls_bitmap ls, ls_bitmap_bak := ls_bitmap ls\<rparr>"

text \<open>The bitmap in the primary file after a snapshot, if there is one, is copied over it.\<close>

definition copy_snapshot :: "bitmap \<Rightarrow> bitmap option \<Rightarrow> bitmap" where
  "copy_snapshot file_bitmap snapshot_bitmap =
    (case snapshot_bitmap of
       None \<Rightarrow> file_bitmap
     | Some bm \<Rightarrow> ls_file (leaf_set_flush \<lparr>ls_file = file_bitmap, ls_bitmap = bm, ls_bitmap_bak = bm\<rparr>))"

definition remove_range_closed :: "nat \<Rightarrow> nat \<Rightarrow> bitmap \<Rightarrow> bitmap" where
  "remove_range_closed a b bm = {x \<in> bm. \<not> (a \<le> x \<and> x \<le> b)}"

definition bm_flip :: "nat \<Rightarrow> nat \<Rightarrow> bitmap \<Rightarrow> bitmap" where
  "bm_flip a b bm = {x \<in> bm. \<not> (a \<le> x \<and> x < b)} \<union> ({a..<b} - bm)"

definition unpruned_pre_cutoff :: "nat \<Rightarrow> prune_list \<Rightarrow> bitmap" where
  "unpruned_pre_cutoff cutoff_pos pl =
    set (map as_u32 (filter (\<lambda>x. is_leaf x \<and> is_pruned pl x = Some False) [1..<cutoff_pos + 1]))"

definition removed_pre_cutoff :: "leaf_set \<Rightarrow> nat \<Rightarrow> bitmap \<Rightarrow> prune_list \<Rightarrow> bitmap" where
  "removed_pre_cutoff ls cutoff_pos rewind_rm_pos pl =
    (let bm = remove_range_closed (as_u32 (cutoff_pos + 1)) (unwrap_or 0 (bm_maximum (ls_bitmap ls))) (ls_bitmap ls);
         bm = bm \<union> rewind_rm_pos
     in bm_flip 1 (cutoff_pos + 1) bm \<inter> unpruned_pre_cutoff cutoff_pos pl)"

definition leaf_set_rewind :: "leaf_set \<Rightarrow> nat \<Rightarrow> bitmap \<Rightarrow> leaf_set" where
  "leaf_set_rewind ls cutoff_pos rewind_rm_pos =
    (let bm = remove_range_closed (as_u32 (cutoff_pos + 1)) (unwrap_or 0 (bm_maximum (ls_bitmap ls))) (ls_bitmap ls)
     in ls\<lparr>ls_bitmap := bm \<union> rewind_rm_pos\<rparr>)"

definition leaf_set_add :: "leaf_set \<Rightarrow> nat \<Rightarrow> leaf_set" where
  "leaf_set_add ls pos = ls\<lparr>ls_bitmap := insert (as_u32 pos) (ls_bitmap ls)\<rparr>"

definition leaf_set_remove :: "leaf_set \<Rightarrow> nat \<Rightarrow> leaf_set" where
  "leaf_set_remove ls pos = ls\<lparr>ls_bitmap := ls_bitmap ls - {as_u32 pos}\<rparr>"

text \<open>What a snapshot writes beside the primary file.\<close>

definition leaf_set_snapshot :: "leaf_set \<Rightarrow> bitmap" where
  "leaf_set_snapshot ls = ls_bitmap ls"

definition leaf_set_discard :: "leaf_set \<Rightarrow> leaf_set" where
  "leaf_set_discard ls = ls\<lparr>ls_bitmap := ls_bitmap_bak ls\<rparr>"

definition leaf_set_includes :: "leaf_set \<Rightarrow> nat \<Rightarrow> bool" where
  "leaf_set_includes ls pos \<longleftrightarrow> as_u32 pos \<in> ls_bitmap ls"

definition leaf_set_len :: "leaf_set \<Rightarrow> nat" where
  "leaf_set_len ls = card (ls_bitmap ls)"

definition leaf_set_is_empty :: "leaf_set \<Rightarrow> bool" where
  "leaf_set_is_empty ls \<longleftrightarrow> leaf_set_len ls = 0"

definition leaf_set_iter :: "leaf_set \<Rightarrow> nat list" where
  "leaf_set_iter ls = bm_iter (ls_bitmap ls)"

section \<open>Behaviour\<close>

lemma remove_above:
  assumes "finite bm" "cutoff + 1 < 2 ^ 32"
  shows "remove_range_closed (as_u32 (cutoff + 1)) (unwrap_or 0 (bm_maximum bm)) bm = {x \<in> bm. x \<le> cutoff}"
proof -
  have "x \<le> unwrap_or 0 (bm_maximum bm)" if "x \<in> bm" for x
    using that assms(1) by (auto simp: unwrap_or_def bm_maximum_def)
  then show ?thesis using as_u32_id [OF assms(2)] by (auto simp: remove_range_closed_def)
qed

lemma ls_bitmap_rewind:
  "finite (ls_bitmap ls) \<Longrightarrow> cutoff + 1 < 2 ^ 32 \<Longrightarrow>
    ls_bitmap (leaf_set_rewind ls cutoff rm) = {x \<in> ls_bitmap ls. x \<le> cutoff} \<union> rm"
  using remove_above [of "ls_bitmap ls" cutoff] by (simp add: leaf_set_rewind_def)

text \<open>The leaves up to the cutoff that are neither in the rewound leaf set nor pruned already.\<close>

lemma removed_pre_cutoff_eq:
  assumes "finite (ls_bitmap ls)" "cutoff < 2 ^ 31" "pl_ok L pl"
  shows "removed_pre_cutoff ls cutoff rm pl
    = node_pos 0 ` {i. node_pos 0 i \<le> cutoff \<and> node_pos 0 i \<notin> ls_bitmap ls \<union> rm \<and> i \<notin> L}"
proof -
  have leaf: "is_leaf x \<longleftrightarrow> (\<exists>i. x = node_pos 0 i)" "is_pruned pl x = Some (x \<in> pruned_set L)" "as_u32 x = x"
    if x: "1 \<le> x" "x \<le> cutoff" for x
  proof -
    have "0 < x" "x < 2 ^ 32" "x \<le> 2 ^ 64" using x assms(2) by auto
    then show "is_pruned pl x = Some (x \<in> pruned_set L)" "as_u32 x = x" using is_pruned_eq(1) [OF assms(3)] as_u32_id by auto
    obtain h j where "x = node_pos h j" using \<open>0 < x\<close> by (rule node_pos_exists)
    then show "is_leaf x \<longleftrightarrow> (\<exists>i. x = node_pos 0 i)" using is_leaf_node_pos [of h j] \<open>x \<le> 2 ^ 64\<close> by auto
  qed
  have "unpruned_pre_cutoff cutoff pl = {x. 1 \<le> x \<and> x \<le> cutoff \<and> is_leaf x \<and> x \<notin> pruned_set L}"
  proof -
    let ?xs = "filter (\<lambda>x. is_leaf x \<and> is_pruned pl x = Some False) [1..<cutoff + 1]"
    have "map as_u32 ?xs = ?xs" by (rule map_idI) (use leaf(3) in auto)
    moreover have "set ?xs = {x. 1 \<le> x \<and> x \<le> cutoff \<and> is_leaf x \<and> is_pruned pl x = Some False}" by auto
    ultimately show ?thesis using leaf(2) by (auto simp: unpruned_pre_cutoff_def)
  qed
  also have "\<dots> = node_pos 0 ` {i. node_pos 0 i \<le> cutoff \<and> i \<notin> L}"
    using leaf(1) by (auto simp: Suc_le_eq image_iff)
  finally show ?thesis using remove_above [OF assms(1), of cutoff] assms(2)
    by (auto simp: removed_pre_cutoff_def bm_flip_def Suc_le_eq)
qed

end
