(* ===== verification/Append_Only_File.thy ===== *)
theory Append_Only_File
  imports Tx_Types
begin

text \<open>
  The append-only files of the storage layer (\<open>store/src/types.rs\<close>): elements are appended to a buffer, read from
  the memory map of the file or from the buffer, rewound by moving the start of the buffer, and written on a flush. A file
  of elements of variable size has a second file of offsets and sizes. The content of a file on disk is a byte string; errors
  of the operating system are not modelled, those of decoding are. The reader and the writer of the element type are
  the arguments \<open>rd\<close> and \<open>wr\<close>.
\<close>

section \<open>Size entries\<close>

record size_entry =
  se_offset :: u64
  se_size :: u16

definition SIZE_ENTRY_LEN :: nat where "SIZE_ENTRY_LEN = 10"

definition write_size_entry :: "size_entry \<Rightarrow> bytes" where
  "write_size_entry e = write_u64 (se_offset e) @ write_u16 (se_size e)"

definition read_size_entry :: "reader \<Rightarrow> size_entry parse" where
  "read_size_entry r =
    rbind (read_u64 r) (\<lambda>(offset, r). rbind (read_u16 r) (\<lambda>(sz, r). Inr (\<lparr>se_offset = offset, se_size = sz\<rparr>, r)))"

interpretation size_entryc: codec "\<lambda>_. write_size_entry" read_size_entry "\<lambda>_ _. True"
  by unfold_locales (simp add: read_size_entry_def write_size_entry_def u64c.rd_wr u16c.rd_wr ac_simps)

section \<open>Append-only files\<close>

record file_state =
  fs_file :: bytes
  fs_mmap :: "bytes option"
  fs_buffer :: bytes
  fs_start :: nat
  fs_bak :: nat
  fs_version :: version

datatype append_only_file = AppendOnlyFile (aof_state: file_state) (aof_size_info: size_info)
  and size_info = FixedSize nat | VariableSize append_only_file

fun size_in_elmts :: "append_only_file \<Rightarrow> nat" where
  "size_in_elmts (AppendOnlyFile f (FixedSize elmt_size)) = length (fs_file f) div elmt_size"
| "size_in_elmts (AppendOnlyFile f (VariableSize size_file)) = size_in_elmts size_file"

fun size_unsync_in_elmts :: "append_only_file \<Rightarrow> nat" where
  "size_unsync_in_elmts (AppendOnlyFile f (FixedSize elmt_size)) = fs_start f + length (fs_buffer f) div elmt_size"
| "size_unsync_in_elmts (AppendOnlyFile f (VariableSize size_file)) = size_unsync_in_elmts size_file"

definition slice :: "bytes \<Rightarrow> nat \<Rightarrow> nat \<Rightarrow> bytes" where
  "slice bs offset len = (if length bs < offset + len then [] else take len (drop offset bs))"

definition read_from_buffer :: "file_state \<Rightarrow> nat \<Rightarrow> nat \<Rightarrow> bytes" where
  "read_from_buffer f offset len = slice (fs_buffer f) offset len"

definition read_from_mmap :: "file_state \<Rightarrow> nat \<Rightarrow> nat \<Rightarrow> bytes" where
  "read_from_mmap f offset len = (case fs_mmap f of Some mmap \<Rightarrow> slice mmap offset len | None \<Rightarrow> [])"

fun offset_and_size :: "append_only_file \<Rightarrow> nat \<Rightarrow> ser_error + nat \<times> nat"
  and aof_read :: "append_only_file \<Rightarrow> nat \<Rightarrow> ser_error + bytes" where
  "offset_and_size (AppendOnlyFile f (FixedSize elmt_size)) pos = Inr (pos * elmt_size, elmt_size)"
| "offset_and_size (AppendOnlyFile f (VariableSize size_file)) pos =
    rbind (aof_read size_file pos) (\<lambda>data.
    rbind (deserialize read_size_entry data (fs_version (aof_state size_file))) (\<lambda>entry.
      Inr (unat (se_offset entry), unat (se_size entry))))"
| "aof_read (AppendOnlyFile f si) pos =
    (if pos \<ge> size_unsync_in_elmts (AppendOnlyFile f si) then Inr []
     else rbind (offset_and_size (AppendOnlyFile f si) pos) (\<lambda>(offset, len).
       if pos < fs_start f then Inr (read_from_mmap f offset len)
       else rbind (offset_and_size (AppendOnlyFile f si) (fs_start f)) (\<lambda>(buffer_offset, _).
         Inr (read_from_buffer f (offset - buffer_offset) len))))"

definition read_as_elmt :: "(reader \<Rightarrow> 'e parse) \<Rightarrow> append_only_file \<Rightarrow> nat \<Rightarrow> ser_error + 'e" where
  "read_as_elmt rd a pos = rbind (aof_read a pos) (\<lambda>data. deserialize rd data (fs_version (aof_state a)))"

fun aof_append :: "append_only_file \<Rightarrow> bytes \<Rightarrow> ser_error + append_only_file" where
  "aof_append (AppendOnlyFile f (FixedSize elmt_size)) bs =
    Inr (AppendOnlyFile (f\<lparr>fs_buffer := fs_buffer f @ bs\<rparr>) (FixedSize elmt_size))"
| "aof_append (AppendOnlyFile f (VariableSize size_file)) bs =
    (let next_pos = size_unsync_in_elmts size_file
     in rbind (if next_pos = 0 then Inr 0
               else rbind (read_as_elmt read_size_entry size_file (next_pos - 1)) (\<lambda>prev.
                 Inr (se_offset prev + ucast (se_size prev)))) (\<lambda>offset.
        rbind (aof_append size_file (write_size_entry \<lparr>se_offset = offset, se_size = of_nat (length bs)\<rparr>)) (\<lambda>size_file.
          Inr (AppendOnlyFile (f\<lparr>fs_buffer := fs_buffer f @ bs\<rparr>) (VariableSize size_file)))))"

definition append_elmt :: "(version \<Rightarrow> 'e \<Rightarrow> bytes) \<Rightarrow> append_only_file \<Rightarrow> 'e \<Rightarrow> ser_error + append_only_file" where
  "append_elmt wr a x = aof_append a (ser_vec wr x (fs_version (aof_state a)))"

fun aof_rewind :: "append_only_file \<Rightarrow> nat \<Rightarrow> append_only_file" where
  "aof_rewind (AppendOnlyFile f si) pos =
    AppendOnlyFile (f\<lparr>fs_bak := (if fs_bak f = 0 then fs_start f else fs_bak f), fs_start := pos\<rparr>)
      (case si of FixedSize n \<Rightarrow> FixedSize n | VariableSize size_file \<Rightarrow> VariableSize (aof_rewind size_file pos))"

definition set_len :: "bytes \<Rightarrow> nat \<Rightarrow> bytes" where
  "set_len bs n = take n bs @ replicate (n - length bs) 0"

text \<open>\<open>flush\<close> in its two steps: what is left of the file after the truncation of a rewound state, and the file
  after the buffer is written and mapped.\<close>

definition aof_truncated :: "file_state \<Rightarrow> size_info \<Rightarrow> ser_error + bytes" where
  "aof_truncated f si =
    (if fs_bak f > 0
     then if fs_start f = 0 then Inr (set_len (fs_file f) 0)
          else rbind (offset_and_size (AppendOnlyFile (f\<lparr>fs_mmap := None\<rparr>) si) (fs_start f - 1)) (\<lambda>(offset, len).
            Inr (set_len (fs_file f) (offset + len)))
     else Inr (fs_file f))"

definition aof_written :: "file_state \<Rightarrow> size_info \<Rightarrow> bytes \<Rightarrow> append_only_file" where
  "aof_written f si content =
    (let f = f\<lparr>fs_file := content, fs_buffer := [], fs_bak := 0\<rparr>
     in AppendOnlyFile (f\<lparr>fs_start := size_in_elmts (AppendOnlyFile f si),
          fs_mmap := (if content = [] then None else Some content)\<rparr>) si)"

fun aof_flush :: "append_only_file \<Rightarrow> ser_error + append_only_file" where
  "aof_flush (AppendOnlyFile f si) =
    rbind (case si of FixedSize n \<Rightarrow> Inr (FixedSize n)
             | VariableSize size_file \<Rightarrow> rbind (aof_flush size_file) (\<lambda>s. Inr (VariableSize s))) (\<lambda>si.
    rbind (aof_truncated f si) (\<lambda>truncated. Inr (aof_written f si (truncated @ fs_buffer f))))"

fun aof_discard :: "append_only_file \<Rightarrow> append_only_file" where
  "aof_discard (AppendOnlyFile f si) =
    AppendOnlyFile ((if fs_bak f > 0 then f\<lparr>fs_start := fs_bak f, fs_bak := 0\<rparr> else f)\<lparr>fs_buffer := []\<rparr>)
      (case si of FixedSize n \<Rightarrow> FixedSize n | VariableSize size_file \<Rightarrow> VariableSize (aof_discard size_file))"

fun aof_release :: "append_only_file \<Rightarrow> append_only_file" where
  "aof_release (AppendOnlyFile f si) =
    AppendOnlyFile (f\<lparr>fs_mmap := None\<rparr>)
      (case si of FixedSize n \<Rightarrow> FixedSize n | VariableSize size_file \<Rightarrow> VariableSize (aof_release size_file))"

definition aof_replace :: "append_only_file \<Rightarrow> bytes \<Rightarrow> append_only_file" where
  "aof_replace a content = (case aof_release a of AppendOnlyFile f si \<Rightarrow> AppendOnlyFile (f\<lparr>fs_file := content\<rparr>) si)"

fun aof_init :: "append_only_file \<Rightarrow> append_only_file" where
  "aof_init (AppendOnlyFile f si) =
    (let si = (case si of FixedSize n \<Rightarrow> FixedSize n | VariableSize size_file \<Rightarrow> VariableSize (aof_init size_file))
     in if fs_file f = [] then AppendOnlyFile (f\<lparr>fs_start := 0\<rparr>) si
        else AppendOnlyFile (f\<lparr>fs_mmap := Some (fs_file f), fs_start := size_in_elmts (AppendOnlyFile f si)\<rparr>) si)"

text \<open>
  The loop over a file with a streaming reader, up to the first element that cannot be read: the elements with the number of
  bytes read after each. It goes on forever if the element type can be read from no bytes.
\<close>

partial_function (option) stream_elmts :: "(reader \<Rightarrow> 'e parse) \<Rightarrow> reader \<Rightarrow> ('e \<times> nat) list option" where
  "stream_elmts rd r =
    (case rd r of
       Inl _ \<Rightarrow> Some []
     | Inr (x, r') \<Rightarrow> Option.bind (stream_elmts rd r') (\<lambda>xs. Some ((x, unat (total_bytes_read r')) # xs)))"

text \<open>The loop of \<open>save_prune\<close>: \<open>current_pos\<close>, the positions still to prune, the elements still to read.\<close>

fun prune_walk :: "nat \<Rightarrow> nat list \<Rightarrow> 'e list \<Rightarrow> 'e list" where
  "prune_walk current_pos prune_pos [] = []"
| "prune_walk current_pos prune_pos (x # xs) =
    (if current_pos \<in> set prune_pos then prune_walk (current_pos + 1) (tl prune_pos) xs
     else x # prune_walk (current_pos + 1) prune_pos xs)"

text \<open>The loop of \<open>rebuild_size_file\<close> over the bytes read after each element.\<close>

fun size_entries :: "u64 \<Rightarrow> nat list \<Rightarrow> size_entry list" where
  "size_entries current_offset [] = []"
| "size_entries current_offset (bytes_read # rest) =
    (let sz = of_nat (bytes_read - unat current_offset)
     in \<lparr>se_offset = current_offset, se_size = sz\<rparr> # size_entries (current_offset + ucast sz) rest)"

definition rebuild_size_file :: "(reader \<Rightarrow> 'e parse) \<Rightarrow> append_only_file \<Rightarrow> append_only_file option" where
  "rebuild_size_file rd a =
    (case aof_size_info a of
       FixedSize n \<Rightarrow> Some a
     | VariableSize size_file \<Rightarrow>
        Option.bind (stream_elmts rd (StreamingReader_new (fs_file (aof_state a)) (fs_version (aof_state a)))) (\<lambda>xs.
          Some (AppendOnlyFile (aof_state a) (VariableSize (aof_replace size_file
            (write_vec write_size_entry (size_entries 0 (map snd xs))))))))"

definition aof_save_prune ::
  "(version \<Rightarrow> 'e \<Rightarrow> bytes) \<Rightarrow> (reader \<Rightarrow> 'e parse) \<Rightarrow> append_only_file \<Rightarrow> nat list \<Rightarrow> append_only_file option" where
  "aof_save_prune wr rd a prune_pos =
    (let v = fs_version (aof_state a)
     in Option.bind (stream_elmts rd (StreamingReader_new (fs_file (aof_state a)) v)) (\<lambda>xs.
        Option.bind (rebuild_size_file rd (aof_replace a (write_vec (wr v) (prune_walk 0 prune_pos (map fst xs))))) (\<lambda>a.
          Some (aof_init a))))"

fun sum_entries :: "append_only_file \<Rightarrow> nat \<Rightarrow> ser_error + u64" where
  "sum_entries a 0 = Inr 0"
| "sum_entries a (Suc n) =
    rbind (sum_entries a n) (\<lambda>total_size. rbind (read_as_elmt read_size_entry a n) (\<lambda>entry. Inr (total_size + ucast (se_size entry))))"

definition sum_sizes :: "append_only_file \<Rightarrow> ser_error + u64" where
  "sum_sizes a = sum_entries a (fs_start (aof_state a))"

text \<open>\<open>AppendOnlyFile::open\<close> on a file with the given content; \<open>None\<close> is a loop that never ends.\<close>

definition aof_open ::
  "(reader \<Rightarrow> 'e parse) \<Rightarrow> bytes \<Rightarrow> size_info \<Rightarrow> version \<Rightarrow> (ser_error + append_only_file) option" where
  "aof_open rd content si v =
    (let a = aof_init (AppendOnlyFile \<lparr>fs_file = content, fs_mmap = None, fs_buffer = [], fs_start = 0, fs_bak = 0, fs_version = v\<rparr> si)
     in case aof_size_info a of
          FixedSize _ \<Rightarrow> Some (Inr a)
        | VariableSize size_file \<Rightarrow>
            (case sum_sizes size_file of
               Inl e \<Rightarrow> Some (Inl e)
             | Inr total_size \<Rightarrow>
                if total_size \<noteq> of_nat (length content)
                then map_option (\<lambda>a. Inr (aof_init a)) (rebuild_size_file rd a)
                else Some (Inr a)))"

section \<open>Data files\<close>

definition df_append :: "(version \<Rightarrow> 'e \<Rightarrow> bytes) \<Rightarrow> append_only_file \<Rightarrow> 'e \<Rightarrow> ser_error + nat \<times> append_only_file" where
  "df_append wr a x = rbind (append_elmt wr a x) (\<lambda>a. Inr (size_unsync_in_elmts a, a))"

definition df_read :: "(reader \<Rightarrow> 'e parse) \<Rightarrow> append_only_file \<Rightarrow> nat \<Rightarrow> 'e option" where
  "df_read rd a position = (case read_as_elmt rd a (if position = 0 then 2 ^ 64 - 1 else position - 1) of Inr x \<Rightarrow> Some x | Inl _ \<Rightarrow> None)"

definition df_save_prune ::
  "(version \<Rightarrow> 'e \<Rightarrow> bytes) \<Rightarrow> (reader \<Rightarrow> 'e parse) \<Rightarrow> append_only_file \<Rightarrow> nat list \<Rightarrow> append_only_file option" where
  "df_save_prune wr rd a prune_pos = aof_save_prune wr rd a (map (\<lambda>x. x - 1) prune_pos)"

section \<open>Files of elements of one size\<close>

text \<open>
  The file \<open>a\<close> holds the elements \<open>xs\<close> on disk; the first \<open>k\<close> of them and the buffered \<open>ys\<close> are its
  content. Elements are byte strings here.
\<close>

definition fixed_rep :: "version \<Rightarrow> nat \<Rightarrow> bytes list \<Rightarrow> nat \<Rightarrow> bytes list \<Rightarrow> append_only_file \<Rightarrow> bool" where
  "fixed_rep v n xs k ys a \<longleftrightarrow> 0 < n \<and> aof_size_info a = FixedSize n \<and> fs_version (aof_state a) = v
    \<and> (\<forall>x \<in> set xs. length x = n) \<and> (\<forall>y \<in> set ys. length y = n)
    \<and> fs_file (aof_state a) = concat xs \<and> (xs \<noteq> [] \<longrightarrow> fs_mmap (aof_state a) = Some (concat xs))
    \<and> fs_buffer (aof_state a) = concat ys \<and> fs_start (aof_state a) = k \<and> k \<le> length xs
    \<and> (fs_bak (aof_state a) = 0 \<and> k = length xs \<or> fs_bak (aof_state a) = length xs \<and> xs \<noteq> [])"

lemma length_concat_fixed: "(\<forall>x \<in> set xs. length x = n) \<Longrightarrow> length (concat xs) = length xs * n"
  by (induction xs) simp_all

lemma slice_concat:
  assumes "i < length xs" "\<forall>x \<in> set xs. length x = n"
  shows "slice (concat xs) (i * n) n = xs ! i"
proof -
  have "xs = take i xs @ xs ! i # drop (Suc i) xs" using assms(1) by (rule id_take_nth_drop)
  then have c: "concat xs = concat (take i xs) @ xs ! i @ concat (drop (Suc i) xs)"
    by (metis concat.simps(2) concat_append)
  have "length (concat (take i xs)) = i * n"
    using length_concat_fixed [of "take i xs" n] assms by (auto dest: in_set_takeD)
  moreover have "length (xs ! i) = n" using assms by simp
  ultimately show ?thesis by (simp add: slice_def c)
qed

lemma fixed_repE:
  assumes "fixed_rep v n xs k ys a"
  obtains f where "a = AppendOnlyFile f (FixedSize n)" "0 < n" "fs_version f = v" "\<forall>x \<in> set xs. length x = n"
    "\<forall>y \<in> set ys. length y = n" "fs_file f = concat xs" "xs \<noteq> [] \<Longrightarrow> fs_mmap f = Some (concat xs)" "fs_buffer f = concat ys"
    "fs_start f = k" "k \<le> length xs" "fs_bak f = 0 \<Longrightarrow> k = length xs" "fs_bak f \<noteq> 0 \<Longrightarrow> fs_bak f = length xs"
    "length (concat xs) = length xs * n" "length (concat ys) = length ys * n"
proof (cases a)
  case (AppendOnlyFile f si)
  show ?thesis
    by (rule that [of f]) (use assms AppendOnlyFile in \<open>auto simp: fixed_rep_def length_concat_fixed [of xs n] length_concat_fixed [of ys n]\<close>)
qed

lemma fixed_repI:
  assumes "a = AppendOnlyFile f (FixedSize n)" "0 < n" "fs_version f = v" "\<forall>x \<in> set xs. length x = n"
    "\<forall>y \<in> set ys. length y = n" "fs_file f = concat xs" "xs \<noteq> [] \<Longrightarrow> fs_mmap f = Some (concat xs)" "fs_buffer f = concat ys"
    "fs_start f = k" "k \<le> length xs" "fs_bak f = 0 \<Longrightarrow> k = length xs" "fs_bak f \<noteq> 0 \<Longrightarrow> fs_bak f = length xs"
  shows "fixed_rep v n xs k ys a"
  using assms by (cases "fs_bak f = 0") (auto simp: fixed_rep_def)

lemma fixed_size: "fixed_rep v n xs k ys a \<Longrightarrow> size_unsync_in_elmts a = k + length ys"
  by (erule fixed_repE) simp

lemma fixed_read:
  assumes "fixed_rep v n xs k ys a" "pos < k + length ys"
  shows "aof_read a pos = Inr ((take k xs @ ys) ! pos)"
  using assms(1)
proof (rule fixed_repE)
  fix f
  assume a: "a = AppendOnlyFile f (FixedSize n)" and f: "fs_start f = k" "fs_buffer f = concat ys" "k \<le> length xs"
    "\<forall>x \<in> set xs. length x = n" "\<forall>y \<in> set ys. length y = n" "xs \<noteq> [] \<Longrightarrow> fs_mmap f = Some (concat xs)"
  have sz: "\<not> size_unsync_in_elmts a \<le> pos" using fixed_size [OF assms(1)] assms(2) by simp
  show ?thesis
  proof (cases "pos < k")
    case True
    then have "xs \<noteq> []" "pos < length xs" using f(3) by auto
    then show ?thesis using True sz f a slice_concat [of pos xs n] by (simp add: read_from_mmap_def nth_append)
  next
    case False
    have "pos * n - k * n = (pos - k) * n" by (simp add: diff_mult_distrib)
    then show ?thesis using assms(2) False sz f a slice_concat [of "pos - k" ys n]
      by (simp add: read_from_buffer_def nth_append)
  qed
qed

lemma fixed_append:
  assumes "fixed_rep v n xs k ys a" "length y = n"
  shows "\<exists>a'. aof_append a y = Inr a' \<and> fixed_rep v n xs k (ys @ [y]) a'"
  using assms(1) by (rule fixed_repE) (use assms(2) in \<open>auto intro!: fixed_repI\<close>)

lemma fixed_rewind:
  assumes "fixed_rep v n xs k [] a" "pos \<le> length xs"
  shows "fixed_rep v n xs pos [] (aof_rewind a pos)"
  using assms(1) by (rule fixed_repE) (use assms(2) in \<open>auto intro!: fixed_repI\<close>)

lemma fixed_discard: "fixed_rep v n xs k ys a \<Longrightarrow> fixed_rep v n xs (length xs) [] (aof_discard a)"
  by (erule fixed_repE) (auto intro!: fixed_repI)

lemma take_concat_fixed:
  assumes "\<forall>x \<in> set xs. length x = n" "k \<le> length xs"
  shows "take (k * n) (concat xs) = concat (take k xs)"
proof -
  have "length (concat (take k xs)) = k * n"
    using length_concat_fixed [of "take k xs" n] assms by (auto dest: in_set_takeD)
  moreover have "concat xs = concat (take k xs) @ concat (drop k xs)" by (metis append_take_drop_id concat_append)
  ultimately show ?thesis by simp
qed

lemma fixed_flush:
  assumes "fixed_rep v n xs k ys a"
  shows "\<exists>a'. aof_flush a = Inr a' \<and> fixed_rep v n (take k xs @ ys) (k + length ys) [] a'"
  using assms
proof (rule fixed_repE)
  fix f
  assume a: "a = AppendOnlyFile f (FixedSize n)" and f: "0 < n" "fs_version f = v" "fs_start f = k" "fs_buffer f = concat ys"
    "fs_file f = concat xs" "k \<le> length xs" "\<forall>x \<in> set xs. length x = n" "\<forall>y \<in> set ys. length y = n"
    "fs_bak f = 0 \<Longrightarrow> k = length xs" "length (concat xs) = length xs * n" "length (concat ys) = length ys * n"
  let ?zs = "take k xs @ ys"
  have z: "\<forall>z \<in> set ?zs. length z = n" using f(7,8) by (auto dest: in_set_takeD)
  have len: "length (concat ?zs) = (k + length ys) * n" using length_concat_fixed [OF z] f(6) by simp
  have trunc: "set_len (concat xs) (k * n) = concat (take k xs)"
    using take_concat_fixed [OF f(7,6)] f(6,10) by (simp add: set_len_def)
  have "aof_truncated f (FixedSize n) = Inr (concat (take k xs))"
    using f(3,5,9) trunc by (cases k) (auto simp: aof_truncated_def add.commute)
  then have fl: "aof_flush a = Inr (aof_written f (FixedSize n) (concat ?zs))" using a f(4) by simp
  have "?zs = []" if "concat ?zs = []"
  proof -
    have "(k + length ys) * n = 0" using len unfolding that by simp
    then show ?thesis using f(1) by simp
  qed
  then have "(if concat ?zs = [] then None else Some (concat ?zs)) = Some (concat ?zs)" if "?zs \<noteq> []"
    using that by presburger
  then have "fixed_rep v n ?zs (k + length ys) [] (aof_written f (FixedSize n) (concat ?zs))"
    using f(1,2,6) z len by (intro fixed_repI [OF aof_written_def [unfolded Let_def]]) (simp_all del: concat_append concat_eq_Nil_conv)
  then show ?thesis using fl by blast
qed

lemma fixed_size_in_elmts: "fixed_rep v n xs k ys a \<Longrightarrow> size_in_elmts a = length xs"
  by (erule fixed_repE) simp

section \<open>Files of elements of any size\<close>

definition entry_at :: "bytes list \<Rightarrow> nat \<Rightarrow> size_entry" where
  "entry_at zs i = \<lparr>se_offset = of_nat (length (concat (take i zs))), se_size = of_nat (length (zs ! i))\<rparr>"

definition entries :: "bytes list \<Rightarrow> bytes list" where
  "entries zs = map (\<lambda>i. write_size_entry (entry_at zs i)) [0..<length zs]"

lemma length_entries [simp]: "length (entries zs) = length zs"
  by (simp add: entries_def)

lemma nth_entries: "i < length zs \<Longrightarrow> entries zs ! i = write_size_entry (entry_at zs i)"
  by (simp add: entries_def)

lemma length_entry: "x \<in> set (entries zs) \<Longrightarrow> length x = 10"
  by (auto simp: entries_def write_size_entry_def)

lemma take_entries: "take k (entries zs) = entries (take k zs)"
  by (rule nth_equalityI) (simp_all add: nth_entries entry_at_def)

lemma entries_snoc: "entries (zs @ [z]) = entries zs @ [write_size_entry \<lparr>se_offset = of_nat (length (concat zs)), se_size = of_nat (length z)\<rparr>]"
  by (auto simp: entries_def entry_at_def nth_append)

lemma slice_concat_at: "i < length zs \<Longrightarrow> slice (concat zs) (length (concat (take i zs))) (length (zs ! i)) = zs ! i"
proof -
  assume "i < length zs"
  then have "zs = take i zs @ zs ! i # drop (Suc i) zs" by (rule id_take_nth_drop)
  then have "concat zs = concat (take i zs) @ zs ! i @ concat (drop (Suc i) zs)"
    by (metis concat.simps(2) concat_append)
  then show ?thesis by (simp add: slice_def)
qed

lemma length_concat_take_Suc: "i < length zs \<Longrightarrow> length (concat (take (Suc i) zs)) = length (concat (take i zs)) + length (zs ! i)"
  by (simp add: take_Suc_conv_app_nth)

lemma length_concat_take_le: "length (concat (take i zs)) \<le> length (concat zs)"
  by (metis append_take_drop_id concat_append length_append le_add1)

definition fits :: "bytes list \<Rightarrow> bool" where
  "fits zs \<longleftrightarrow> length (concat zs) < 2 ^ 64 \<and> (\<forall>z \<in> set zs. 0 < length z \<and> length z < 2 ^ 16)"

lemma deserialize_entry:
  assumes "fits zs" "i < length zs"
  shows "deserialize read_size_entry (entries zs ! i) v = Inr (entry_at zs i)"
    "unat (se_offset (entry_at zs i)) = length (concat (take i zs))" "unat (se_size (entry_at zs i)) = length (zs ! i)"
proof -
  show "deserialize read_size_entry (entries zs ! i) v = Inr (entry_at zs i)"
    using size_entryc.deserialize_ser_vec [where v = v and x = "entry_at zs i" and rest = "[]"] assms(2) by (simp add: nth_entries ser_vec_def)
  have "length (concat (take i zs)) < 2 ^ 64"
    using length_concat_take_le [of i zs] assms(1) by (simp add: fits_def)
  then show "unat (se_offset (entry_at zs i)) = length (concat (take i zs))" by (simp add: entry_at_def unat_of_nat)
  show "unat (se_size (entry_at zs i)) = length (zs ! i)" using assms by (simp add: fits_def entry_at_def unat_of_nat)
qed

definition var_rep :: "version \<Rightarrow> bytes list \<Rightarrow> nat \<Rightarrow> bytes list \<Rightarrow> append_only_file \<Rightarrow> bool" where
  "var_rep v xs k ys a \<longleftrightarrow> (\<exists>f sf. a = AppendOnlyFile f (VariableSize sf) \<and> fs_version f = v
    \<and> fits xs \<and> fits (take k xs @ ys)
    \<and> fs_file f = concat xs \<and> (xs \<noteq> [] \<longrightarrow> fs_mmap f = Some (concat xs))
    \<and> fs_buffer f = concat ys \<and> fs_start f = k \<and> k \<le> length xs
    \<and> (fs_bak f = 0 \<and> k = length xs \<or> fs_bak f = length xs \<and> xs \<noteq> [])
    \<and> fixed_rep v 10 (entries xs) k (drop k (entries (take k xs @ ys))) sf)"

lemma var_repE:
  assumes "var_rep v xs k ys a"
  obtains f sf where "a = AppendOnlyFile f (VariableSize sf)" "fs_version f = v" "fits xs" "fits (take k xs @ ys)"
    "fs_file f = concat xs" "xs \<noteq> [] \<Longrightarrow> fs_mmap f = Some (concat xs)" "fs_buffer f = concat ys"
    "fs_start f = k" "k \<le> length xs" "fs_bak f = 0 \<Longrightarrow> k = length xs" "fs_bak f \<noteq> 0 \<Longrightarrow> fs_bak f = length xs"
    "fixed_rep v 10 (entries xs) k (drop k (entries (take k xs @ ys))) sf" "fs_version (aof_state sf) = v"
proof -
  obtain f sf where "a = AppendOnlyFile f (VariableSize sf)" using assms unfolding var_rep_def by blast
  then show ?thesis by (rule that) (use assms \<open>a = _\<close> in \<open>auto simp: var_rep_def fixed_rep_def\<close>)
qed

lemma var_repI:
  assumes "a = AppendOnlyFile f (VariableSize sf)" "fs_version f = v" "fits xs" "fits (take k xs @ ys)"
    "fs_file f = concat xs" "xs \<noteq> [] \<Longrightarrow> fs_mmap f = Some (concat xs)" "fs_buffer f = concat ys"
    "fs_start f = k" "k \<le> length xs" "fs_bak f = 0 \<Longrightarrow> k = length xs" "fs_bak f \<noteq> 0 \<Longrightarrow> fs_bak f = length xs"
    "fixed_rep v 10 (entries xs) k (drop k (entries (take k xs @ ys))) sf"
  shows "var_rep v xs k ys a"
  using assms unfolding var_rep_def by (cases "fs_bak f = 0") auto

text \<open>What the size file says of an element of the content.\<close>

lemma size_file_entry:
  assumes "fixed_rep v 10 (entries xs) k (drop k (entries (take k xs @ ys))) sf" "fits (take k xs @ ys)"
    "pos < k + length ys" "k \<le> length xs"
  shows "aof_read sf pos = Inr (entries (take k xs @ ys) ! pos)"
    and "size_unsync_in_elmts sf = k + length ys"
    and "offset_and_size (AppendOnlyFile f (VariableSize sf)) pos
      = Inr (length (concat (take pos (take k xs @ ys))), length ((take k xs @ ys) ! pos))"
proof -
  let ?zs = "take k xs @ ys"
  have "take k (entries xs) = take k (entries ?zs)" using assms(4) by (simp add: take_entries)
  then have all: "take k (entries xs) @ drop k (entries ?zs) = entries ?zs" by (metis append_take_drop_id)
  have len: "k + length (drop k (entries ?zs)) = k + length ys" using assms(4) by simp
  show r: "aof_read sf pos = Inr (entries ?zs ! pos)"
    using fixed_read [OF assms(1)] assms(3) len unfolding all by simp
  show "size_unsync_in_elmts sf = k + length ys" using fixed_size [OF assms(1)] len by simp
  show "offset_and_size (AppendOnlyFile f (VariableSize sf)) pos = Inr (length (concat (take pos ?zs)), length (?zs ! pos))"
    using r deserialize_entry [OF assms(2), of pos] assms(3,4) by simp
qed

lemma var_size: "var_rep v xs k ys a \<Longrightarrow> size_unsync_in_elmts a = k + length ys"
  by (erule var_repE) (auto dest: fixed_size)

lemma var_read:
  assumes "var_rep v xs k ys a" "pos < k + length ys"
  shows "aof_read a pos = Inr ((take k xs @ ys) ! pos)"
  using assms(1)
proof (rule var_repE)
  fix f sf
  assume a: "a = AppendOnlyFile f (VariableSize sf)" and f: "fits xs" "fits (take k xs @ ys)"
    "fs_start f = k" "fs_buffer f = concat ys" "k \<le> length xs" "xs \<noteq> [] \<Longrightarrow> fs_mmap f = Some (concat xs)"
    "fixed_rep v 10 (entries xs) k (drop k (entries (take k xs @ ys))) sf"
  note entry = size_file_entry [OF f(7,2) _ f(5)]
  have sz: "\<not> size_unsync_in_elmts a \<le> pos" using var_size [OF assms(1)] assms(2) by simp
  show ?thesis
  proof (cases "pos < k")
    case True
    then have "xs \<noteq> []" "pos < length xs" using f(5) by auto
    then show ?thesis using True sz f(3,5,6) a entry(3) [OF assms(2), of f] slice_concat_at [of pos xs]
      by (simp add: read_from_mmap_def nth_append min_def)
  next
    case False
    then have i: "pos - k < length ys" using assms(2) by simp
    have "k < k + length ys" using i by linarith
    note start = entry(3) [OF this, of f]
    have "length (concat (take pos (take k xs @ ys))) - length (concat (take k (take k xs @ ys))) = length (concat (take (pos - k) ys))"
      using False f(5) by simp
    then show ?thesis using False sz f(3,4,5) a entry(3) [OF assms(2), of f] start slice_concat_at [OF i]
      by (simp add: read_from_buffer_def nth_append)
  qed
qed

lemma var_append:
  assumes "var_rep v xs k ys a" "fits (take k xs @ ys @ [y])"
  shows "\<exists>a'. aof_append a y = Inr a' \<and> var_rep v xs k (ys @ [y]) a'"
  using assms(1)
proof (rule var_repE)
  fix f sf
  assume a: "a = AppendOnlyFile f (VariableSize sf)" "fs_version f = v" "fits xs" "fits (take k xs @ ys)"
    "fs_file f = concat xs" "xs \<noteq> [] \<Longrightarrow> fs_mmap f = Some (concat xs)" "fs_buffer f = concat ys"
    "fs_start f = k" "k \<le> length xs" "fs_bak f = 0 \<Longrightarrow> k = length xs" "fs_bak f \<noteq> 0 \<Longrightarrow> fs_bak f = length xs"
    "fixed_rep v 10 (entries xs) k (drop k (entries (take k xs @ ys))) sf" "fs_version (aof_state sf) = v"
  let ?zs = "take k xs @ ys"
  let ?e = "\<lparr>se_offset = of_nat (length (concat ?zs)), se_size = of_nat (length y)\<rparr>"
  have next_pos: "size_unsync_in_elmts sf = length ?zs" using fixed_size [OF a(12)] a(9) by simp
  have prev: "read_as_elmt read_size_entry sf (length ?zs - 1) = Inr (entry_at ?zs (length ?zs - 1))" if "length ?zs \<noteq> 0"
  proof -
    have "length ?zs - 1 < k + length ys" using that a(9) by auto
    from size_file_entry(1) [OF a(12,4) this a(9)] show ?thesis
      using deserialize_entry(1) [OF a(4)] that by (simp add: read_as_elmt_def)
  qed
  have off: "se_offset (entry_at ?zs i) + ucast (se_size (entry_at ?zs i)) = of_nat (length (concat ?zs))" if "Suc i = length ?zs" for i
  proof -
    have "length (concat ?zs) = length (concat (take i ?zs)) + length (?zs ! i)"
      using length_concat_take_Suc [of i ?zs] that by (metis lessI order_refl take_all)
    moreover have "ucast (se_size (entry_at ?zs i)) = (of_nat (length (?zs ! i)) :: u64)"
      using deserialize_entry(3) [OF a(4), of i] that by (metis lessI of_nat_unat)
    ultimately show ?thesis by (simp add: entry_at_def)
  qed
  have offset: "(if size_unsync_in_elmts sf = 0 then Inr 0
      else rbind (read_as_elmt read_size_entry sf (size_unsync_in_elmts sf - 1)) (\<lambda>prev. Inr (se_offset prev + ucast (se_size prev))))
      = (Inr (of_nat (length (concat ?zs))) :: ser_error + u64)"
  proof (cases "length ?zs = 0")
    case True
    then have "?zs = []" by (rule length_0_conv [THEN iffD1])
    then show ?thesis unfolding next_pos by (simp only: list.size concat.simps if_True) simp
  next
    case False
    then have "Suc (length ?zs - 1) = length ?zs" by simp
    with False show ?thesis unfolding next_pos by (simp only: prev off if_False rbind_simps not_False_eq_True)
  qed
  obtain sf' where sf': "aof_append sf (write_size_entry ?e) = Inr sf'"
      "fixed_rep v 10 (entries xs) k (drop k (entries ?zs) @ [write_size_entry ?e]) sf'"
    using fixed_append [OF a(12), of "write_size_entry ?e"] by (auto simp: write_size_entry_def)
  have "drop k (entries (take k xs @ ys @ [y])) = drop k (entries ?zs) @ [write_size_entry ?e]"
    using entries_snoc [of ?zs y] a(9) by simp
  then have "var_rep v xs k (ys @ [y]) (AppendOnlyFile (f\<lparr>fs_buffer := fs_buffer f @ y\<rparr>) (VariableSize sf'))"
    using a sf'(2) assms(2) by (intro var_repI [OF refl]) simp_all
  then show ?thesis using a(1) offset sf'(1) by (simp add: Let_def)
qed

lemma var_rewind:
  assumes "var_rep v xs k [] a" "pos \<le> length xs"
  shows "var_rep v xs pos [] (aof_rewind a pos)"
  using assms(1)
proof (rule var_repE)
  fix f sf
  assume a: "a = AppendOnlyFile f (VariableSize sf)" "fs_version f = v" "fits xs" "fs_file f = concat xs"
    "xs \<noteq> [] \<Longrightarrow> fs_mmap f = Some (concat xs)" "fs_buffer f = concat []" "fs_start f = k" "k \<le> length xs"
    "fs_bak f = 0 \<Longrightarrow> k = length xs" "fs_bak f \<noteq> 0 \<Longrightarrow> fs_bak f = length xs"
    "fixed_rep v 10 (entries xs) k (drop k (entries (take k xs @ []))) sf"
  have "drop k (entries (take k xs @ [])) = []" "drop pos (entries (take pos xs @ [])) = []" by simp_all
  then have "fixed_rep v 10 (entries xs) pos (drop pos (entries (take pos xs @ []))) (aof_rewind sf pos)"
    using fixed_rewind [of v 10 "entries xs" k sf pos] a(11) assms(2) by simp
  moreover have "fits (take pos xs)"
    using a(3) length_concat_take_le [of pos xs] by (auto simp: fits_def dest: in_set_takeD)
  moreover have eq: "aof_rewind a pos = AppendOnlyFile (f\<lparr>fs_bak := (if fs_bak f = 0 then fs_start f else fs_bak f), fs_start := pos\<rparr>)
      (VariableSize (aof_rewind sf pos))"
    using a(1) by simp
  ultimately show ?thesis using a assms(2) by (intro var_repI [OF eq]) (auto split: if_splits)
qed

lemma var_discard: "var_rep v xs k ys a \<Longrightarrow> var_rep v xs (length xs) [] (aof_discard a)"
proof (erule var_repE)
  fix f sf
  assume a: "a = AppendOnlyFile f (VariableSize sf)" "fs_version f = v" "fits xs" "fs_file f = concat xs"
    "xs \<noteq> [] \<Longrightarrow> fs_mmap f = Some (concat xs)" "fs_start f = k"
    "fs_bak f = 0 \<Longrightarrow> k = length xs" "fs_bak f \<noteq> 0 \<Longrightarrow> fs_bak f = length xs"
    "fixed_rep v 10 (entries xs) k (drop k (entries (take k xs @ ys))) sf"
  have "drop (length xs) (entries (take (length xs) xs @ [])) = []" by simp
  then have "fixed_rep v 10 (entries xs) (length xs) (drop (length xs) (entries (take (length xs) xs @ []))) (aof_discard sf)"
    using fixed_discard [OF a(9)] by simp
  moreover have eq: "aof_discard a = AppendOnlyFile ((if fs_bak f > 0 then f\<lparr>fs_start := fs_bak f, fs_bak := 0\<rparr> else f)\<lparr>fs_buffer := []\<rparr>)
      (VariableSize (aof_discard sf))"
    using a(1) by simp
  ultimately show ?thesis using a by (intro var_repI [OF eq]) (auto split: if_splits)
qed

lemma var_flush:
  assumes "var_rep v xs k ys a"
  shows "\<exists>a'. aof_flush a = Inr a' \<and> var_rep v (take k xs @ ys) (k + length ys) [] a'"
  using assms
proof (rule var_repE)
  fix f sf
  assume a: "a = AppendOnlyFile f (VariableSize sf)" and f: "fs_version f = v" "fits xs" "fits (take k xs @ ys)"
    "fs_file f = concat xs" "fs_buffer f = concat ys" "fs_start f = k" "k \<le> length xs" "fs_bak f = 0 \<Longrightarrow> k = length xs"
    "fixed_rep v 10 (entries xs) k (drop k (entries (take k xs @ ys))) sf"
  let ?zs = "take k xs @ ys"
  have "take k (entries xs) = take k (entries ?zs)" using f(7) by (simp add: take_entries)
  then have "take k (entries xs) @ drop k (entries ?zs) = entries ?zs" by (metis append_take_drop_id)
  moreover have "k + length (drop k (entries ?zs)) = length ?zs" using f(7) by simp
  ultimately obtain sf' where sf': "aof_flush sf = Inr sf'" "fixed_rep v 10 (entries ?zs) (length ?zs) [] sf'"
    using fixed_flush [OF f(9)] by auto
  then have rep': "fixed_rep v 10 (entries ?zs) (length ?zs) (drop (length ?zs) (entries (take (length ?zs) ?zs @ []))) sf'" by simp
  have "aof_truncated f (VariableSize sf') = Inr (concat (take k xs))"
  proof (cases "fs_bak f > 0 \<and> k \<noteq> 0")
    case True
    have "fits (take (length ?zs) ?zs @ [])" using f(3) by (simp only: take_all order_refl append_Nil2)
    moreover have "k - 1 < length ?zs + length []" using True f(7) by auto
    ultimately have "offset_and_size (AppendOnlyFile (f\<lparr>fs_mmap := None\<rparr>) (VariableSize sf')) (k - 1)
        = Inr (length (concat (take (k - 1) ?zs)), length (?zs ! (k - 1)))"
      using size_file_entry(3) [OF rep'] by simp
    moreover have "length (concat (take (k - 1) ?zs)) + length (?zs ! (k - 1)) = length (concat (take k xs))"
      using length_concat_take_Suc [of "k - 1" ?zs] True f(7) by (cases k) simp_all
    moreover have "set_len (concat xs) (length (concat (take k xs))) = concat (take k xs)"
      using length_concat_take_le [of k xs] by (metis append_eq_conv_conj append_take_drop_id concat_append diff_is_0_eq
          replicate_0 append_Nil2 set_len_def)
    ultimately show ?thesis using True f(4,6) by (simp add: aof_truncated_def)
  next
    case False
    then show ?thesis using f(4,6,8) by (auto simp: aof_truncated_def set_len_def)
  qed
  then have fl: "aof_flush a = Inr (aof_written f (VariableSize sf') (concat ?zs))" using a f(5) sf'(1) by simp
  have nonempty: "concat ?zs \<noteq> []" if "?zs \<noteq> []" using that f(3) by (auto simp: fits_def)
  have "var_rep v ?zs (length ?zs) [] (aof_written f (VariableSize sf') (concat ?zs))"
  proof (rule var_repI [OF aof_written_def [unfolded Let_def]])
    show "fixed_rep v 10 (entries ?zs) (length ?zs) (drop (length ?zs) (entries (take (length ?zs) ?zs @ []))) sf'" by (rule rep')
    show "fits (take (length ?zs) ?zs @ [])" using f(3) by (simp only: take_all order_refl append_Nil2)
  qed (use f(1,3) nonempty fixed_size_in_elmts [OF sf'(2)] in simp_all)
  then show ?thesis using fl f(7) by auto
qed


section \<open>The contract of a file\<close>

text \<open>\<open>synced\<close> is a file with nothing pending, as after a flush or when it is opened.\<close>

definition fixed_synced :: "version \<Rightarrow> nat \<Rightarrow> bytes list \<Rightarrow> append_only_file \<Rightarrow> bool" where
  "fixed_synced v n xs a \<longleftrightarrow> fixed_rep v n xs (length xs) [] a \<and> fs_bak (aof_state a) = 0"

definition var_synced :: "version \<Rightarrow> bytes list \<Rightarrow> append_only_file \<Rightarrow> bool" where
  "var_synced v xs a \<longleftrightarrow> var_rep v xs (length xs) [] a \<and> fs_bak (aof_state a) = 0
    \<and> (case aof_size_info a of VariableSize sf \<Rightarrow> fs_bak (aof_state sf) = 0 | FixedSize _ \<Rightarrow> False)"

text \<open>The file opened again, from what is on disk only: the size file first, as in \<open>PMMRBackend::new\<close>.\<close>

definition aof_reopen :: "(reader \<Rightarrow> 'e parse) \<Rightarrow> append_only_file \<Rightarrow> (ser_error + append_only_file) option" where
  "aof_reopen rd a =
    (let f = aof_state a
     in case aof_size_info a of
          FixedSize n \<Rightarrow> aof_open rd (fs_file f) (FixedSize n) (fs_version f)
        | VariableSize sf \<Rightarrow>
            (case aof_open read_size_entry (fs_file (aof_state sf)) (FixedSize SIZE_ENTRY_LEN) (fs_version f) of
               None \<Rightarrow> None
             | Some (Inl e) \<Rightarrow> Some (Inl e)
             | Some (Inr sf') \<Rightarrow> aof_open rd (fs_file f) (VariableSize sf') (fs_version f)))"

datatype file_op = Append bytes | Rewind nat | Flush | Discard | Reopen

text \<open>
  The abstract file: the elements on disk, how many of them are kept, and the pending elements. A rewind is only
  specified when nothing is pending.
\<close>

type_synonym file_spec = "bytes list \<times> nat \<times> bytes list"

fun spec_op :: "file_spec \<Rightarrow> file_op \<Rightarrow> file_spec" where
  "spec_op (xs, k, ys) (Append y) = (xs, k, ys @ [y])"
| "spec_op (xs, k, ys) (Rewind pos) = (xs, pos, [])"
| "spec_op (xs, k, ys) Flush = (take k xs @ ys, k + length ys, [])"
| "spec_op (xs, k, ys) Discard = (xs, length xs, [])"
| "spec_op (xs, k, ys) Reopen = (xs, length xs, [])"

fun spec_content :: "file_spec \<Rightarrow> bytes list" where
  "spec_content (xs, k, ys) = take k xs @ ys"

fun spec_allows :: "(bytes list \<Rightarrow> bool) \<Rightarrow> file_spec \<Rightarrow> file_op \<Rightarrow> bool" where
  "spec_allows ok (xs, k, ys) (Append y) = ok (take k xs @ ys @ [y])"
| "spec_allows ok (xs, k, ys) (Rewind pos) = (ys = [] \<and> pos \<le> length xs)"
| "spec_allows ok s _ = True"

fun spec_allows_all :: "(bytes list \<Rightarrow> bool) \<Rightarrow> file_spec \<Rightarrow> file_op list \<Rightarrow> bool" where
  "spec_allows_all ok s [] = True"
| "spec_allows_all ok s (p # ps) = (spec_allows ok s p \<and> spec_allows_all ok (spec_op s p) ps)"

fun aof_op :: "(reader \<Rightarrow> 'e parse) \<Rightarrow> append_only_file \<Rightarrow> file_op \<Rightarrow> (ser_error + append_only_file) option" where
  "aof_op rd a (Append y) = Some (aof_append a y)"
| "aof_op rd a (Rewind pos) = Some (Inr (aof_rewind a pos))"
| "aof_op rd a Flush = Some (aof_flush a)"
| "aof_op rd a Discard = Some (Inr (aof_discard a))"
| "aof_op rd a Reopen = aof_reopen rd a"

fun aof_ops :: "(reader \<Rightarrow> 'e parse) \<Rightarrow> append_only_file \<Rightarrow> file_op list \<Rightarrow> (ser_error + append_only_file) option" where
  "aof_ops rd a [] = Some (Inr a)"
| "aof_ops rd a (p # ps) = (case aof_op rd a p of Some (Inr a') \<Rightarrow> aof_ops rd a' ps | r \<Rightarrow> r)"

locale elmt_file =
  fixes rep :: "bytes list \<Rightarrow> nat \<Rightarrow> bytes list \<Rightarrow> append_only_file \<Rightarrow> bool"
    and synced :: "bytes list \<Rightarrow> append_only_file \<Rightarrow> bool"
    and ok :: "bytes list \<Rightarrow> bool"
    and rd :: "reader \<Rightarrow> 'e parse"
  assumes size_law: "rep xs k ys a \<Longrightarrow> size_unsync_in_elmts a = length (take k xs @ ys)"
    and read_law: "rep xs k ys a \<Longrightarrow> pos < length (take k xs @ ys) \<Longrightarrow> aof_read a pos = Inr ((take k xs @ ys) ! pos)"
    and append_law: "rep xs k ys a \<Longrightarrow> ok (take k xs @ ys @ [y]) \<Longrightarrow> \<exists>a'. aof_append a y = Inr a' \<and> rep xs k (ys @ [y]) a'"
    and rewind_law: "rep xs k [] a \<Longrightarrow> pos \<le> length xs \<Longrightarrow> rep xs pos [] (aof_rewind a pos)"
    and flush_law: "rep xs k ys a \<Longrightarrow> \<exists>a'. aof_flush a = Inr a' \<and> synced (take k xs @ ys) a'"
    and discard_law: "rep xs k ys a \<Longrightarrow> rep xs (length xs) [] (aof_discard a)"
    and reopen_law: "rep xs k ys a \<Longrightarrow> \<exists>a'. aof_reopen rd a = Some (Inr a') \<and> synced xs a'"
    and synced_law: "synced xs a \<Longrightarrow> rep xs (length xs) [] a"
    and kept_law: "rep xs k ys a \<Longrightarrow> k \<le> length xs"
begin

definition rep_spec :: "file_spec \<Rightarrow> append_only_file \<Rightarrow> bool" where
  "rep_spec s a = (case s of (xs, k, ys) \<Rightarrow> rep xs k ys a)"

lemma aof_op_refines:
  assumes "rep_spec s a" "spec_allows ok s p"
  shows "\<exists>a'. aof_op rd a p = Some (Inr a') \<and> rep_spec (spec_op s p) a'"
proof -
  obtain xs k ys where s: "s = (xs, k, ys)" by (cases s)
  have r: "rep xs k ys a" using assms(1) s by (simp add: rep_spec_def)
  have k: "length (take k xs @ ys) = k + length ys" using kept_law [OF r] by simp
  have end_k: "take (length xs) xs @ [] = xs" by simp
  show ?thesis
  proof (cases p)
    case (Append y)
    then show ?thesis using append_law [OF r] assms(2) s by (auto simp: rep_spec_def)
  next
    case (Rewind pos)
    then show ?thesis using rewind_law [of xs k a pos] r assms(2) s by (auto simp: rep_spec_def)
  next
    case Flush
    obtain a' where "aof_flush a = Inr a'" "synced (take k xs @ ys) a'" using flush_law [OF r] by blast
    then show ?thesis using Flush s synced_law [of "take k xs @ ys" a'] k by (simp add: rep_spec_def)
  next
    case Discard
    then show ?thesis using discard_law [OF r] s by (simp add: rep_spec_def)
  next
    case Reopen
    obtain a' where "aof_reopen rd a = Some (Inr a')" "synced xs a'" using reopen_law [OF r] by blast
    then show ?thesis using Reopen s synced_law [of xs a'] by (simp add: rep_spec_def)
  qed
qed

lemma aof_ops_refine:
  "rep_spec s a \<Longrightarrow> spec_allows_all ok s ps \<Longrightarrow> \<exists>a'. aof_ops rd a ps = Some (Inr a') \<and> rep_spec (foldl spec_op s ps) a'"
proof (induction ps arbitrary: s a)
  case (Cons p ps)
  obtain a' where a': "aof_op rd a p = Some (Inr a')" "rep_spec (spec_op s p) a'"
    using aof_op_refines [OF Cons.prems(1)] Cons.prems(2) by auto
  then show ?case using Cons.IH [OF a'(2)] Cons.prems(2) by simp
qed simp

lemma rep_spec_read:
  assumes "rep_spec s a"
  shows "size_unsync_in_elmts a = length (spec_content s)"
    and "aof_read a pos = Inr (if pos < length (spec_content s) then spec_content s ! pos else [])"
proof -
  obtain xs k ys where s: "s = (xs, k, ys)" by (cases s)
  have r: "rep xs k ys a" using assms s by (simp add: rep_spec_def)
  show size: "size_unsync_in_elmts a = length (spec_content s)" using size_law [OF r] s by simp
  show "aof_read a pos = Inr (if pos < length (spec_content s) then spec_content s ! pos else [])"
  proof (cases "pos < length (spec_content s)")
    case True
    then show ?thesis using read_law [OF r, of pos] s by simp
  next
    case False
    then show ?thesis using size by (cases a) simp
  qed
qed

end


lemma fixed_repD: "fixed_rep v n xs k ys a \<Longrightarrow> aof_size_info a = FixedSize n" "fixed_rep v n xs k ys a \<Longrightarrow> fs_version (aof_state a) = v"
    "fixed_rep v n xs k ys a \<Longrightarrow> fs_file (aof_state a) = concat xs" "fixed_rep v n xs k ys a \<Longrightarrow> k \<le> length xs"
    "fixed_rep v n xs k ys a \<Longrightarrow> 0 < n \<and> (\<forall>x \<in> set xs. length x = n)"
  by (simp_all add: fixed_rep_def)

lemma fixed_init:
  assumes "0 < n" "\<forall>x \<in> set xs. length x = n" "fs_file f = concat xs" "fs_buffer f = []" "fs_bak f = 0" "fs_version f = v"
  shows "fixed_synced v n xs (aof_init (AppendOnlyFile f (FixedSize n)))"
proof -
  have len: "length (concat xs) = length xs * n" using length_concat_fixed assms(2) by blast
  have "concat xs = [] \<longleftrightarrow> xs = []" using assms(1) len by (metis length_0_conv mult_is_0 neq0_conv)
  then show ?thesis using assms len
    by (cases "xs = []") (simp_all add: fixed_synced_def fixed_rep_def Let_def del: concat_eq_Nil_conv)
qed

lemma fixed_open:
  assumes "0 < n" "\<forall>x \<in> set xs. length x = n"
  shows "\<exists>a. aof_open rd (concat xs) (FixedSize n) v = Some (Inr a) \<and> fixed_synced v n xs a"
proof -
  let ?a = "AppendOnlyFile \<lparr>fs_file = concat xs, fs_mmap = None, fs_buffer = [], fs_start = 0, fs_bak = 0, fs_version = v\<rparr> (FixedSize n)"
  have "fixed_synced v n xs (aof_init ?a)" by (rule fixed_init) (use assms in simp_all)
  moreover from this have "aof_size_info (aof_init ?a) = FixedSize n" by (auto simp: fixed_synced_def dest: fixed_repD)
  ultimately show ?thesis unfolding aof_open_def Let_def by (intro exI [of _ "aof_init ?a"]) simp
qed

lemma fixed_flush_synced:
  assumes "fixed_rep v n xs k ys a"
  shows "\<exists>a'. aof_flush a = Inr a' \<and> fixed_synced v n (take k xs @ ys) a'"
proof -
  obtain a' where a': "aof_flush a = Inr a'" "fixed_rep v n (take k xs @ ys) (k + length ys) [] a'"
    using fixed_flush [OF assms] by auto
  moreover have "k + length ys = length (take k xs @ ys)" using fixed_repD(4) [OF assms] by simp
  moreover have "fs_bak (aof_state a') = 0" using a'(1) by (cases a) (auto simp: rbind_eq_Inr aof_written_def Let_def)
  ultimately show ?thesis by (simp add: fixed_synced_def)
qed

interpretation ff: elmt_file "fixed_rep v n" "fixed_synced v n" "\<lambda>zs. \<forall>z \<in> set zs. length z = n" rd for v n and rd :: "reader \<Rightarrow> 'e parse"
proof unfold_locales
  fix xs k ys a y pos
  assume r: "fixed_rep v n xs k ys a"
  note k = fixed_repD(4) [OF r]
  show "size_unsync_in_elmts a = length (take k xs @ ys)" using fixed_size [OF r] k by simp
  show "pos < length (take k xs @ ys) \<Longrightarrow> aof_read a pos = Inr ((take k xs @ ys) ! pos)" using fixed_read [OF r] k by simp
  show "\<forall>z \<in> set (take k xs @ ys @ [y]). length z = n \<Longrightarrow> \<exists>a'. aof_append a y = Inr a' \<and> fixed_rep v n xs k (ys @ [y]) a'"
    using fixed_append [OF r, of y] by auto
  show "\<exists>a'. aof_flush a = Inr a' \<and> fixed_synced v n (take k xs @ ys) a'" by (rule fixed_flush_synced [OF r])
  show "fixed_rep v n xs (length xs) [] (aof_discard a)" by (rule fixed_discard [OF r])
  show "\<exists>a'. aof_reopen rd a = Some (Inr a') \<and> fixed_synced v n xs a'"
    using fixed_open [of n xs rd v] fixed_repD [OF r] by (simp add: aof_reopen_def)
  show "k \<le> length xs" by (rule k)
qed (auto simp: fixed_synced_def intro: fixed_rewind)


lemma fixed_synced_init: "fixed_synced v n xs a \<Longrightarrow> fixed_synced v n xs (aof_init a)"
proof -
  assume a: "fixed_synced v n xs a"
  then obtain f where "a = AppendOnlyFile f (FixedSize n)" by (cases a) (simp add: fixed_synced_def fixed_rep_def)
  then show ?thesis using a fixed_init [of n xs f v] by (simp add: fixed_synced_def fixed_rep_def del: aof_init.simps)
qed

lemma fits_empty: "fits xs \<Longrightarrow> concat xs = [] \<longleftrightarrow> xs = []"
  by (auto simp: fits_def)

lemma var_init:
  assumes "fits xs" "fs_file f = concat xs" "fs_buffer f = []" "fs_bak f = 0" "fs_version f = v"
    "fixed_synced v 10 (entries xs) (aof_init sf)"
  shows "var_synced v xs (aof_init (AppendOnlyFile f (VariableSize sf)))"
proof -
  let ?f = "f\<lparr>fs_start := length xs, fs_mmap := (if xs = [] then fs_mmap f else Some (concat xs))\<rparr>"
  have rep: "fixed_rep v 10 (entries xs) (length xs) [] (aof_init sf)" "fs_bak (aof_state (aof_init sf)) = 0"
    using assms(6) by (simp_all add: fixed_synced_def)
  have "size_in_elmts (aof_init sf) = length xs" using fixed_size_in_elmts [OF rep(1)] by simp
  then have eq: "aof_init (AppendOnlyFile f (VariableSize sf)) = AppendOnlyFile ?f (VariableSize (aof_init sf))"
    using assms(2) fits_empty [OF assms(1)] by (simp add: Let_def del: concat_eq_Nil_conv)
  have "var_rep v xs (length xs) [] (AppendOnlyFile ?f (VariableSize (aof_init sf)))"
    by (rule var_repI [OF refl]) (use assms rep in simp_all)
  then show ?thesis unfolding eq using rep(2) assms(4) by (simp add: var_synced_def)
qed

lemma sum_entries_eq:
  assumes "fixed_rep v 10 (entries xs) (length xs) [] sf" "fits xs"
  shows "m \<le> length xs \<Longrightarrow> sum_entries sf m = Inr (of_nat (length (concat (take m xs))))"
proof (induction m)
  case (Suc m)
  have "aof_read sf m = Inr (entries xs ! m)" using fixed_read [OF assms(1), of m] Suc.prems by simp
  then have "read_as_elmt read_size_entry sf m = Inr (entry_at xs m)"
    using deserialize_entry(1) [OF assms(2), of m] Suc.prems by (simp add: read_as_elmt_def)
  moreover have "ucast (se_size (entry_at xs m)) = (of_nat (length (xs ! m)) :: u64)"
    using deserialize_entry(3) [OF assms(2), of m] Suc.prems by (metis Suc_le_eq of_nat_unat)
  ultimately show ?case using Suc length_concat_take_Suc [of m xs] by simp
qed simp

lemma var_open:
  assumes "fixed_synced v 10 (entries xs) sf" "fits xs"
  shows "\<exists>a. aof_open rd (concat xs) (VariableSize sf) v = Some (Inr a) \<and> var_synced v xs a"
proof -
  let ?f = "\<lparr>fs_file = concat xs, fs_mmap = None, fs_buffer = [], fs_start = 0, fs_bak = 0, fs_version = v\<rparr>"
  let ?a = "aof_init (AppendOnlyFile ?f (VariableSize sf))"
  note sf = fixed_synced_init [OF assms(1)]
  have a: "var_synced v xs ?a" by (rule var_init) (use assms sf in simp_all)
  have si: "aof_size_info ?a = VariableSize (aof_init sf)" by (simp add: Let_def)
  have rep: "fixed_rep v 10 (entries xs) (length xs) [] (aof_init sf)" using sf by (simp add: fixed_synced_def)
  then have "fs_start (aof_state (aof_init sf)) = length xs" by (simp add: fixed_rep_def)
  then have "sum_sizes (aof_init sf) = Inr (of_nat (length (concat xs)))"
    using sum_entries_eq [OF rep assms(2), of "length xs"] by (simp add: sum_sizes_def)
  then have "aof_open rd (concat xs) (VariableSize sf) v = Some (Inr ?a)"
    unfolding aof_open_def Let_def si by (simp del: aof_init.simps)
  then show ?thesis using a by blast
qed

lemma var_flush_synced:
  assumes "var_rep v xs k ys a"
  shows "\<exists>a'. aof_flush a = Inr a' \<and> var_synced v (take k xs @ ys) a'"
proof -
  obtain a' where a': "aof_flush a = Inr a'" "var_rep v (take k xs @ ys) (k + length ys) [] a'"
    using var_flush [OF assms] by auto
  obtain f sf where a: "a = AppendOnlyFile f (VariableSize sf)" and "k \<le> length xs" using assms by (rule var_repE)
  then have "k + length ys = length (take k xs @ ys)" by simp
  moreover obtain sf' where "aof_flush sf = Inr sf'" "aof_size_info a' = VariableSize sf'" "fs_bak (aof_state a') = 0"
    using a'(1) a by (auto simp: rbind_eq_Inr aof_written_def Let_def)
  moreover from this have "fs_bak (aof_state sf') = 0" by (cases sf) (auto simp: rbind_eq_Inr aof_written_def Let_def)
  ultimately show ?thesis using a' by (simp add: var_synced_def)
qed

lemma var_reopen:
  assumes "var_rep v xs k ys a"
  shows "\<exists>a'. aof_reopen rd a = Some (Inr a') \<and> var_synced v xs a'"
  using assms
proof (rule var_repE)
  fix f sf
  assume a: "a = AppendOnlyFile f (VariableSize sf)" "fs_version f = v" "fits xs" "fs_file f = concat xs"
    "fixed_rep v 10 (entries xs) k (drop k (entries (take k xs @ ys))) sf"
  note sf = fixed_repD [OF a(5)]
  obtain sf' where sf': "aof_open read_size_entry (concat (entries xs)) (FixedSize 10) v = Some (Inr sf')" "fixed_synced v 10 (entries xs) sf'"
    using fixed_open sf(5) by blast
  then show ?thesis using var_open [OF sf'(2) a(3)] sf a by (simp add: aof_reopen_def SIZE_ENTRY_LEN_def)
qed

interpretation vf: elmt_file "var_rep v" "var_synced v" fits rd for v and rd :: "reader \<Rightarrow> 'e parse"
proof unfold_locales
  fix xs k ys a y pos
  assume r: "var_rep v xs k ys a"
  show k: "k \<le> length xs" using r by (rule var_repE)
  show "size_unsync_in_elmts a = length (take k xs @ ys)" using var_size [OF r] k by simp
  show "pos < length (take k xs @ ys) \<Longrightarrow> aof_read a pos = Inr ((take k xs @ ys) ! pos)" using var_read [OF r] k by simp
  show "fits (take k xs @ ys @ [y]) \<Longrightarrow> \<exists>a'. aof_append a y = Inr a' \<and> var_rep v xs k (ys @ [y]) a'" by (rule var_append [OF r])
  show "\<exists>a'. aof_flush a = Inr a' \<and> var_synced v (take k xs @ ys) a'" by (rule var_flush_synced [OF r])
  show "var_rep v xs (length xs) [] (aof_discard a)" by (rule var_discard [OF r])
  show "\<exists>a'. aof_reopen rd a = Some (Inr a') \<and> var_synced v xs a'" by (rule var_reopen [OF r])
qed (auto simp: var_synced_def intro: var_rewind)


section \<open>Pruning\<close>

lemma prune_walk_nths:
  "sorted_wrt (<) P \<Longrightarrow> (\<forall>p \<in> set P. c \<le> p) \<Longrightarrow> prune_walk c P xs = nths xs {i. c + i \<notin> set P}"
proof (induction xs arbitrary: c P)
  case (Cons x xs)
  show ?case
  proof (cases "c \<in> set P")
    case True
    then obtain Q where P: "P = c # Q" using Cons.prems by (cases P) fastforce+
    then have "{i. c + Suc i \<notin> set P} = {i. (c + 1) + i \<notin> set Q}" by auto
    moreover have "\<forall>p \<in> set Q. c + 1 \<le> p" using Cons.prems(1) P by auto
    ultimately show ?thesis using Cons.IH [of Q "c + 1"] Cons.prems(1) P by (simp add: nths_Cons)
  next
    case False
    then have "\<forall>p \<in> set P. c + 1 \<le> p" using Cons.prems(2) by (metis Suc_eq_plus1 Suc_leI le_neq_implies_less)
    then show ?thesis using Cons.IH [of P "c + 1"] Cons.prems(1) False by (simp add: nths_Cons)
  qed
qed simp

text \<open>The number of bytes read after each element.\<close>

fun ends :: "nat \<Rightarrow> bytes list \<Rightarrow> nat list" where
  "ends n [] = []"
| "ends n (z # zs) = (n + length z) # ends (n + length z) zs"

lemma length_ends [simp]: "length (ends n zs) = length zs"
  by (induction zs arbitrary: n) simp_all

context codec
begin

lemma stream_elmts_wr:
  assumes "\<forall>r. rd_source r = [] \<longrightarrow> (\<exists>e. rd r = Inl e)" "rd_kind r = StreamingReader" "total_bytes_read r = 0" "rd_version r = v"
  shows "\<forall>x \<in> set xs. wf v x \<Longrightarrow> n + length (concat (map (wr v) xs)) < 2 ^ 64 \<Longrightarrow>
    stream_elmts rd (adv r n (concat (map (wr v) xs))) = Some (zip xs (ends n (map (wr v) xs)))"
proof (induction xs arbitrary: n)
  case Nil
  obtain e where "rd (adv r n []) = Inl e" using assms(1) adv_simps(1) by blast
  then show ?case by (simp add: stream_elmts.simps)
next
  case (Cons x xs)
  let ?m = "n + length (wr v x)"
  have "rd (adv r n (wr v x @ concat (map (wr v) xs))) = Inr (x, adv r ?m (concat (map (wr v) xs)))"
    using rd_wr [of r x n] Cons.prems(1) assms(4) by simp
  moreover have "unat (total_bytes_read (adv r ?m (concat (map (wr v) xs)))) = ?m"
    using Cons.prems(2) assms(2,3) by (simp add: total_bytes_read_adv unat_of_nat_u64 del: of_nat_add)
  ultimately show ?case using Cons.IH [of ?m] Cons.prems by (simp add: stream_elmts.simps [of rd "adv r n _"])
qed

lemma stream_file:
  assumes "\<forall>r. rd_source r = [] \<longrightarrow> (\<exists>e. rd r = Inl e)" "\<forall>x \<in> set xs. wf v x" "length (concat (map (wr v) xs)) < 2 ^ 64"
  shows "stream_elmts rd (StreamingReader_new (concat (map (wr v) xs)) v) = Some (zip xs (ends 0 (map (wr v) xs)))"
proof -
  have start: "StreamingReader_new (concat (map (wr v) xs)) v = adv (StreamingReader_new [] v) 0 (concat (map (wr v) xs))"
    by (simp add: adv_def count_read_def StreamingReader_new_def)
  show ?thesis unfolding start by (rule stream_elmts_wr) (use assms in \<open>simp_all add: StreamingReader_new_def\<close>)
qed

end

lemma size_entries_ends:
  assumes "n + length (concat zs) < 2 ^ 64" "\<forall>z \<in> set zs. length z < 2 ^ 16"
  shows "size_entries (of_nat n) (ends n zs)
    = map (\<lambda>i. \<lparr>se_offset = of_nat (n + length (concat (take i zs))), se_size = of_nat (length (zs ! i))\<rparr>) [0..<length zs]"
  using assms
proof (induction zs arbitrary: n)
  case (Cons z zs)
  have n: "unat (of_nat n :: u64) = n" using Cons.prems(1) by (simp add: unat_of_nat_u64)
  have "unat (of_nat (length z) :: u16) = length z" using Cons.prems(2) by (simp add: unat_of_nat)
  then have "ucast (of_nat (length z) :: u16) = (of_nat (length z) :: u64)" by (metis of_nat_unat)
  then have "size_entries (of_nat n) (ends n (z # zs))
    = \<lparr>se_offset = of_nat n, se_size = of_nat (length z)\<rparr> # size_entries (of_nat (n + length z)) (ends (n + length z) zs)"
    using n by (simp add: Let_def)
  also have "\<dots> = map (\<lambda>i. \<lparr>se_offset = of_nat (n + length (concat (take i (z # zs)))), se_size = of_nat (length ((z # zs) ! i))\<rparr>) [0..<length (z # zs)]"
    using Cons.IH [of "n + length z"] Cons.prems by (simp add: map_upt_Suc ac_simps del: upt_Suc)
  finally show ?case .
qed simp

lemma rebuild_entries: "fits zs \<Longrightarrow> write_vec write_size_entry (size_entries 0 (ends 0 zs)) = concat (entries zs)"
  using size_entries_ends [of 0 zs] by (simp add: fits_def entries_def entry_at_def write_vec_def comp_def)

lemma fits_nths: "fits (map f xs) \<Longrightarrow> fits (map f (nths xs I))"
proof -
  have "length (concat (map f (nths xs I))) \<le> length (concat (map f xs))"
  proof (induction xs arbitrary: I)
    case (Cons x xs)
    show ?case using Cons.IH [of "{j. Suc j \<in> I}"] by (simp add: nths_Cons)
  qed simp
  then show "fits (map f xs) \<Longrightarrow> fits (map f (nths xs I))" by (auto simp: fits_def dest: in_set_nthsD)
qed


text \<open>
  Pruning a file keeps the elements whose positions are not pruned, in order, and leaves the size file in step with them.
  The reader of the elements must fail at the end of the file.
\<close>

lemma var_save_prune:
  assumes "codec wr rd good" "\<forall>r. rd_source r = [] \<longrightarrow> (\<exists>e. rd r = Inl e)" "\<forall>x \<in> set es. good v x"
    "var_synced v (map (wr v) es) a" "sorted_wrt (<) P"
  shows "\<exists>a'. aof_save_prune wr rd a P = Some a' \<and> var_synced v (map (wr v) (nths es {i. i \<notin> set P})) a'"
proof -
  let ?zs = "map (wr v) es" and ?es = "nths es {i. i \<notin> set P}"
  have r: "var_rep v ?zs (length ?zs) [] a" using assms(4) by (simp add: var_synced_def)
  obtain f sf where a: "a = AppendOnlyFile f (VariableSize sf)" and f: "fs_file f = concat ?zs" "fs_version f = v"
      "fits ?zs" "fs_buffer f = concat []"
      and sf: "fixed_rep v 10 (entries ?zs) (length ?zs) (drop (length ?zs) (entries (take (length ?zs) ?zs @ []))) sf"
    using r by (rule var_repE)
  have bak: "fs_bak f = 0" "fs_bak (aof_state sf) = 0" using assms(4) a by (simp_all add: var_synced_def)
  have fits: "fits (map (wr v) ?es)" by (rule fits_nths [OF f(3)])
  note stream = codec.stream_file [OF assms(1,2)]
  have s1: "stream_elmts rd (StreamingReader_new (fs_file f) v) = Some (zip es (ends 0 ?zs))"
    unfolding f(1) by (rule stream) (use assms(3) f(3) in \<open>simp_all add: fits_def\<close>)
  have "\<forall>x \<in> set ?es. good v x" using assms(3) by (auto dest: in_set_nthsD)
  then have s2: "stream_elmts rd (StreamingReader_new (concat (map (wr v) ?es)) v) = Some (zip ?es (ends 0 (map (wr v) ?es)))"
    by (rule stream) (use fits in \<open>simp add: fits_def\<close>)
  have walk: "prune_walk 0 P es = ?es" using prune_walk_nths [OF assms(5), of 0 es] by simp
  obtain g where g: "aof_release sf = AppendOnlyFile g (FixedSize 10)" "fs_buffer g = []" "fs_bak g = 0" "fs_version g = v"
    using sf bak(2) by (cases sf) (auto simp: fixed_rep_def)
  let ?sf = "AppendOnlyFile (g\<lparr>fs_mmap := None, fs_file := concat (entries (map (wr v) ?es))\<rparr>) (FixedSize 10)"
  let ?a = "AppendOnlyFile (f\<lparr>fs_mmap := None, fs_file := concat (map (wr v) ?es)\<rparr>) (VariableSize ?sf)"
  have "aof_save_prune wr rd a P = Some (aof_init ?a)"
    using s1 s2 walk a f(2) g(1) rebuild_entries [OF fits]
    by (simp add: aof_save_prune_def aof_replace_def rebuild_size_file_def write_vec_def Let_def del: aof_init.simps)
  moreover have "fixed_synced v 10 (entries (map (wr v) ?es)) (aof_init ?sf)"
    by (rule fixed_init) (use g in \<open>auto simp: entries_def write_size_entry_def\<close>)
  then have "var_synced v (map (wr v) ?es) (aof_init ?a)" by (intro var_init) (use fits f bak in simp_all)
  ultimately show ?thesis by blast
qed

lemma fixed_save_prune:
  assumes "codec wr rd good" "\<forall>r. rd_source r = [] \<longrightarrow> (\<exists>e. rd r = Inl e)" "\<forall>x \<in> set es. good v x"
    "fixed_synced v n (map (wr v) es) a" "sorted_wrt (<) P" "length es * n < 2 ^ 64"
  shows "\<exists>a'. aof_save_prune wr rd a P = Some a' \<and> fixed_synced v n (map (wr v) (nths es {i. i \<notin> set P})) a'"
proof -
  let ?es = "nths es {i. i \<notin> set P}"
  obtain f where a: "a = AppendOnlyFile f (FixedSize n)" and f: "fs_file f = concat (map (wr v) es)" "fs_version f = v"
      "fs_buffer f = []" "fs_bak f = 0" "0 < n" "\<forall>x \<in> set es. length (wr v x) = n"
    using assms(4) by (cases a) (auto simp: fixed_synced_def fixed_rep_def)
  have "length (concat (map (wr v) es)) < 2 ^ 64" using length_concat_fixed [of "map (wr v) es" n] f(6) assms(6) by simp
  then have s1: "stream_elmts rd (StreamingReader_new (fs_file f) v) = Some (zip es (ends 0 (map (wr v) es)))"
    unfolding f(1) by (rule codec.stream_file [OF assms(1,2,3)])
  have walk: "prune_walk 0 P es = ?es" using prune_walk_nths [OF assms(5), of 0 es] by simp
  let ?a = "AppendOnlyFile (f\<lparr>fs_mmap := None, fs_file := concat (map (wr v) ?es)\<rparr>) (FixedSize n)"
  have "aof_save_prune wr rd a P = Some (aof_init ?a)"
    using s1 walk a f(2)
    by (simp add: aof_save_prune_def aof_replace_def rebuild_size_file_def write_vec_def Let_def del: aof_init.simps)
  moreover have "fixed_synced v n (map (wr v) ?es) (aof_init ?a)"
    by (rule fixed_init) (use f in \<open>auto dest: in_set_nthsD\<close>)
  ultimately show ?thesis by blast
qed

section \<open>Properties\<close>

definition empty_file :: "size_info \<Rightarrow> version \<Rightarrow> append_only_file" where
  "empty_file si v = AppendOnlyFile \<lparr>fs_file = [], fs_mmap = None, fs_buffer = [], fs_start = 0, fs_bak = 0, fs_version = v\<rparr> si"

text \<open>
  Claim C4. A file of elements of variable size, opened on two empty files, behaves as the abstract file under every
  sequence of appends, rewinds, flushes, discards and restarts: no operation fails, the number of elements is the
  abstract one, every position below it reads the element that was appended there, and every other reads nothing.
  Elements must have between one and 65535 bytes, and a rewind must come when nothing is pending.
\<close>

theorem append_only_file_refines:
  assumes "spec_allows_all fits ([], 0, []) ops"
  shows "\<exists>a. aof_ops rd (empty_file (VariableSize (empty_file (FixedSize SIZE_ENTRY_LEN) v)) v) ops = Some (Inr a)
    \<and> size_unsync_in_elmts a = length (spec_content (foldl spec_op ([], 0, []) ops))
    \<and> (\<forall>pos. aof_read a pos = Inr (if pos < length (spec_content (foldl spec_op ([], 0, []) ops))
        then spec_content (foldl spec_op ([], 0, []) ops) ! pos else []))"
proof -
  have "var_rep v [] 0 [] (empty_file (VariableSize (empty_file (FixedSize SIZE_ENTRY_LEN) v)) v)"
    by (simp add: var_rep_def fixed_rep_def empty_file_def SIZE_ENTRY_LEN_def fits_def entries_def)
  then have "vf.rep_spec v ([], 0, []) (empty_file (VariableSize (empty_file (FixedSize SIZE_ENTRY_LEN) v)) v)"
    by (simp add: vf.rep_spec_def)
  then obtain a where a: "aof_ops rd (empty_file (VariableSize (empty_file (FixedSize SIZE_ENTRY_LEN) v)) v) ops = Some (Inr a)"
      "vf.rep_spec v (foldl spec_op ([], 0, []) ops) a"
    using vf.aof_ops_refine [OF _ assms] by blast
  then show ?thesis using vf.rep_spec_read [OF a(2)] by blast
qed

lemma append_only_file_refines_witness:
  "\<exists>a. aof_ops read_hash (empty_file (VariableSize (empty_file (FixedSize SIZE_ENTRY_LEN) 1)) 1)
      [Append [1, 2], Append [3], Flush, Append [4], Reopen, Rewind 1, Append [5, 6, 7], Flush, Append [8], Discard] = Some (Inr a)
    \<and> aof_read a 0 = Inr [1, 2] \<and> aof_read a 1 = Inr [5, 6, 7] \<and> aof_read a 2 = Inr []"
  using append_only_file_refines
    [of "[Append [1, 2], Append [3], Flush, Append [4], Reopen, Rewind 1, Append [5, 6, 7], Flush, Append [8], Discard]" read_hash 1]
  by (auto simp: fits_def)

end
