(* ===== verification/Store_Pmmr.thy ===== *)
theory Store_Pmmr
  imports Leaf_Set Append_Only_File
begin

text \<open>
  The file-backed storage of a prunable Merkle Mountain Range (\<open>store/src/pmmr.rs\<close>): a file of hashes, a file of leaf
  data, the leaf set and the prune list. The reader and the writer of the data are the arguments \<open>rd\<close> and \<open>wr\<close>; the
  element stored for a leaf is \<open>as_elmt\<close> of it. A panic is the value \<open>None\<close>. Not modelled is the removal of
  old snapshot files, which goes by the access times of the file system.
\<close>

section \<open>The backend\<close>

record pmmr_backend =
  pb_prunable :: bool
  pb_hash_file :: append_only_file
  pb_data_file :: append_only_file
  pb_leaf_set :: leaf_set
  pb_prune_list :: prune_list

definition pb_is_pruned :: "pmmr_backend \<Rightarrow> nat \<Rightarrow> bool option" where
  "pb_is_pruned b pos = is_pruned (pb_prune_list b) pos"

definition pb_is_pruned_root :: "pmmr_backend \<Rightarrow> nat \<Rightarrow> bool option" where
  "pb_is_pruned_root b pos = is_pruned_root (pb_prune_list b) pos"

definition is_compacted :: "pmmr_backend \<Rightarrow> nat \<Rightarrow> bool option" where
  "is_compacted b pos =
    Option.bind (pb_is_pruned b pos) (\<lambda>pruned.
      if pruned then map_option Not (pb_is_pruned_root b pos) else Some False)"

fun append_hashes :: "append_only_file \<Rightarrow> hash list \<Rightarrow> string + append_only_file" where
  "append_hashes hash_file [] = Inr hash_file"
| "append_hashes hash_file (h # hashes) =
    rbind (map_err (\<lambda>_. ''Failed to append hash to file'') (df_append (\<lambda>_. write_hash) hash_file h)) (\<lambda>(_, hash_file).
      append_hashes hash_file hashes)"

definition pb_append ::
  "(version \<Rightarrow> 'e \<Rightarrow> bytes) \<Rightarrow> ('t \<Rightarrow> 'e) \<Rightarrow> pmmr_backend \<Rightarrow> 't \<Rightarrow> hash list \<Rightarrow> (string + pmmr_backend) option" where
  "pb_append wr as_elmt b x hashes =
    (case rbind (map_err (\<lambda>_. ''Failed to append data to file'') (df_append wr (pb_data_file b) (as_elmt x))) (\<lambda>(sz, df).
            rbind (append_hashes (pb_hash_file b) hashes) (\<lambda>hf. Inr (sz, b\<lparr>pb_data_file := df, pb_hash_file := hf\<rparr>))) of
       Inl e \<Rightarrow> Some (Inl e)
     | Inr (sz, b) \<Rightarrow>
         if pb_prunable b
         then Option.bind (get_total_leaf_shift (pb_prune_list b)) (\<lambda>shift.
                Some (Inr (b\<lparr>pb_leaf_set := leaf_set_add (pb_leaf_set b) (insertion_to_pmmr_index (sz + shift))\<rparr>)))
         else Some (Inr b))"

definition pb_get_from_file :: "pmmr_backend \<Rightarrow> nat \<Rightarrow> hash option option" where
  "pb_get_from_file b position =
    Option.bind (is_compacted b position) (\<lambda>c.
      if c then Some None
      else Option.bind (get_shift (pb_prune_list b) position) (\<lambda>shift.
        Some (df_read read_hash (pb_hash_file b) (position - shift))))"

definition pb_get_data_from_file :: "(reader \<Rightarrow> 'e parse) \<Rightarrow> pmmr_backend \<Rightarrow> nat \<Rightarrow> 'e option option" where
  "pb_get_data_from_file rd b position =
    (if \<not> is_leaf position then Some None
     else Option.bind (is_compacted b position) (\<lambda>c.
       if c then Some None
       else Option.bind (get_leaf_shift (pb_prune_list b) position) (\<lambda>shift.
         Some (df_read rd (pb_data_file b) (n_leaves position - shift)))))"

definition pb_get_hash :: "pmmr_backend \<Rightarrow> nat \<Rightarrow> hash option option" where
  "pb_get_hash b pos =
    (if pb_prunable b \<and> is_leaf pos \<and> \<not> leaf_set_includes (pb_leaf_set b) pos then Some None else pb_get_from_file b pos)"

definition pb_get_data :: "(reader \<Rightarrow> 'e parse) \<Rightarrow> pmmr_backend \<Rightarrow> nat \<Rightarrow> 'e option option" where
  "pb_get_data rd b pos =
    (if \<not> is_leaf pos then Some None
     else if pb_prunable b \<and> \<not> leaf_set_includes (pb_leaf_set b) pos then Some None
     else pb_get_data_from_file rd b pos)"

definition pb_leaf_pos_iter :: "pmmr_backend \<Rightarrow> nat list option" where
  "pb_leaf_pos_iter b = (if pb_prunable b then Some (leaf_set_iter (pb_leaf_set b)) else None)"

definition pb_hash_size :: "pmmr_backend \<Rightarrow> nat" where
  "pb_hash_size b = size_in_elmts (pb_hash_file b)"

definition pb_data_size :: "pmmr_backend \<Rightarrow> nat" where
  "pb_data_size b = size_in_elmts (pb_data_file b)"

definition pb_unpruned_size :: "pmmr_backend \<Rightarrow> nat option" where
  "pb_unpruned_size b = map_option (\<lambda>shift. pb_hash_size b + shift) (get_total_shift (pb_prune_list b))"

definition pb_n_unpruned_leaves :: "pmmr_backend \<Rightarrow> nat option" where
  "pb_n_unpruned_leaves b =
    (if pb_prunable b then Some (leaf_set_len (pb_leaf_set b)) else map_option n_leaves (pb_unpruned_size b))"

definition pb_leaf_idx_iter :: "pmmr_backend \<Rightarrow> nat \<Rightarrow> nat list option" where
  "pb_leaf_idx_iter b from_idx =
    (let from_pos = insertion_to_pmmr_index (from_idx + 1)
     in if pb_prunable b
        then Some (map (\<lambda>x. n_leaves x - 1) (dropWhile (\<lambda>x. x < from_pos) (leaf_set_iter (pb_leaf_set b))))
        else None)"

definition pb_rewind :: "pmmr_backend \<Rightarrow> nat \<Rightarrow> bitmap \<Rightarrow> (string + pmmr_backend) option" where
  "pb_rewind b position rewind_rm_pos =
    (let b = (if pb_prunable b then b\<lparr>pb_leaf_set := leaf_set_rewind (pb_leaf_set b) position rewind_rm_pos\<rparr> else b)
     in Option.bind (get_shift (pb_prune_list b) position) (\<lambda>shift.
        let b = b\<lparr>pb_hash_file := aof_rewind (pb_hash_file b) (position - shift)\<rparr>;
            flatfile_pos = n_leaves position
        in Option.bind (get_leaf_shift (pb_prune_list b) position) (\<lambda>leaf_shift.
           Some (Inr (b\<lparr>pb_data_file := aof_rewind (pb_data_file b) (flatfile_pos - leaf_shift)\<rparr>)))))"

definition pb_remove :: "pmmr_backend \<Rightarrow> nat \<Rightarrow> (string + pmmr_backend) option" where
  "pb_remove b pos =
    (if pb_prunable b then Some (Inr (b\<lparr>pb_leaf_set := leaf_set_remove (pb_leaf_set b) pos\<rparr>)) else None)"

definition pb_release_files :: "pmmr_backend \<Rightarrow> pmmr_backend" where
  "pb_release_files b = b\<lparr>pb_data_file := aof_release (pb_data_file b), pb_hash_file := aof_release (pb_hash_file b)\<rparr>"

definition pb_snapshot :: "pmmr_backend \<Rightarrow> bitmap" where
  "pb_snapshot b = leaf_set_snapshot (pb_leaf_set b)"

text \<open>
  \<open>PMMRBackend::new\<close> over the contents of its files; \<open>esize\<close> is \<open>elmt_size\<close> of the element type and \<open>snap\<close> the leaf
  set of the snapshot for the given header, if there is one.
\<close>

definition pmmr_backend_new ::
  "(reader \<Rightarrow> 'e parse) \<Rightarrow> nat option \<Rightarrow> bool \<Rightarrow> version \<Rightarrow> bytes \<Rightarrow> bytes \<Rightarrow> bytes \<Rightarrow> bitmap \<Rightarrow> bitmap option \<Rightarrow> bitmap \<Rightarrow>
     (ser_error + pmmr_backend) option" where
  "pmmr_backend_new rd esize prunable v hash_bytes data_bytes size_bytes leaf_bm snap prune_bm =
    (let open_data = (\<lambda>si. case aof_open read_hash hash_bytes (FixedSize 32) v of
            None \<Rightarrow> None
          | Some (Inl e) \<Rightarrow> Some (Inl e)
          | Some (Inr hf) \<Rightarrow>
             (case aof_open rd data_bytes si v of
                None \<Rightarrow> None
              | Some (Inl e) \<Rightarrow> Some (Inl e)
              | Some (Inr df) \<Rightarrow> Option.bind (prune_list_open prune_bm) (\<lambda>pl.
                  Some (Inr \<lparr>pb_prunable = prunable, pb_hash_file = hf, pb_data_file = df,
                    pb_leaf_set = leaf_set_open (copy_snapshot leaf_bm snap), pb_prune_list = pl\<rparr>))))
     in case esize of
          Some n \<Rightarrow> open_data (FixedSize n)
        | None \<Rightarrow> (case aof_open read_size_entry size_bytes (FixedSize SIZE_ENTRY_LEN) v of
                    None \<Rightarrow> None
                  | Some (Inl e) \<Rightarrow> Some (Inl e)
                  | Some (Inr sf) \<Rightarrow> open_data (VariableSize sf)))"

definition sync_leaf_set :: "pmmr_backend \<Rightarrow> pmmr_backend" where
  "sync_leaf_set b = (if pb_prunable b then b\<lparr>pb_leaf_set := leaf_set_flush (pb_leaf_set b)\<rparr> else b)"

text \<open>The arguments of \<open>and\<close> are all evaluated: a failed flush does not keep the others from being tried.\<close>

definition pb_sync :: "pmmr_backend \<Rightarrow> ser_error + pmmr_backend" where
  "pb_sync b =
    (case aof_flush (pb_hash_file b) of
       Inl e \<Rightarrow> Inl e
     | Inr hf \<Rightarrow> (case aof_flush (pb_data_file b) of
         Inl e \<Rightarrow> Inl e
       | Inr df \<Rightarrow> Inr (sync_leaf_set (b\<lparr>pb_hash_file := hf, pb_data_file := df\<rparr>))))"

definition pb_discard :: "pmmr_backend \<Rightarrow> pmmr_backend" where
  "pb_discard b = b\<lparr>pb_hash_file := aof_discard (pb_hash_file b), pb_data_file := aof_discard (pb_data_file b),
     pb_leaf_set := leaf_set_discard (pb_leaf_set b)\<rparr>"

section \<open>Compaction\<close>

partial_function (option) expand_loop :: "prune_list \<Rightarrow> bitmap \<Rightarrow> nat \<Rightarrow> bitmap option" where
  "expand_loop pl expanded current =
    (let (parent, sibling) = family current
     in Option.bind (is_pruned_root pl sibling) (\<lambda>sibling_pruned.
        let expanded = (if sibling_pruned then insert (as_u32 sibling) expanded else expanded)
        in if sibling_pruned \<or> as_u32 sibling \<in> expanded
           then expand_loop pl (insert (as_u32 parent) expanded) parent
           else Some expanded))"

fun expand_all :: "prune_list \<Rightarrow> bitmap \<Rightarrow> nat list \<Rightarrow> bitmap option" where
  "expand_all pl expanded [] = Some expanded"
| "expand_all pl expanded (x # rest) =
    Option.bind (expand_loop pl (insert x expanded) x) (\<lambda>expanded. expand_all pl expanded rest)"

definition removed_excl_roots :: "bitmap \<Rightarrow> bitmap" where
  "removed_excl_roots removed = {pos \<in> removed. as_u32 (fst (family pos)) \<in> removed}"

definition pos_to_rm :: "pmmr_backend \<Rightarrow> nat \<Rightarrow> bitmap \<Rightarrow> (bitmap \<times> bitmap) option" where
  "pos_to_rm b cutoff_pos rewind_rm_pos =
    (let leaf_pos_to_rm = removed_pre_cutoff (pb_leaf_set b) cutoff_pos rewind_rm_pos (pb_prune_list b)
     in Option.bind (expand_all (pb_prune_list b) {} (bm_iter leaf_pos_to_rm)) (\<lambda>expanded.
        Some (leaf_pos_to_rm, removed_excl_roots expanded)))"

text \<open>The translation of positions into indices of the two files, \<open>map_vec!\<close>.\<close>

fun shifted :: "(nat \<Rightarrow> nat option) \<Rightarrow> (nat \<Rightarrow> nat) \<Rightarrow> nat list \<Rightarrow> nat list option" where
  "shifted shift_of flat [] = Some []"
| "shifted shift_of flat (pos # rest) =
    Option.bind (shift_of pos) (\<lambda>shift. map_option (\<lambda>ps. (flat pos - shift) # ps) (shifted shift_of flat rest))"

definition check_compact ::
  "(version \<Rightarrow> 'e \<Rightarrow> bytes) \<Rightarrow> (reader \<Rightarrow> 'e parse) \<Rightarrow> pmmr_backend \<Rightarrow> nat \<Rightarrow> bitmap \<Rightarrow> pmmr_backend option" where
  "check_compact wr rd b cutoff_pos rewind_rm_pos =
    (if \<not> pb_prunable b then None
     else Option.bind (pos_to_rm b cutoff_pos rewind_rm_pos) (\<lambda>(leaves_removed, rm_pos).
       Option.bind (shifted (get_shift (pb_prune_list b)) (\<lambda>pos. pos) (bm_iter rm_pos)) (\<lambda>hash_pos.
       Option.bind (df_save_prune (\<lambda>_. write_hash) read_hash (pb_hash_file b) hash_pos) (\<lambda>hf.
       Option.bind (shifted (get_leaf_shift (pb_prune_list b)) n_leaves (filter is_leaf (bm_iter rm_pos))) (\<lambda>data_pos.
       Option.bind (df_save_prune wr rd (pb_data_file b) data_pos) (\<lambda>df.
       Option.bind (prune_list_add_all (pb_prune_list b) (bm_iter leaves_removed)) (\<lambda>pl.
       Option.bind (prune_list_flush pl) (\<lambda>pl.
         Some (b\<lparr>pb_hash_file := hf, pb_data_file := df, pb_prune_list := pl,
           pb_leaf_set := leaf_set_flush (pb_leaf_set b)\<rparr>)))))))))"


section \<open>Sublists by index\<close>

lemma nths_split: "m \<le> length xs \<Longrightarrow> nths xs A = nths (take m xs) A @ nths (drop m xs) {j. j + m \<in> A}"
  using nths_append [of "take m xs" "drop m xs" A] by (simp add: min_absorb2)

lemma length_nths_take: "m \<le> length xs \<Longrightarrow> length (nths (take m xs) A) = card {i \<in> A. i < m}"
  by (simp add: length_nths min_absorb2 conj_commute)

lemma length_nths_le: "length (nths xs A) \<le> length xs"
proof -
  have "card {i. i < length xs \<and> i \<in> A} \<le> card {..<length xs}" by (rule card_mono) auto
  then show ?thesis by (simp add: length_nths)
qed

lemma nths_take: "m \<le> length xs \<Longrightarrow> nths (take m xs) A = take (card {i \<in> A. i < m}) (nths xs A)"
  using nths_split [of m xs A] length_nths_take [of m xs A] by simp

lemma nths_rank:
  assumes "j < length xs" "j \<in> A"
  shows "nths xs A ! card {i \<in> A. i < j} = xs ! j" "card {i \<in> A. i < j} < length (nths xs A)"
proof -
  have "drop j xs = xs ! j # drop (Suc j) xs" using assms(1) by (simp add: Cons_nth_drop_Suc)
  then have "nths xs A = nths (take j xs) A @ xs ! j # nths (drop (Suc j) xs) {i. Suc i \<in> {i. i + j \<in> A}}"
    using nths_split [of j xs A] assms by (simp add: nths_Cons)
  then show "nths xs A ! card {i \<in> A. i < j} = xs ! j" "card {i \<in> A. i < j} < length (nths xs A)"
    using length_nths_take [of j xs A] assms(1) by (simp_all add: nth_append)
qed

lemma nths_app_all: "(\<And>j. j < length ys \<Longrightarrow> j + length xs \<in> A) \<Longrightarrow> nths (xs @ ys) A = nths xs A @ ys"
proof -
  assume "\<And>j. j < length ys \<Longrightarrow> j + length xs \<in> A"
  then have "nths ys {j. j + length xs \<in> A} = ys" by (intro nths_all) simp
  then show ?thesis by (simp add: nths_append)
qed

lemma rank_inj:
  assumes "i \<in> A" "j \<in> A" "card {k \<in> A. k < i} = card {k \<in> A. k < j}"
  shows "i = (j :: nat)"
proof (rule ccontr)
  assume "i \<noteq> j"
  have less: "False" if "i < j" "i \<in> A" "card {k \<in> A. k < i} = card {k \<in> A. k < j}" for i j
  proof -
    have "{k \<in> A. k < i} \<subset> {k \<in> A. k < j}" using that(1,2) by auto
    then have "card {k \<in> A. k < i} < card {k \<in> A. k < j}" by (rule psubset_card_mono [rotated]) simp
    then show False using that(3) by simp
  qed
  from \<open>i \<noteq> j\<close> consider "i < j" | "j < i" by linarith
  then show False by cases (use less [of i j] less [of j i] assms in simp_all)
qed

lemma rank_mono: "i < j \<Longrightarrow> i \<in> A \<Longrightarrow> card {k \<in> A. k < i} < card {k \<in> A. k < (j::nat)}"
  by (rule psubset_card_mono) auto

text \<open>Dropping the ranks of some elements of a sublist drops those elements.\<close>

lemma nths_drop_ranks:
  assumes "Q \<subseteq> A"
  shows "nths (nths xs A) {i. i \<notin> (\<lambda>j. card {k \<in> A. k < j}) ` Q} = nths xs (A - Q)"
proof -
  have "{i \<in> A. card {k \<in> A. k < i} \<in> {i. i \<notin> (\<lambda>j. card {k \<in> A. k < j}) ` Q}} = A - Q"
    using assms by (auto dest: rank_inj)
  then show ?thesis by (simp add: nths_nths)
qed

section \<open>Files of encoded elements\<close>

text \<open>
  An element type of one size: its codec, and that its reader fails at the end of the file. The client lemmas are about
  a file that holds \<open>ds\<close> on disk and \<open>es\<close> with what is pending.
\<close>

locale fixed_elmt = codec wr rd good
  for wr :: "version \<Rightarrow> 'e \<Rightarrow> bytes" and rd :: "reader \<Rightarrow> 'e parse" and good :: "version \<Rightarrow> 'e \<Rightarrow> bool" +
  fixes esize :: nat
  assumes elmt_size: "good v x \<Longrightarrow> length (wr v x) = esize"
    and elmt_pos: "0 < esize" and elmt_small: "esize < 2 ^ 16"
    and elmt_eof: "rd_source r = [] \<Longrightarrow> \<exists>e. rd r = Inl e"
begin

definition holds :: "version \<Rightarrow> 'e list \<Rightarrow> 'e list \<Rightarrow> append_only_file \<Rightarrow> bool" where
  "holds v ds es a \<longleftrightarrow> (\<exists>k ys. fixed_rep v esize (map (wr v) ds) k (map (wr v) ys) a \<and> es = take k ds @ ys
    \<and> (\<forall>x \<in> set ds \<union> set ys. good v x))"

definition pending_free :: "append_only_file \<Rightarrow> bool" where
  "pending_free a \<longleftrightarrow> fs_buffer (aof_state a) = []"

definition clean :: "version \<Rightarrow> 'e list \<Rightarrow> append_only_file \<Rightarrow> bool" where
  "clean v es a \<longleftrightarrow> fixed_synced v esize (map (wr v) es) a \<and> (\<forall>x \<in> set es. good v x)"

lemma holds_good: "holds v ds es a \<Longrightarrow> x \<in> set es \<Longrightarrow> good v x"
  unfolding holds_def using set_take_subset by (metis Un_iff set_append subsetD)

lemma clean_holds: "clean v es a \<Longrightarrow> holds v es es a \<and> pending_free a"
  unfolding clean_def holds_def fixed_synced_def pending_free_def
  by (auto intro!: exI [of _ "length es"] exI [of _ "[]"] simp: fixed_rep_def)

lemma holds_bytes:
  assumes "holds v ds es a"
  obtains k ys where "fixed_rep v esize (map (wr v) ds) k (map (wr v) ys) a" "es = take k ds @ ys"
    "k \<le> length ds" "length es = k + length ys" "take k (map (wr v) ds) @ map (wr v) ys = map (wr v) es"
    "\<forall>x \<in> set ds \<union> set ys. good v x"
proof -
  obtain k ys where r: "fixed_rep v esize (map (wr v) ds) k (map (wr v) ys) a" "es = take k ds @ ys" "\<forall>x \<in> set ds \<union> set ys. good v x"
    using assms by (auto simp: holds_def)
  moreover have "k \<le> length ds" using fixed_repD(4) [OF r(1)] by simp
  ultimately show ?thesis using that by (simp add: take_map)
qed

lemma holds_size: "holds v ds es a \<Longrightarrow> size_unsync_in_elmts a = length es" "holds v ds es a \<Longrightarrow> size_in_elmts a = length ds"
  by (erule holds_bytes, simp add: fixed_size, erule holds_bytes, simp add: fixed_size_in_elmts)

lemma holds_read:
  assumes "holds v ds es a" "length es < 2 ^ 64 - 1"
  shows "df_read rd a p = (if 0 < p \<and> p \<le> length es then Some (es ! (p - 1)) else None)"
proof -
  obtain k ys where r: "fixed_rep v esize (map (wr v) ds) k (map (wr v) ys) a" "length es = k + length ys"
      "take k (map (wr v) ds) @ map (wr v) ys = map (wr v) es"
    using assms(1) by (rule holds_bytes)
  have v: "fs_version (aof_state a) = v" using fixed_repD(2) [OF r(1)] .
  let ?i = "if p = 0 then 2 ^ 64 - 1 else p - 1"
  show ?thesis
  proof (cases "0 < p \<and> p \<le> length es")
    case True
    then have i: "p - 1 < k + length ys" "?i = p - 1" "p - 1 < length es" using r(2) by auto
    then have "aof_read a ?i = Inr (wr v (es ! (p - 1)))" using fixed_read [OF r(1), of "p - 1"] r(3) by simp
    moreover have "good v (es ! (p - 1))" using holds_good [OF assms(1)] True by (auto intro!: nth_mem)
    ultimately show ?thesis using True v deserialize_ser_vec [of v "es ! (p - 1)" "[]"]
      by (simp add: df_read_def read_as_elmt_def ser_vec_def)
  next
    case False
    then have "length es \<le> ?i" using assms(2) by auto
    then have "aof_read a ?i = Inr []" using holds_size(1) [OF assms(1)] by (cases a) simp
    moreover obtain e where "rd (BinReader_new [] v) = Inl e" using elmt_eof [of "BinReader_new [] v"] by (auto simp: BinReader_new_def)
    ultimately show ?thesis using False v by (auto simp: df_read_def read_as_elmt_def deserialize_def)
  qed
qed

lemma holds_kept_read:
  assumes "holds v ds (nths xs A) a" "length xs < 2 ^ 64 - 1" "j \<in> A"
  shows "df_read rd a (Suc (card {i \<in> A. i < j})) = (if j < length xs then Some (xs ! j) else None)"
proof -
  have "length (nths xs A) < 2 ^ 64 - 1" using length_nths_le [of xs A] assms(2) by linarith
  note read = holds_read [OF assms(1) this, of "Suc (card {i \<in> A. i < j})"]
  show ?thesis
  proof (cases "j < length xs")
    case True
    then show ?thesis using read nths_rank [OF True assms(3)] by simp
  next
    case False
    have "length (nths xs A) = card {i \<in> A. i < length xs}" using length_nths_take [of "length xs" xs] by simp
    also have "\<dots> \<le> card {i \<in> A. i < j}" using False by (intro card_mono) auto
    finally show ?thesis using read False by simp
  qed
qed

lemma holds_append:
  assumes "holds v ds es a" "good v x"
  shows "\<exists>a'. df_append wr a x = Inr (Suc (length es), a') \<and> holds v ds (es @ [x]) a'"
proof -
  obtain k ys where r: "fixed_rep v esize (map (wr v) ds) k (map (wr v) ys) a" "es = take k ds @ ys" "k \<le> length ds"
      "\<forall>x \<in> set ds \<union> set ys. good v x" "length es = k + length ys"
    using assms(1) by (rule holds_bytes)
  have v: "fs_version (aof_state a) = v" using fixed_repD(2) [OF r(1)] .
  obtain a' where a': "aof_append a (wr v x) = Inr a'" "fixed_rep v esize (map (wr v) ds) k (map (wr v) (ys @ [x])) a'"
    using fixed_append [OF r(1) elmt_size [OF assms(2)]] by auto
  then have "holds v ds (es @ [x]) a'" unfolding holds_def using r(2,4) assms(2) by (intro exI [of _ k] exI [of _ "ys @ [x]"]) auto
  then show ?thesis using a'(1) v holds_size(1) [of v ds "es @ [x]" a'] by (simp add: df_append_def append_elmt_def ser_vec_def)
qed

lemma holds_rewind:
  assumes "holds v ds es a" "pending_free a" "m \<le> length es"
  shows "holds v ds (take m es) (aof_rewind a m) \<and> pending_free (aof_rewind a m)"
proof -
  obtain k ys where r: "fixed_rep v esize (map (wr v) ds) k (map (wr v) ys) a" "es = take k ds @ ys" "k \<le> length ds"
      "\<forall>x \<in> set ds \<union> set ys. good v x"
    using assms(1) by (rule holds_bytes)
  have "concat (map (wr v) ys) = []" using r(1) assms(2) by (simp add: fixed_rep_def pending_free_def del: concat_eq_Nil_conv)
  then have ys: "ys = []" using r(4) elmt_size elmt_pos by (cases ys) auto
  have "fixed_rep v esize (map (wr v) ds) m [] (aof_rewind a m)" using fixed_rewind [of v esize "map (wr v) ds" k a m] r(1,2,3) ys assms(3) by simp
  moreover have "take m es = take m ds" using r(2,3) ys assms(3) by (simp add: min_absorb1)
  ultimately show ?thesis unfolding holds_def pending_free_def using r(4)
    by (auto intro!: exI [of _ m] exI [of _ "[]"] simp: fixed_rep_def)
qed

lemma holds_flush:
  assumes "holds v ds es a"
  shows "\<exists>a'. aof_flush a = Inr a' \<and> clean v es a'"
proof -
  obtain k ys where r: "fixed_rep v esize (map (wr v) ds) k (map (wr v) ys) a" "take k (map (wr v) ds) @ map (wr v) ys = map (wr v) es"
    using assms(1) by (rule holds_bytes)
  then show ?thesis using fixed_flush_synced [OF r(1)] holds_good [OF assms] by (simp add: clean_def)
qed

lemma holds_discard:
  assumes "holds v ds es a"
  shows "holds v ds ds (aof_discard a) \<and> pending_free (aof_discard a)"
proof -
  obtain k ys where r: "fixed_rep v esize (map (wr v) ds) k (map (wr v) ys) a" "\<forall>x \<in> set ds \<union> set ys. good v x"
    using assms(1) by (rule holds_bytes)
  have "fixed_rep v esize (map (wr v) ds) (length ds) [] (aof_discard a)" using fixed_discard [OF r(1)] by simp
  then show ?thesis unfolding holds_def pending_free_def using r(2)
    by (auto intro!: exI [of _ "length ds"] exI [of _ "[]"] simp: fixed_rep_def)
qed

lemma clean_save_prune:
  assumes "clean v es a" "sorted_wrt (<) P" "length es * esize < 2 ^ 64"
  shows "\<exists>a'. df_save_prune wr rd a (map Suc P) = Some a' \<and> clean v (nths es {i. i \<notin> set P}) a'"
proof -
  have "map (\<lambda>x. x - 1) (map Suc P) = P" by (simp add: comp_def)
  moreover have "\<forall>r. rd_source r = [] \<longrightarrow> (\<exists>e. rd r = Inl e)" using elmt_eof by blast
  moreover have "codec wr rd good" by unfold_locales
  ultimately show ?thesis using fixed_save_prune [of wr rd good es v esize a P] assms
    by (auto simp: df_save_prune_def clean_def dest: in_set_nthsD)
qed

end


interpretation hashf: fixed_elmt "\<lambda>_. write_hash" read_hash "\<lambda>_ h. length h = 32" 32
  by unfold_locales (auto simp: write_hash_def read_hash_def read_fixed_bytes_def read_exact_def hash_LEN_def split: reader_kind.splits)

section \<open>What the files keep\<close>

definition kept_pos :: "nat set \<Rightarrow> nat set" where
  "kept_pos L = {i. Suc i \<notin> compacted_set L}"

definition kept_leaf :: "nat set \<Rightarrow> nat set" where
  "kept_leaf L = {i. node_pos 0 i \<notin> compacted_set L}"

lemma card_split_below: "card {i. i < m \<and> P i} + card {i. i < m \<and> \<not> P i} = (m::nat)"
proof -
  have "card ({i. i < m \<and> P i} \<union> {i. i < m \<and> \<not> P i}) = card {i. i < m \<and> P i} + card {i. i < m \<and> \<not> P i}"
    by (rule card_Un_disjoint) auto
  moreover have "{i. i < m \<and> P i} \<union> {i. i < m \<and> \<not> P i} = {..<m}" by auto
  ultimately show ?thesis by simp
qed

lemma kept_rank: "card {i \<in> kept_pos L. i < p} = p - card {q \<in> compacted_set L. q \<le> p}"
proof -
  have "{q \<in> compacted_set L. q \<le> p} = Suc ` {i. i < p \<and> Suc i \<in> compacted_set L}"
  proof (intro equalityI subsetI)
    fix q
    assume q: "q \<in> {q \<in> compacted_set L. q \<le> p}"
    then obtain i where "q = Suc i" using zero_notin(3) [of L] by (cases q) auto
    then show "q \<in> Suc ` {i. i < p \<and> Suc i \<in> compacted_set L}" using q by auto
  qed auto
  then have "card {q \<in> compacted_set L. q \<le> p} = card {i. i < p \<and> Suc i \<in> compacted_set L}" by (simp add: card_image)
  moreover have "{i \<in> kept_pos L. i < p} = {i. i < p \<and> Suc i \<notin> compacted_set L}" by (auto simp: kept_pos_def)
  ultimately show ?thesis using card_split_below [of p "\<lambda>i. Suc i \<in> compacted_set L"] by simp
qed

lemma leaf_iff: "0 < q \<Longrightarrow> q \<le> 2 ^ 64 \<Longrightarrow> is_leaf q \<longleftrightarrow> (\<exists>i. q = node_pos 0 i)"
  using is_leaf_node_pos by (metis node_pos_exists node_pos_eq)

lemma kept_leaf_rank:
  assumes "\<And>k. node_pos 0 k \<le> p \<longleftrightarrow> k < m" "p \<le> 2 ^ 64"
  shows "card {i \<in> kept_leaf L. i < m} = m - card {q \<in> compacted_set L. is_leaf q \<and> q \<le> p}"
    and "card {q \<in> compacted_set L. is_leaf q \<and> q \<le> p} \<le> m"
proof -
  have "{q \<in> compacted_set L. is_leaf q \<and> q \<le> p} = node_pos 0 ` {i. i < m \<and> node_pos 0 i \<in> compacted_set L}"
  proof (intro equalityI subsetI)
    fix q
    assume q: "q \<in> {q \<in> compacted_set L. is_leaf q \<and> q \<le> p}"
    then have "0 < q" using zero_notin(3) [of L] by (auto intro: gr0I)
    then obtain i where "q = node_pos 0 i" using q leaf_iff [of q] assms(2) by auto
    then show "q \<in> node_pos 0 ` {i. i < m \<and> node_pos 0 i \<in> compacted_set L}" using q assms(1) by auto
  next
    fix q
    assume "q \<in> node_pos 0 ` {i. i < m \<and> node_pos 0 i \<in> compacted_set L}"
    then obtain i where i: "q = node_pos 0 i" "i < m" "q \<in> compacted_set L" by auto
    then have "q \<le> p" using assms(1) by simp
    then show "q \<in> {q \<in> compacted_set L. is_leaf q \<and> q \<le> p}" using i(1,3) leaf_iff [of q] assms(2) by auto
  qed
  moreover have "inj_on (node_pos 0) A" for A by (simp add: inj_on_def)
  ultimately have "card {q \<in> compacted_set L. is_leaf q \<and> q \<le> p} = card {i. i < m \<and> node_pos 0 i \<in> compacted_set L}"
    by (simp only: card_image)
  moreover have "{i \<in> kept_leaf L. i < m} = {i. i < m \<and> node_pos 0 i \<notin> compacted_set L}" by (auto simp: kept_leaf_def)
  ultimately show "card {i \<in> kept_leaf L. i < m} = m - card {q \<in> compacted_set L. is_leaf q \<and> q \<le> p}"
      "card {q \<in> compacted_set L. is_leaf q \<and> q \<le> p} \<le> m"
    using card_split_below [of m "\<lambda>i. node_pos 0 i \<in> compacted_set L"] by simp_all
qed

lemma leaf_le_leaf: "node_pos 0 k \<le> node_pos 0 i \<longleftrightarrow> k < Suc i"
  using last_leaf_mono_node_pos [of 0 k 0 i] last_leaf_mono_node_pos [of 0 i 0 k]
  by (cases k i rule: linorder_cases) (auto simp: last_leaf_def)

lemma leaf_le_size: "node_pos 0 k \<le> mmr_size m \<longleftrightarrow> k < m"
  using node_pos_le_mmr_size [of 0 k m] by auto

lemma compacted_bound: "L \<subseteq> {..<m} \<Longrightarrow> q \<in> compacted_set L \<Longrightarrow> q < mmr_size m"
proof -
  assume a: "L \<subseteq> {..<m}" "q \<in> compacted_set L"
  then obtain h j where q: "q = node_pos h j" "full L (Suc h) (j div 2)" by (auto simp: compacted_set_def)
  have "node_pos (Suc h) (j div 2) \<le> mmr_size m" by (rule full_bound [OF a(1) q(2)])
  then show "q < mmr_size m" using node_pos_parent_gt [of h j] q(1) by linarith
qed

lemma size_not_compacted: "L \<subseteq> {..<m} \<Longrightarrow> mmr_size m \<notin> compacted_set L"
  using compacted_bound by blast


section \<open>The represented range\<close>

text \<open>
  A range on disk and with what is pending: the elements of the leaves, the hashes of all nodes, and the positions of the
  leaves that are not removed.
\<close>

record 'e range_state =
  rs_data :: "'e list"
  rs_hashes :: "hash list"
  rs_leaves :: "nat set"

definition range_ok :: "nat set \<Rightarrow> 'e range_state \<Rightarrow> bool" where
  "range_ok L r \<longleftrightarrow> length (rs_hashes r) = mmr_size (length (rs_data r)) \<and> mmr_size (length (rs_data r)) < 2 ^ 31
    \<and> L \<subseteq> {..<length (rs_data r)} \<and> rs_leaves r \<subseteq> node_pos 0 ` ({..<length (rs_data r)} - L)"

lemma range_ok_small: "range_ok L r \<Longrightarrow> small L"
  by (auto simp: range_ok_def small_def)

lemma range_ok_leaf:
  assumes "range_ok L r" "q \<in> rs_leaves r"
  obtains i where "q = node_pos 0 i" "i < length (rs_data r)" "i \<notin> L" "q \<notin> compacted_set L" "q < 2 ^ 31"
proof -
  obtain i where i: "q = node_pos 0 i" "i < length (rs_data r)" "i \<notin> L" using assms by (auto simp: range_ok_def)
  have "q \<notin> compacted_set L" using i by (simp add: full_parent)
  moreover have "q < 2 ^ 31" using i leaf_le_size [of i "length (rs_data r)"] assms(1) by (simp add: range_ok_def)
  ultimately show ?thesis by (rule that [OF i])
qed

lemma range_ok_finite: "range_ok L r \<Longrightarrow> finite (rs_leaves r)"
  unfolding range_ok_def by (elim conjE, erule finite_subset) simp

context fixed_elmt
begin

definition backend_rep :: "version \<Rightarrow> nat set \<Rightarrow> 'e range_state \<Rightarrow> 'e range_state \<Rightarrow> pmmr_backend \<Rightarrow> bool" where
  "backend_rep v L r0 r b \<longleftrightarrow> pb_prunable b \<and> range_ok L r0 \<and> range_ok L r \<and> pl_caches L (pb_prune_list b)
    \<and> ls_bitmap (pb_leaf_set b) = rs_leaves r \<and> ls_bitmap_bak (pb_leaf_set b) = rs_leaves r0
    \<and> ls_file (pb_leaf_set b) = rs_leaves r0 \<and> pl_file (pb_prune_list b) = Some (root_set L)
    \<and> hashf.holds v (nths (rs_hashes r0) (kept_pos L)) (nths (rs_hashes r) (kept_pos L)) (pb_hash_file b)
    \<and> holds v (nths (rs_data r0) (kept_leaf L)) (nths (rs_data r) (kept_leaf L)) (pb_data_file b)"

definition idle :: "pmmr_backend \<Rightarrow> bool" where
  "idle b \<longleftrightarrow> hashf.pending_free (pb_hash_file b) \<and> pending_free (pb_data_file b)"

lemma repD:
  assumes "backend_rep v L r0 r b"
  shows "hashf.holds v (nths (rs_hashes r0) (kept_pos L)) (nths (rs_hashes r) (kept_pos L)) (pb_hash_file b)"
    and "holds v (nths (rs_data r0) (kept_leaf L)) (nths (rs_data r) (kept_leaf L)) (pb_data_file b)"
    and "range_ok L r" "pb_prunable b" "pl_caches L (pb_prune_list b)"
  using assms by (simp_all add: backend_rep_def)

lemma rep_is_compacted:
  assumes "backend_rep v L r0 r b" "0 < pos" "pos < 2 ^ 32"
  shows "is_compacted b pos = Some (pos \<in> compacted_set L)"
proof -
  have "pl_ok L (pb_prune_list b)" using assms(1) by (simp add: backend_rep_def pl_caches_def)
  then show ?thesis using is_pruned_eq [of L "pb_prune_list b" pos] assms(2,3)
    by (auto simp: is_compacted_def pb_is_pruned_def pb_is_pruned_root_def compacted_set_eq)
qed

lemma rep_get_from_file:
  assumes "backend_rep v L r0 r b" "0 < pos" "pos < 2 ^ 32"
  shows "pb_get_from_file b pos = Some (if pos \<le> length (rs_hashes r) \<and> pos \<notin> compacted_set L then Some (rs_hashes r ! (pos - 1)) else None)"
proof (cases "pos \<in> compacted_set L")
  case False
  have rep: "hashf.holds v (nths (rs_hashes r0) (kept_pos L)) (nths (rs_hashes r) (kept_pos L)) (pb_hash_file b)"
    and ok: "range_ok L r" and pl: "pl_caches L (pb_prune_list b)" using assms(1) by (simp_all add: backend_rep_def)
  have mem: "pos - 1 \<in> kept_pos L" using False assms(2) by (simp add: kept_pos_def)
  then have "{i \<in> kept_pos L. i < pos} = insert (pos - 1) {i \<in> kept_pos L. i < pos - 1}" using assms(2) by auto
  then have idx: "pos - card {q \<in> compacted_set L. q \<le> pos} = Suc (card {i \<in> kept_pos L. i < pos - 1})" using kept_rank [of L pos] by simp
  have "pb_get_from_file b pos = Some (df_read read_hash (pb_hash_file b) (pos - card {q \<in> compacted_set L. q \<le> pos}))"
    using rep_is_compacted [OF assms] get_shift_eq(1) [OF pl False assms(3)] False by (simp add: pb_get_from_file_def)
  moreover have "length (rs_hashes r) < 2 ^ 64 - 1" using ok by (simp add: range_ok_def)
  ultimately show ?thesis unfolding idx using hashf.holds_kept_read [OF rep _ mem] False assms(2) by auto
qed (use rep_is_compacted [OF assms] in \<open>simp add: pb_get_from_file_def\<close>)

lemma rep_get_data_from_file:
  assumes "backend_rep v L r0 r b" "node_pos 0 i < 2 ^ 32"
  shows "pb_get_data_from_file rd b (node_pos 0 i)
    = Some (if i < length (rs_data r) \<and> node_pos 0 i \<notin> compacted_set L then Some (rs_data r ! i) else None)"
proof (cases "node_pos 0 i \<in> compacted_set L")
  case False
  have rep: "holds v (nths (rs_data r0) (kept_leaf L)) (nths (rs_data r) (kept_leaf L)) (pb_data_file b)"
    and ok: "range_ok L r" and pl: "pl_caches L (pb_prune_list b)" using assms(1) by (simp_all add: backend_rep_def)
  have mem: "i \<in> kept_leaf L" using False by (simp add: kept_leaf_def)
  then have "{k \<in> kept_leaf L. k < Suc i} = insert i {k \<in> kept_leaf L. k < i}" by auto
  then have idx: "Suc i - card {q \<in> compacted_set L. is_leaf q \<and> q \<le> node_pos 0 i} = Suc (card {k \<in> kept_leaf L. k < i})"
    using kept_leaf_rank(1) [of "node_pos 0 i" "Suc i" L] leaf_le_leaf assms(2) by simp
  have "is_leaf (node_pos 0 i)" "n_leaves (node_pos 0 i) = Suc i" using assms(2) is_leaf_node_pos [of 0 i] n_leaves_leaf [of i] by simp_all
  then have "pb_get_data_from_file rd b (node_pos 0 i) = Some (df_read rd (pb_data_file b) (Suc i - card {q \<in> compacted_set L. is_leaf q \<and> q \<le> node_pos 0 i}))"
    using rep_is_compacted [OF assms(1) _ assms(2)] get_shift_eq(2) [OF pl False assms(2)] False by (simp add: pb_get_data_from_file_def)
  moreover have "length (rs_data r) < 2 ^ 64 - 1" using ok le_mmr_size [of "length (rs_data r)"] by (simp add: range_ok_def)
  ultimately show ?thesis unfolding idx using holds_kept_read [OF rep _ mem] False by simp
qed (use rep_is_compacted [OF assms(1) _ assms(2)] in \<open>simp add: pb_get_data_from_file_def\<close>)

lemma rep_includes:
  assumes "backend_rep v L r0 r b" "pos < 2 ^ 32"
  shows "leaf_set_includes (pb_leaf_set b) pos \<longleftrightarrow> pos \<in> rs_leaves r"
  using assms as_u32_id [OF assms(2)] by (simp add: leaf_set_includes_def backend_rep_def)

text \<open>The hash and the data of a leaf are there exactly while it is not removed.\<close>

lemma rep_leaf_reads:
  assumes "backend_rep v L r0 r b" "node_pos 0 i < 2 ^ 32"
  shows "pb_get_data rd b (node_pos 0 i) = Some (if node_pos 0 i \<in> rs_leaves r then Some (rs_data r ! i) else None)"
    and "pb_get_hash b (node_pos 0 i) = Some (if node_pos 0 i \<in> rs_leaves r then Some (rs_hashes r ! (node_pos 0 i - 1)) else None)"
proof -
  have ok: "range_ok L r" "pb_prunable b" using assms(1) by (simp_all add: backend_rep_def)
  have leaf: "is_leaf (node_pos 0 i)" using assms(2) is_leaf_node_pos [of 0 i] by simp
  have in_range: "i < length (rs_data r) \<and> node_pos 0 i \<notin> compacted_set L \<and> node_pos 0 i \<le> length (rs_hashes r)" if "node_pos 0 i \<in> rs_leaves r"
  proof -
    have i: "i < length (rs_data r)" "node_pos 0 i \<notin> compacted_set L" using range_ok_leaf [OF ok(1) that] by auto
    then show ?thesis using leaf_le_size ok(1) by (simp add: range_ok_def)
  qed
  show "pb_get_data rd b (node_pos 0 i) = Some (if node_pos 0 i \<in> rs_leaves r then Some (rs_data r ! i) else None)"
    using in_range rep_get_data_from_file [OF assms] rep_includes [OF assms] leaf ok(2) by (simp add: pb_get_data_def)
  show "pb_get_hash b (node_pos 0 i) = Some (if node_pos 0 i \<in> rs_leaves r then Some (rs_hashes r ! (node_pos 0 i - 1)) else None)"
    using in_range rep_get_from_file [OF assms(1) _ assms(2)] rep_includes [OF assms] leaf ok(2) by (simp add: pb_get_hash_def)
qed

lemma append_hashes_holds:
  "hashf.holds v ds es a \<Longrightarrow> \<forall>h \<in> set hs. length h = 32 \<Longrightarrow> \<exists>a'. append_hashes a hs = Inr a' \<and> hashf.holds v ds (es @ hs) a'"
proof (induction hs arbitrary: es a)
  case (Cons h hs)
  obtain a1 where a1: "df_append (\<lambda>_. write_hash) a h = Inr (Suc (length es), a1)" "hashf.holds v ds (es @ [h]) a1"
    using hashf.holds_append [OF Cons.prems(1)] Cons.prems(2) by auto
  then show ?case using Cons.IH [OF a1(2)] Cons.prems(2) by simp
qed simp

definition rs_append :: "'e range_state \<Rightarrow> 'e \<Rightarrow> hash list \<Rightarrow> 'e range_state" where
  "rs_append r x hs = \<lparr>rs_data = rs_data r @ [x], rs_hashes = rs_hashes r @ hs,
     rs_leaves = insert (node_pos 0 (length (rs_data r))) (rs_leaves r)\<rparr>"

lemma range_ok_append:
  assumes "range_ok L r" "length (rs_hashes r @ hs) = mmr_size (Suc (length (rs_data r)))" "mmr_size (Suc (length (rs_data r))) < 2 ^ 31"
  shows "range_ok L (rs_append r x hs)"
  using assms unfolding range_ok_def rs_append_def by (auto simp: less_Suc_eq)

lemma rep_append:
  assumes "backend_rep v L r0 r b" "good v (as_elmt x)" "\<forall>h \<in> set hs. length h = 32"
    "length (rs_hashes r @ hs) = mmr_size (Suc (length (rs_data r)))" "mmr_size (Suc (length (rs_data r))) < 2 ^ 31"
  shows "\<exists>b'. pb_append wr as_elmt b x hs = Some (Inr b') \<and> backend_rep v L r0 (rs_append r (as_elmt x) hs) b'"
proof -
  let ?n = "length (rs_data r)"
  have ok: "range_ok L r" "pb_prunable b" and pl: "pl_caches L (pb_prune_list b)" using assms(1) by (simp_all add: backend_rep_def)
  have sub: "L \<subseteq> {..<?n}" using ok(1) by (simp add: range_ok_def)
  obtain df where df: "df_append wr (pb_data_file b) (as_elmt x) = Inr (Suc (length (nths (rs_data r) (kept_leaf L))), df)"
      "holds v (nths (rs_data r0) (kept_leaf L)) (nths (rs_data r) (kept_leaf L) @ [as_elmt x]) df"
    using holds_append [OF repD(2) [OF assms(1)] assms(2)] by blast
  obtain hf where hf: "append_hashes (pb_hash_file b) hs = Inr hf"
      "hashf.holds v (nths (rs_hashes r0) (kept_pos L)) (nths (rs_hashes r) (kept_pos L) @ hs) hf"
    using append_hashes_holds [OF repD(1) [OF assms(1)] assms(3)] by blast
  have "node_pos 0 (j + ?n) \<notin> compacted_set L" for j
    using compacted_bound [OF sub, of "node_pos 0 (j + ?n)"] leaf_le_size [of "j + ?n" ?n] by (auto dest: less_imp_le)
  then have kd: "nths (rs_data r @ [as_elmt x]) (kept_leaf L) = nths (rs_data r) (kept_leaf L) @ [as_elmt x]"
    by (intro nths_app_all) (simp only: kept_leaf_def mem_Collect_eq not_False_eq_True)
  have "Suc (j + length (rs_hashes r)) \<notin> compacted_set L" for j
    using compacted_bound [OF sub, of "Suc (j + length (rs_hashes r))"] ok(1) by (auto simp: range_ok_def)
  then have kh: "nths (rs_hashes r @ hs) (kept_pos L) = nths (rs_hashes r) (kept_pos L) @ hs"
    by (intro nths_app_all) (simp add: kept_pos_def)
  have all: "{q \<in> compacted_set L. is_leaf q \<and> q \<le> mmr_size ?n} = {q \<in> compacted_set L. is_leaf q}"
    using compacted_bound [OF sub] by (auto dest: less_imp_le)
  have "length (nths (rs_data r) (kept_leaf L)) = card {i \<in> kept_leaf L. i < ?n}" using length_nths_take [of ?n "rs_data r"] by simp
  also have "\<dots> = ?n - card {q \<in> compacted_set L. is_leaf q \<and> q \<le> mmr_size ?n}"
    using kept_leaf_rank(1) [of "mmr_size ?n" ?n L] leaf_le_size ok(1) by (simp add: range_ok_def)
  finally have "length (nths (rs_data r) (kept_leaf L)) = ?n - card {q \<in> compacted_set L. is_leaf q}" unfolding all .
  moreover have "card {q \<in> compacted_set L. is_leaf q} \<le> ?n"
    using kept_leaf_rank(2) [of "mmr_size ?n" ?n L] leaf_le_size ok(1) all by (simp add: range_ok_def)
  ultimately have pos: "insertion_to_pmmr_index (Suc (length (nths (rs_data r) (kept_leaf L))) + card {q \<in> compacted_set L. is_leaf q}) = node_pos 0 ?n"
    using insertion_to_pmmr_index_node_pos [of ?n] by simp
  have "node_pos 0 ?n < 2 ^ 32" using leaf_le_size [of ?n "Suc ?n"] assms(5) by simp
  then have u32: "as_u32 (node_pos 0 ?n) = node_pos 0 ?n" by (rule as_u32_id)
  let ?b = "b\<lparr>pb_data_file := df, pb_hash_file := hf, pb_leaf_set := leaf_set_add (pb_leaf_set b) (node_pos 0 ?n)\<rparr>"
  have "pb_append wr as_elmt b x hs = Some (Inr ?b)"
    using df(1) hf(1) ok(2) total_shift_eq(2) [OF pl] pos by (simp add: pb_append_def)
  moreover have "backend_rep v L r0 (rs_append r (as_elmt x) hs) ?b"
    using assms(1) df(2) hf(2) kd kh u32 range_ok_append [OF ok(1) assms(4,5), of "as_elmt x"]
    by (simp add: backend_rep_def rs_append_def leaf_set_add_def)
  ultimately show ?thesis by blast
qed

lemma rep_remove:
  assumes "backend_rep v L r0 r b"
  shows "\<exists>b'. pb_remove b pos = Some (Inr b') \<and> backend_rep v L r0 (r\<lparr>rs_leaves := rs_leaves r - {as_u32 pos}\<rparr>) b'
    \<and> pb_hash_file b' = pb_hash_file b \<and> pb_data_file b' = pb_data_file b"
  using assms by (auto simp: backend_rep_def pb_remove_def leaf_set_remove_def range_ok_def)

definition rs_rewind :: "'e range_state \<Rightarrow> nat \<Rightarrow> nat set \<Rightarrow> 'e range_state" where
  "rs_rewind r m rm = \<lparr>rs_data = take m (rs_data r), rs_hashes = take (mmr_size m) (rs_hashes r),
     rs_leaves = {p \<in> rs_leaves r. p \<le> mmr_size m} \<union> rm\<rparr>"

lemma range_ok_rewind:
  assumes "range_ok L r" "m \<le> length (rs_data r)" "L \<subseteq> {..<m}" "rm \<subseteq> node_pos 0 ` ({..<m} - L)"
  shows "range_ok L (rs_rewind r m rm)"
proof -
  have "mmr_size m \<le> mmr_size (length (rs_data r))" using assms(2) by simp
  then have "mmr_size m < 2 ^ 31" using assms(1) unfolding range_ok_def by linarith
  moreover have "{p \<in> rs_leaves r. p \<le> mmr_size m} \<subseteq> node_pos 0 ` ({..<m} - L)"
    using assms(1) leaf_le_size [of _ m] by (auto simp: range_ok_def)
  ultimately show ?thesis using assms by (auto simp: range_ok_def rs_rewind_def min_absorb2)
qed

lemma rep_rewind:
  assumes "backend_rep v L r0 r b" "idle b" "m \<le> length (rs_data r)" "L \<subseteq> {..<m}" "rm \<subseteq> node_pos 0 ` ({..<m} - L)"
  shows "\<exists>b'. pb_rewind b (mmr_size m) rm = Some (Inr b') \<and> backend_rep v L r0 (rs_rewind r m rm) b' \<and> idle b'"
proof -
  have ok: "range_ok L r" "pb_prunable b" and pl: "pl_caches L (pb_prune_list b)" using assms(1) by (simp_all add: backend_rep_def)
  have len: "length (rs_hashes r) = mmr_size (length (rs_data r))" "mmr_size m \<le> mmr_size (length (rs_data r))"
    using ok(1) assms(3) by (simp_all add: range_ok_def)
  then have sz: "mmr_size m < 2 ^ 31" using ok(1) unfolding range_ok_def by linarith
  note nc = size_not_compacted [OF assms(4)]
  let ?hc = "card {i \<in> kept_pos L. i < mmr_size m}" and ?dc = "card {i \<in> kept_leaf L. i < m}"
  have shifts: "get_shift (pb_prune_list b) (mmr_size m) = Some (card {q \<in> compacted_set L. q \<le> mmr_size m})"
      "get_leaf_shift (pb_prune_list b) (mmr_size m) = Some (card {q \<in> compacted_set L. is_leaf q \<and> q \<le> mmr_size m})"
    using get_shift_eq [OF pl nc] sz by simp_all
  have hr: "mmr_size m - card {q \<in> compacted_set L. q \<le> mmr_size m} = ?hc" using kept_rank by simp
  have dr: "m - card {q \<in> compacted_set L. is_leaf q \<and> q \<le> mmr_size m} = ?dc"
    using kept_leaf_rank(1) [of "mmr_size m" m L] leaf_le_size sz by simp
  have le: "?hc \<le> length (nths (rs_hashes r) (kept_pos L))" "?dc \<le> length (nths (rs_data r) (kept_leaf L))"
    using nths_split [of "mmr_size m" "rs_hashes r" "kept_pos L"] length_nths_take [of "mmr_size m" "rs_hashes r" "kept_pos L"]
      nths_split [of m "rs_data r" "kept_leaf L"] length_nths_take [of m "rs_data r" "kept_leaf L"] len assms(3) by simp_all
  have h: "hashf.holds v (nths (rs_hashes r0) (kept_pos L)) (nths (take (mmr_size m) (rs_hashes r)) (kept_pos L)) (aof_rewind (pb_hash_file b) ?hc)
      \<and> hashf.pending_free (aof_rewind (pb_hash_file b) ?hc)"
    using hashf.holds_rewind [OF repD(1) [OF assms(1)] _ le(1)] assms(2) len nths_take [of "mmr_size m" "rs_hashes r"] by (simp add: idle_def)
  have d: "holds v (nths (rs_data r0) (kept_leaf L)) (nths (take m (rs_data r)) (kept_leaf L)) (aof_rewind (pb_data_file b) ?dc)
      \<and> pending_free (aof_rewind (pb_data_file b) ?dc)"
    using holds_rewind [OF repD(2) [OF assms(1)] _ le(2)] assms(2,3) nths_take [of m "rs_data r"] by (simp add: idle_def)
  have nl: "n_leaves (mmr_size m) = m" using sz by simp
  let ?b = "b\<lparr>pb_leaf_set := leaf_set_rewind (pb_leaf_set b) (mmr_size m) rm,
     pb_hash_file := aof_rewind (pb_hash_file b) ?hc, pb_data_file := aof_rewind (pb_data_file b) ?dc\<rparr>"
  have "pb_rewind b (mmr_size m) rm = Some (Inr ?b)" using ok(2) shifts hr dr nl by (simp add: pb_rewind_def Let_def)
  moreover have "ls_bitmap (leaf_set_rewind (pb_leaf_set b) (mmr_size m) rm) = rs_leaves (rs_rewind r m rm)"
    using ls_bitmap_rewind [of "pb_leaf_set b" "mmr_size m" rm] assms(1) range_ok_finite [OF ok(1)] sz by (simp add: backend_rep_def rs_rewind_def)
  then have "backend_rep v L r0 (rs_rewind r m rm) ?b"
    using assms(1) h d range_ok_rewind [OF ok(1) assms(3-5)]
    by (simp add: backend_rep_def) (simp add: rs_rewind_def leaf_set_rewind_def Let_def)
  ultimately show ?thesis using h d by (simp add: idle_def)
qed

lemma rep_sync:
  assumes "backend_rep v L r0 r b"
  shows "\<exists>b'. pb_sync b = Inr b' \<and> backend_rep v L r r b' \<and> idle b'
    \<and> hashf.clean v (nths (rs_hashes r) (kept_pos L)) (pb_hash_file b') \<and> clean v (nths (rs_data r) (kept_leaf L)) (pb_data_file b')"
proof -
  obtain hf df where f: "aof_flush (pb_hash_file b) = Inr hf" "hashf.clean v (nths (rs_hashes r) (kept_pos L)) hf"
      "aof_flush (pb_data_file b) = Inr df" "clean v (nths (rs_data r) (kept_leaf L)) df"
    using hashf.holds_flush [OF repD(1) [OF assms]] holds_flush [OF repD(2) [OF assms]] by blast
  then show ?thesis using assms hashf.clean_holds [OF f(2)] clean_holds [OF f(4)]
    by (simp add: pb_sync_def sync_leaf_set_def backend_rep_def idle_def leaf_set_flush_def)
qed

lemma rep_discard:
  assumes "backend_rep v L r0 r b"
  shows "backend_rep v L r0 r0 (pb_discard b) \<and> idle (pb_discard b)"
  using assms hashf.holds_discard [OF repD(1) [OF assms]] holds_discard [OF repD(2) [OF assms]]
  by (simp add: backend_rep_def idle_def pb_discard_def leaf_set_discard_def)

end


section \<open>What a compaction removes\<close>

text \<open>
  The nodes collected while the leaves \<open>M\<close> are removed: those that become pruned, and the old roots below them.
\<close>

definition expanded_set :: "nat set \<Rightarrow> nat set \<Rightarrow> nat set" where
  "expanded_set L M = {p. \<exists>k m. p = node_pos k m \<and> (full (L \<union> M) k m \<and> \<not> full L k m
     \<or> node_pos k m \<in> root_set L \<and> full (L \<union> M) (Suc k) (m div 2))}"

lemma in_expanded_set [simp]: "node_pos k m \<in> expanded_set L M \<longleftrightarrow> full (L \<union> M) k m \<and> \<not> full L k m
    \<or> node_pos k m \<in> root_set L \<and> full (L \<union> M) (Suc k) (m div 2)"
  by (auto simp: expanded_set_def)

lemma zero_expanded [simp]: "0 \<notin> expanded_set L M"
  by (auto simp: expanded_set_def)

lemma expanded_set_empty: "expanded_set L {} = {}"
proof -
  have "p \<notin> expanded_set L {}" for p
    by (cases "p = 0") (auto elim!: node_pos_exists [of p])
  then show ?thesis by blast
qed

lemma set_eq_nodes: "0 \<notin> A \<Longrightarrow> 0 \<notin> B \<Longrightarrow> (\<And>k m. node_pos k m \<in> A \<longleftrightarrow> node_pos k m \<in> B) \<Longrightarrow> A = B"
  by (metis gr0I node_pos_exists set_eqI)

text \<open>What one climb from the new leaf \<open>i\<close> up to height \<open>h\<close> adds.\<close>

definition climbed :: "nat set \<Rightarrow> nat \<Rightarrow> nat \<Rightarrow> nat set" where
  "climbed L i h = {node_pos k (i div 2 ^ k) | k. k \<le> h} \<union> {node_pos k (sib (i div 2 ^ k)) | k. k < h \<and> node_pos k (sib (i div 2 ^ k)) \<in> root_set L}"

lemma in_climbed: "node_pos k m \<in> climbed L i h \<longleftrightarrow> k \<le> h \<and> m = i div 2 ^ k \<or> k < h \<and> m = sib (i div 2 ^ k) \<and> node_pos k m \<in> root_set L"
  by (auto simp: climbed_def)

lemma expanded_insert:
  assumes "i \<notin> L \<union> M" "full (insert i (L \<union> M)) h (i div 2 ^ h)" "\<not> full (insert i (L \<union> M)) (Suc h) (i div 2 ^ Suc h)"
  shows "expanded_set L M \<union> climbed L i h = expanded_set L (insert i M)"
proof (rule set_eq_nodes)
  show "0 \<notin> expanded_set L M \<union> climbed L i h" by (auto simp: climbed_def)
  fix k m
  have on_path: "full (insert i (L \<union> M)) k (i div 2 ^ k) \<longleftrightarrow> k \<le> h" for k
    using full_path_le [of "insert i (L \<union> M)" h i k] full_path_le [of "insert i (L \<union> M)" k i "Suc h"] assms(2,3) by (metis not_less_eq_eq)
  then have fl: "full (L \<union> insert i M) k m \<longleftrightarrow> full (L \<union> M) k m \<or> m = i div 2 ^ k \<and> k \<le> h" for k m
    using full_insert [of i "L \<union> M" k m] by auto
  have notL: "\<not> full L k (i div 2 ^ k)" for k using full_path_le [of L k i 0] assms(1) by auto
  have "m div 2 = i div 2 ^ Suc k \<longleftrightarrow> m = i div 2 ^ k \<or> m = sib (i div 2 ^ k)" using sib_parent [of m "i div 2 ^ k"] by auto
  then show "node_pos k m \<in> expanded_set L M \<union> climbed L i h \<longleftrightarrow> node_pos k m \<in> expanded_set L (insert i M)"
    using fl [of k m] fl [of "Suc k" "m div 2"] notL [of k] by (auto simp: in_climbed Suc_le_eq)
qed simp

lemma expand_loop_eq:
  assumes "pl_ok L pl" "i \<notin> L \<union> M" "small (insert i (L \<union> M))"
  shows "full (insert i (L \<union> M)) h (i div 2 ^ h) \<Longrightarrow>
    expand_loop pl (expanded_set L M \<union> climbed L i h) (node_pos h (i div 2 ^ h)) = Some (expanded_set L (insert i M))"
proof (induction "2 ^ 31 - node_pos h (i div 2 ^ h)" arbitrary: h rule: less_induct)
  case less
  let ?j = "i div 2 ^ h"
  let ?E = "expanded_set L M \<union> climbed L i h" and ?s = "node_pos h (sib ?j)" and ?p = "node_pos (Suc h) (i div 2 ^ Suc h)"
  have lt: "node_pos h ?j < 2 ^ 31" by (rule small_node [OF assms(3) less.prems])
  then have fam: "family (node_pos h ?j) = (?p, ?s)" using family_node_pos [of h ?j] by simp
  have s32: "?s < 2 ^ 32" and sibl: "as_u32 ?s = ?s" using lt node_pos_sib_less [of h ?j] by (auto intro!: as_u32_id)
  have root: "is_pruned_root pl ?s = Some (?s \<in> root_set L)" using is_pruned_eq(2) [OF assms(1) _ s32] by simp
  have up: "full (insert i (L \<union> M)) (Suc h) (i div 2 ^ Suc h) \<longleftrightarrow> full (L \<union> M) h (sib ?j)"
    using full_parent [of "insert i (L \<union> M)" h ?j] less.prems full_insert_off [of "sib ?j" i h "L \<union> M"] by simp
  have notL: "\<not> full A (Suc h) (i div 2 ^ Suc h)" if "i \<notin> A" for A using full_path_le [of A "Suc h" i 0] that by auto
  have "full (L \<union> M) h (sib ?j)" if "full L h (sib ?j)" using that by (auto simp: full_def)
  then have cond: "?s \<in> root_set L \<or> ?s \<in> ?E \<longleftrightarrow> full (L \<union> M) h (sib ?j)"
    using notL [of L] notL [of "L \<union> M"] assms(2) by (auto simp: in_climbed)
  have step: "expand_loop pl ?E (node_pos h ?j) = (if full (L \<union> M) h (sib ?j)
      then expand_loop pl (insert (as_u32 ?p) (if ?s \<in> root_set L then insert ?s ?E else ?E)) ?p else Some ?E)"
    using cond by (subst expand_loop.simps) (auto simp: fam root sibl Let_def simp del: in_root_set in_expanded_set)
  show ?case
  proof (cases "full (L \<union> M) h (sib ?j)")
    case True
    have full: "full (insert i (L \<union> M)) (Suc h) (i div 2 ^ Suc h)" using True up by simp
    then have p: "as_u32 ?p = ?p" using small_node [OF assms(3)] by (intro as_u32_id) fastforce
    have "insert ?p (if ?s \<in> root_set L then insert ?s ?E else ?E) = expanded_set L M \<union> climbed L i (Suc h)"
      by (auto simp: climbed_def le_Suc_eq less_Suc_eq simp del: in_root_set)
    moreover have "node_pos h ?j < ?p" using node_pos_parent_gt [of h ?j] by simp
    then have "2 ^ 31 - ?p < 2 ^ 31 - node_pos h ?j" using lt by linarith
    ultimately show ?thesis using less.hyps [OF _ full] True step p by (simp only: if_True)
  next
    case False
    then show ?thesis using step up expanded_insert [OF assms(2) less.prems] by simp
  qed
qed

lemma expand_all_eq:
  assumes "pl_ok L pl"
  shows "distinct is \<Longrightarrow> set is \<inter> (L \<union> M) = {} \<Longrightarrow> small (set is \<union> (L \<union> M)) \<Longrightarrow>
    expand_all pl (expanded_set L M) (map (node_pos 0) is) = Some (expanded_set L (set is \<union> M))"
proof (induction "is" arbitrary: M)
  case (Cons i "is")
  have sm: "small (insert i (L \<union> M))" using Cons.prems(3) by (rule small_mono) auto
  have "insert (node_pos 0 i) (expanded_set L M) = expanded_set L M \<union> climbed L i 0" by (auto simp: climbed_def)
  then have "expand_loop pl (insert (node_pos 0 i) (expanded_set L M)) (node_pos 0 i) = Some (expanded_set L (insert i M))"
    using expand_loop_eq [OF assms _ sm, of 0] Cons.prems(2) by simp
  moreover have "set is \<union> (L \<union> insert i M) = set (i # is) \<union> (L \<union> M)" "set is \<union> insert i M = set (i # is) \<union> M" by auto
  ultimately show ?case using Cons.IH [of "insert i M"] Cons.prems by auto
qed simp

lemma node_pos_parent_less: "node_pos (Suc k) (m div 2) < 2 * node_pos k m + 2"
  using node_pos_ge [of k m] by (cases "even m") (simp_all add: node_pos_parent_odd node_pos_parent_even del: power_Suc)

lemma removed_excl_roots_eq:
  assumes "small (L \<union> M)"
  shows "removed_excl_roots (expanded_set L M) = compacted_set (L \<union> M) - compacted_set L"
proof (rule set_eq_nodes)
  fix k m
  have "full (L \<union> M) a b" if "full L a b" for a b using that by (auto simp: full_def)
  moreover have fam: "as_u32 (fst (family (node_pos k m))) = node_pos (Suc k) (m div 2)" if "node_pos k m \<in> expanded_set L M"
  proof -
    have "full (L \<union> M) k m" using that full_parent [of "L \<union> M" k m] by auto
    then have lt: "node_pos k m < 2 ^ 31" by (rule small_node [OF assms])
    then have "node_pos (Suc k) (m div 2) < 2 ^ 32" using node_pos_parent_less [of k m] by simp
    then show ?thesis using family_node_pos [of k m] lt as_u32_id by simp
  qed
  ultimately show "node_pos k m \<in> removed_excl_roots (expanded_set L M) \<longleftrightarrow> node_pos k m \<in> compacted_set (L \<union> M) - compacted_set L"
    using full_parent [of L k m] full_parent [of "L \<union> M" k m] by (auto simp: removed_excl_roots_def)
qed (simp_all add: removed_excl_roots_def)

lemma bm_iter_leaves: "finite A \<Longrightarrow> bm_iter (node_pos 0 ` A) = map (node_pos 0) (sorted_list_of_set A)"
proof -
  assume "finite A"
  have "sorted_wrt (<) (sorted_list_of_set A)" by (simp add: strict_sorted_iff)
  moreover have "node_pos 0 x < node_pos 0 y" if "x < y" for x y using that leaf_le_leaf [of y x] by simp
  ultimately have "sorted_wrt (<) (map (node_pos 0) (sorted_list_of_set A))"
    unfolding sorted_wrt_map by (rule sorted_wrt_mono_rel [rotated])
  then have "sorted_list_of_set (set (map (node_pos 0) (sorted_list_of_set A))) = map (node_pos 0) (sorted_list_of_set A)"
    by (intro sorted_list_of_set.idem_if_sorted_distinct) (simp_all add: strict_sorted_iff)
  then show ?thesis using \<open>finite A\<close> by (simp add: bm_iter_def)
qed


lemma shifted_eq: "\<forall>p \<in> set ps. f p = Some (s p) \<Longrightarrow> shifted f flat ps = Some (map (\<lambda>p. flat p - s p) ps)"
  by (induction ps) simp_all

lemma filter_sorted_set: "finite A \<Longrightarrow> filter P (sorted_list_of_set A) = sorted_list_of_set {x \<in> A. P x}"
proof -
  assume "finite A"
  then have "sorted_list_of_set (set (filter P (sorted_list_of_set A))) = filter P (sorted_list_of_set A)"
    by (intro sorted_list_of_set.idem_if_sorted_distinct) (simp_all add: sorted_filter [of id, simplified])
  moreover have "set (filter P (sorted_list_of_set A)) = {x \<in> A. P x}" using \<open>finite A\<close> by auto
  ultimately show ?thesis by (simp only:)
qed

lemma ranks_sorted:
  assumes "sorted_wrt (<) js" "set js \<subseteq> A"
  shows "sorted_wrt (<) (map (\<lambda>j. card {k \<in> A. k < (j::nat)}) js)"
  unfolding sorted_wrt_map by (rule sorted_wrt_mono_rel [OF _ assms(1)]) (use assms(2) rank_mono in blast)

lemma compacted_mono: "L \<subseteq> M \<Longrightarrow> compacted_set L \<subseteq> compacted_set M"
  unfolding compacted_set_def full_def by blast

text \<open>The indices of the hash file and of the data file that a compaction drops.\<close>

lemma hash_indices:
  assumes "pl_caches L pl" "finite Q" "\<forall>q \<in> Q. 0 < q \<and> q < 2 ^ 32 \<and> q \<notin> compacted_set L"
  shows "\<exists>P. shifted (get_shift pl) (\<lambda>pos. pos) (bm_iter Q) = Some (map Suc P) \<and> sorted_wrt (<) P
    \<and> set P = (\<lambda>j. card {k \<in> kept_pos L. k < j}) ` {i. Suc i \<in> Q}"
proof -
  let ?js = "map (\<lambda>q. q - 1) (sorted_list_of_set Q)"
  let ?P = "map (\<lambda>j. card {k \<in> kept_pos L. k < j}) ?js"
  have Q: "set (sorted_list_of_set Q) = Q" using assms(2) by simp
  have "q - card {p \<in> compacted_set L. p \<le> q} = Suc (card {k \<in> kept_pos L. k < q - 1})" if "q \<in> Q" for q
  proof -
    have "q - 1 \<in> kept_pos L" "0 < q" using assms(3) that by (auto simp: kept_pos_def)
    then have "{k \<in> kept_pos L. k < q} = insert (q - 1) {k \<in> kept_pos L. k < q - 1}" by auto
    then show ?thesis using kept_rank [of L q] by simp
  qed
  then have "map (\<lambda>q. q - card {p \<in> compacted_set L. p \<le> q}) (sorted_list_of_set Q) = map Suc ?P"
    unfolding map_map comp_def by (intro map_cong refl) (simp only: Q)
  moreover have "shifted (get_shift pl) (\<lambda>pos. pos) (sorted_list_of_set Q)
      = Some (map (\<lambda>q. q - card {p \<in> compacted_set L. p \<le> q}) (sorted_list_of_set Q))"
    by (rule shifted_eq) (use get_shift_eq(1) [OF assms(1)] assms(3) Q in simp)
  moreover have "sorted_wrt (<) ?js"
  proof -
    have "sorted_wrt (<) (sorted_list_of_set Q)" by (simp add: strict_sorted_iff)
    then show ?thesis unfolding sorted_wrt_map by (rule sorted_wrt_mono_rel [rotated]) (use assms(3) Q in auto)
  qed
  then have "sorted_wrt (<) ?P" by (rule ranks_sorted) (use assms(3) Q in \<open>auto simp: kept_pos_def\<close>)
  moreover have "set ?js = {i. Suc i \<in> Q}" using assms(3) Q by (force simp: image_iff)
  then have "set ?P = (\<lambda>j. card {k \<in> kept_pos L. k < j}) ` {i. Suc i \<in> Q}" by (simp only: set_map)
  ultimately show ?thesis unfolding bm_iter_def by (intro exI [of _ ?P] conjI) (simp_all only:)
qed

lemma data_indices:
  assumes "pl_caches L pl" "finite Q" "\<forall>q \<in> Q. 0 < q \<and> q < 2 ^ 32 \<and> q \<notin> compacted_set L"
  shows "\<exists>P. shifted (get_leaf_shift pl) n_leaves (filter is_leaf (bm_iter Q)) = Some (map Suc P) \<and> sorted_wrt (<) P
    \<and> set P = (\<lambda>j. card {k \<in> kept_leaf L. k < j}) ` {i. node_pos 0 i \<in> Q}"
proof -
  let ?D = "{i. node_pos 0 i \<in> Q}"
  have fin: "finite ?D" using finite_vimageI [OF assms(2), of "node_pos 0"] by (simp add: vimage_def inj_def)
  have "{q \<in> Q. is_leaf q} = node_pos 0 ` ?D"
  proof -
    have "is_leaf q \<longleftrightarrow> (\<exists>i. q = node_pos 0 i)" if "q \<in> Q" for q using leaf_iff [of q] assms(3) that by auto
    then show ?thesis by auto
  qed
  then have iter: "filter is_leaf (bm_iter Q) = map (node_pos 0) (sorted_list_of_set ?D)"
    using filter_sorted_set [OF assms(2)] bm_iter_leaves [OF fin] by (simp add: bm_iter_def)
  let ?P = "map (\<lambda>j. card {k \<in> kept_leaf L. k < j}) (sorted_list_of_set ?D)"
  have idx: "n_leaves (node_pos 0 i) - card {p \<in> compacted_set L. is_leaf p \<and> p \<le> node_pos 0 i} = Suc (card {k \<in> kept_leaf L. k < i})"
    if "i \<in> ?D" for i
  proof -
    have i: "node_pos 0 i < 2 ^ 32" "i \<in> kept_leaf L" using assms(3) that by (auto simp: kept_leaf_def)
    then have "{k \<in> kept_leaf L. k < Suc i} = insert i {k \<in> kept_leaf L. k < i}" by auto
    then show ?thesis using kept_leaf_rank(1) [of "node_pos 0 i" "Suc i" L] leaf_le_leaf n_leaves_leaf [of i] i(1) by simp
  qed
  have "shifted (get_leaf_shift pl) n_leaves (map (node_pos 0) (sorted_list_of_set ?D))
      = Some (map (\<lambda>q. n_leaves q - card {p \<in> compacted_set L. is_leaf p \<and> p \<le> q}) (map (node_pos 0) (sorted_list_of_set ?D)))"
    by (rule shifted_eq) (use get_shift_eq(2) [OF assms(1)] assms(3) fin in auto)
  also have "map (\<lambda>q. n_leaves q - card {p \<in> compacted_set L. is_leaf p \<and> p \<le> q}) (map (node_pos 0) (sorted_list_of_set ?D)) = map Suc ?P"
    using idx fin by simp
  finally have "shifted (get_leaf_shift pl) n_leaves (filter is_leaf (bm_iter Q)) = Some (map Suc ?P)" using iter by simp
  moreover have "sorted_wrt (<) ?P"
    by (rule ranks_sorted) (use assms(3) fin in \<open>auto simp: kept_leaf_def strict_sorted_iff\<close>)
  ultimately show ?thesis using fin by (intro exI [of _ ?P]) simp
qed


text \<open>The leaves a compaction prunes.\<close>

definition removed_leaves :: "nat set \<Rightarrow> nat set \<Rightarrow> nat \<Rightarrow> nat set \<Rightarrow> nat set" where
  "removed_leaves L S cutoff rm = {i. node_pos 0 i \<le> cutoff \<and> node_pos 0 i \<notin> S \<union> rm \<and> i \<notin> L}"

lemma kept_union:
  "kept_pos L - {i. Suc i \<in> compacted_set (L \<union> R) - compacted_set L} = kept_pos (L \<union> R)"
  "kept_leaf L - {i. node_pos 0 i \<in> compacted_set (L \<union> R) - compacted_set L} = kept_leaf (L \<union> R)"
  using compacted_mono [of L "L \<union> R"] by (auto simp: kept_pos_def kept_leaf_def simp del: in_compacted_set)

lemma pos_to_rm_eq:
  assumes "pl_ok L (pb_prune_list b)" "finite (ls_bitmap (pb_leaf_set b))" "cutoff < 2 ^ 31"
    "R = removed_leaves L (ls_bitmap (pb_leaf_set b)) cutoff rm" "finite R" "small (L \<union> R)"
  shows "pos_to_rm b cutoff rm = Some (node_pos 0 ` R, compacted_set (L \<union> R) - compacted_set L)"
proof -
  have leaves: "removed_pre_cutoff (pb_leaf_set b) cutoff rm (pb_prune_list b) = node_pos 0 ` R"
    using removed_pre_cutoff_eq [OF assms(2,3,1)] assms(4) by (simp add: removed_leaves_def)
  have iter: "bm_iter (node_pos 0 ` R) = map (node_pos 0) (sorted_list_of_set R)" by (rule bm_iter_leaves [OF assms(5)])
  have dis: "R \<inter> L = {}" using assms(4) by (auto simp: removed_leaves_def)
  have "expand_all (pb_prune_list b) (expanded_set L {}) (map (node_pos 0) (sorted_list_of_set R)) = Some (expanded_set L (set (sorted_list_of_set R) \<union> {}))"
    by (rule expand_all_eq [OF assms(1)]) (use assms(5,6) dis in \<open>simp_all add: Un_commute\<close>)
  then have "expand_all (pb_prune_list b) {} (bm_iter (node_pos 0 ` R)) = Some (expanded_set L R)"
    using iter assms(5) by (simp add: expanded_set_empty)
  then show ?thesis using leaves removed_excl_roots_eq [OF assms(6)] by (simp add: pos_to_rm_def)
qed

context fixed_elmt
begin

lemma rep_check_compact:
  assumes rep: "backend_rep v L r r b"
    and files: "hashf.clean v (nths (rs_hashes r) (kept_pos L)) (pb_hash_file b)" "clean v (nths (rs_data r) (kept_leaf L)) (pb_data_file b)"
    and cutoff: "cutoff \<le> length (rs_hashes r)"
    and R: "R = removed_leaves L (rs_leaves r) cutoff rm"
  shows "\<exists>b'. check_compact wr rd b cutoff rm = Some b' \<and> backend_rep v (L \<union> R) r r b' \<and> idle b'
    \<and> hashf.clean v (nths (rs_hashes r) (kept_pos (L \<union> R))) (pb_hash_file b') \<and> clean v (nths (rs_data r) (kept_leaf (L \<union> R))) (pb_data_file b')"
proof -
  let ?n = "length (rs_data r)" and ?Q = "compacted_set (L \<union> R) - compacted_set L"
  note ok = repD(3) [OF rep] and pl = repD(5) [OF rep]
  have sz: "length (rs_hashes r) = mmr_size ?n" "mmr_size ?n < 2 ^ 31" "L \<subseteq> {..<?n}" using ok by (simp_all add: range_ok_def)
  have Rn: "R \<subseteq> {..<?n}" using R cutoff sz(1) leaf_le_size [of _ ?n] by (auto simp: removed_leaves_def dest: order_trans)
  then have sub: "L \<union> R \<subseteq> {..<?n}" and fin: "finite R" using sz(3) by (auto intro: finite_subset)
  then have sm: "small (L \<union> R)" using sz(2) unfolding small_def by blast
  have Q: "finite ?Q" "\<forall>q \<in> ?Q. 0 < q \<and> q < 2 ^ 32 \<and> q \<notin> compacted_set L"
  proof -
    have "q < mmr_size ?n" if "q \<in> compacted_set (L \<union> R)" for q using that by (rule compacted_bound [OF sub])
    moreover have "0 < q" if "q \<in> compacted_set (L \<union> R)" for q using that zero_notin(3) [of "L \<union> R"] by (auto intro: gr0I)
    ultimately show "finite ?Q" "\<forall>q \<in> ?Q. 0 < q \<and> q < 2 ^ 32 \<and> q \<notin> compacted_set L"
      using sz(2) finite_subset [of ?Q "{..<mmr_size ?n}"] by fastforce+
  qed
  have rm: "pos_to_rm b cutoff rm = Some (node_pos 0 ` R, ?Q)"
    by (rule pos_to_rm_eq) (use rep pl range_ok_finite [OF ok] cutoff sz fin sm R in \<open>simp_all add: pl_caches_def backend_rep_def\<close>)
  obtain P where P: "shifted (get_shift (pb_prune_list b)) (\<lambda>pos. pos) (bm_iter ?Q) = Some (map Suc P)" "sorted_wrt (<) P"
      "set P = (\<lambda>j. card {k \<in> kept_pos L. k < j}) ` {i. Suc i \<in> ?Q}"
    using hash_indices [OF pl Q] by blast
  obtain D where D: "shifted (get_leaf_shift (pb_prune_list b)) n_leaves (filter is_leaf (bm_iter ?Q)) = Some (map Suc D)" "sorted_wrt (<) D"
      "set D = (\<lambda>j. card {k \<in> kept_leaf L. k < j}) ` {i. node_pos 0 i \<in> ?Q}"
    using data_indices [OF pl Q] by blast
  have "length (nths (rs_hashes r) (kept_pos L)) < 2 ^ 31" "length (nths (rs_data r) (kept_leaf L)) < 2 ^ 31"
    using length_nths_le [of "rs_hashes r" "kept_pos L"] length_nths_le [of "rs_data r" "kept_leaf L"] le_mmr_size [of ?n] sz(1,2) by linarith+
  then have len: "length (nths (rs_hashes r) (kept_pos L)) * 32 < 2 ^ 64" "length (nths (rs_data r) (kept_leaf L)) * esize < 2 ^ 64"
    using mult_strict_mono [of "length (nths (rs_data r) (kept_leaf L))" "2 ^ 31" esize "2 ^ 16"] elmt_small by simp_all
  have sub_h: "{i. Suc i \<in> ?Q} \<subseteq> kept_pos L" and sub_d: "{i. node_pos 0 i \<in> ?Q} \<subseteq> kept_leaf L"
    by (auto simp: kept_pos_def kept_leaf_def simp del: in_compacted_set)
  obtain hf where hf: "df_save_prune (\<lambda>_. write_hash) read_hash (pb_hash_file b) (map Suc P) = Some hf" "hashf.clean v (nths (rs_hashes r) (kept_pos (L \<union> R))) hf"
    using hashf.clean_save_prune [OF files(1) P(2) len(1)] unfolding P(3) nths_drop_ranks [OF sub_h] kept_union(1) by blast
  obtain df where df: "df_save_prune wr rd (pb_data_file b) (map Suc D) = Some df" "clean v (nths (rs_data r) (kept_leaf (L \<union> R))) df"
    using clean_save_prune [OF files(2) D(2) len(2)] unfolding D(3) nths_drop_ranks [OF sub_d] kept_union(2) by blast
  obtain pl1 where pl1: "prune_list_add_all (pb_prune_list b) (map (node_pos 0) (sorted_list_of_set R)) = Some pl1" "pl_ok (L \<union> R) pl1"
      "pl_file pl1 = pl_file (pb_prune_list b)" "pl_shift_cache pl1 = pl_shift_cache (pb_prune_list b)" "pl_leaf_shift_cache pl1 = pl_leaf_shift_cache (pb_prune_list b)"
    using prune_list_add_all_eq [of L "pb_prune_list b" "sorted_list_of_set R"] pl fin sm by (auto simp: pl_caches_def Un_commute)
  obtain pl2 where pl2: "prune_list_flush pl1 = Some pl2" "pl_caches (L \<union> R) pl2" "pl_file pl2 = Some (root_set (L \<union> R))"
    using prune_list_flush_eq [OF pl1(2)] pl1(3-5) pl rep by (auto simp: pl_caches_def backend_rep_def)
  let ?b = "b\<lparr>pb_hash_file := hf, pb_data_file := df, pb_prune_list := pl2, pb_leaf_set := leaf_set_flush (pb_leaf_set b)\<rparr>"
  have "check_compact wr rd b cutoff rm = Some ?b"
    using repD(4) [OF rep] rm P(1) hf(1) D(1) df(1) pl1(1) pl2(1) bm_iter_leaves [OF fin] by (simp add: check_compact_def)
  moreover have "range_ok (L \<union> R) r"
    using ok sub R by (auto simp: range_ok_def removed_leaves_def)
  then have "backend_rep v (L \<union> R) r r ?b" using rep hf(2) df(2) pl2(2,3) hashf.clean_holds clean_holds
    by (simp add: backend_rep_def leaf_set_flush_def)
  ultimately show ?thesis using hf(2) df(2) hashf.clean_holds clean_holds by (simp add: idle_def)
qed

text \<open>A backend opened on the files of another one holds what that one has on disk.\<close>

lemma holds_open:
  assumes "holds v ds es a"
  shows "\<exists>a'. aof_open rd (fs_file (aof_state a)) (FixedSize esize) v = Some (Inr a') \<and> clean v ds a'"
proof -
  have "\<forall>x \<in> set (map (wr v) ds). length x = esize" "fs_file (aof_state a) = concat (map (wr v) ds)" "\<forall>x \<in> set ds. good v x"
    using assms by (auto simp: holds_def fixed_rep_def)
  then show ?thesis using fixed_open [of esize "map (wr v) ds" rd v] elmt_pos by (auto simp: clean_def)
qed

lemma rep_open:
  assumes "backend_rep v L r0 r b"
  shows "\<exists>b'. pmmr_backend_new rd (Some esize) True v (fs_file (aof_state (pb_hash_file b))) (fs_file (aof_state (pb_data_file b))) sizes
      (ls_file (pb_leaf_set b)) None (root_set L) = Some (Inr b') \<and> backend_rep v L r0 r0 b' \<and> idle b'
    \<and> hashf.clean v (nths (rs_hashes r0) (kept_pos L)) (pb_hash_file b') \<and> clean v (nths (rs_data r0) (kept_leaf L)) (pb_data_file b')"
proof -
  obtain hf df where f: "aof_open read_hash (fs_file (aof_state (pb_hash_file b))) (FixedSize 32) v = Some (Inr hf)"
      "hashf.clean v (nths (rs_hashes r0) (kept_pos L)) hf"
      "aof_open rd (fs_file (aof_state (pb_data_file b))) (FixedSize esize) v = Some (Inr df)" "clean v (nths (rs_data r0) (kept_leaf L)) df"
    using hashf.holds_open [OF repD(1) [OF assms]] holds_open [OF repD(2) [OF assms]] by blast
  have "small L" using repD(3) [OF assms] by (rule range_ok_small)
  obtain pl where pl: "prune_list_open (root_set L) = Some pl" "pl_caches L pl" "pl_file pl = Some (root_set L)"
    using init_caches_eq [of L "prune_list_new (Some (root_set L)) (root_set L)"] \<open>small L\<close> by (auto simp: prune_list_open_def prune_list_new_def)
  show ?thesis using f pl assms hashf.clean_holds [OF f(2)] clean_holds [OF f(4)]
    by (simp add: pmmr_backend_new_def Let_def copy_snapshot_def leaf_set_open_def backend_rep_def idle_def)
qed

lemma rep_new:
  "\<exists>b. pmmr_backend_new rd (Some esize) True v [] [] sizes {} None {} = Some (Inr b)
    \<and> backend_rep v {} \<lparr>rs_data = [], rs_hashes = [], rs_leaves = {}\<rparr> \<lparr>rs_data = [], rs_hashes = [], rs_leaves = {}\<rparr> b \<and> idle b"
proof -
  obtain hf df where f: "aof_open read_hash [] (FixedSize 32) v = Some (Inr hf)" "hashf.clean v [] hf"
      "aof_open rd [] (FixedSize esize) v = Some (Inr df)" "clean v [] df"
    using fixed_open [of 32 "[]" read_hash v] fixed_open [of esize "[]" rd v] elmt_pos by (auto simp: hashf.clean_def clean_def)
  have e: "root_set {} = {}" "small {}" by (simp_all add: small_def exI [of _ 0])
  obtain pl where pl: "prune_list_open {} = Some pl" "pl_caches {} pl" "pl_file pl = Some {}"
    using init_caches_eq [of "{}" "prune_list_new (Some {}) {}"] e by (auto simp: prune_list_open_def prune_list_new_def)
  show ?thesis using f pl e hashf.clean_holds [OF f(2)] clean_holds [OF f(4)]
    by (simp add: pmmr_backend_new_def Let_def copy_snapshot_def leaf_set_open_def backend_rep_def idle_def range_ok_def)
qed

end

end
