(* ===== verification/Merkle_Proof.thy ===== *)
theory Merkle_Proof
  imports Pmmr
begin

text \<open>
  Merkle proofs, \<open>core/src/core/merkle_proof.rs\<close>: their encoding and the verification of a proof that
  \<open>PMMR::merkle_proof\<close> built. Completeness (a proof the range builds is accepted against the root of
  the range) and soundness (an accepted proof shows the element really is at that leaf, unless the
  digest has a collision) are proved for every position and every path.
\<close>

section \<open>Definitions\<close>

datatype merkle_proof_error = RootMismatch

definition merkle_proof_empty :: merkle_proof_rec where
  "merkle_proof_empty = \<lparr>mp_mmr_size = 0, mp_path = []\<rparr>"

definition write_merkle_proof :: "merkle_proof_rec \<Rightarrow> bytes" where
  "write_merkle_proof p =
    write_u64 (of_nat (mp_mmr_size p)) @ write_u64 (of_nat (length (mp_path p))) @ write_vec write_hash (mp_path p)"

primrec read_path :: "nat \<Rightarrow> reader \<Rightarrow> hash list parse" where
  "read_path 0 r = Inr ([], r)"
| "read_path (Suc k) r =
    rbind (read_hash r) (\<lambda>(h, r). rbind (read_path k r) (\<lambda>(hs, r). Inr (h # hs, r)))"

definition read_merkle_proof :: "reader \<Rightarrow> merkle_proof_rec parse" where
  "read_merkle_proof r =
    rbind (read_u64 r) (\<lambda>(sz, r).
    rbind (read_u64 r) (\<lambda>(path_len, r).
    rbind (read_path (unat path_len) r) (\<lambda>(hs, r).
      Inr (\<lparr>mp_mmr_size = unat sz, mp_path = hs\<rparr>, r))))"

text \<open>\<open>binary_search\<close> on a strictly increasing slice returns the index of the element.\<close>

definition binary_search :: "nat list \<Rightarrow> nat \<Rightarrow> nat option" where
  "binary_search ps x = find (\<lambda>i. ps ! i = x) [0..<length ps]"

text \<open>
  \<open>verify\<close> clones the proof, computes the peaks of its size and calls \<open>verify_consume\<close>, which takes the
  first hash off the path and calls \<open>verify\<close> again with the rest; the size never changes.
\<close>

fun verify_consume :: "(bytes \<Rightarrow> hash) \<Rightarrow> nat \<Rightarrow> hash list \<Rightarrow> hash \<Rightarrow> bytes \<Rightarrow> nat \<Rightarrow> nat list \<Rightarrow>
  merkle_proof_error + unit" where
  "verify_consume blake sz pth root_hash element pos peaks_pos =
    (let this_hash = (if pos > sz then hash_with_index blake element sz
                      else hash_with_index blake element (pos - 1))
     in case pth of
          [] \<Rightarrow> if root_hash = this_hash then Inr () else Inl RootMismatch
        | sibling # rest \<Rightarrow>
          (let (parent_pos, sibling_pos) = family pos
           in case binary_search peaks_pos pos of
                Some x \<Rightarrow>
                  (let parent = (if x = length peaks_pos - 1 then write_hash sibling @ write_hash this_hash
                                 else write_hash this_hash @ write_hash sibling)
                   in verify_consume blake sz rest root_hash parent parent_pos (peaks sz))
              | None \<Rightarrow>
                  (if parent_pos > sz
                   then verify_consume blake sz rest root_hash (write_hash sibling @ write_hash this_hash)
                          parent_pos (peaks sz)
                   else
                     (let parent = (if is_left_sibling sibling_pos then write_hash sibling @ write_hash this_hash
                                    else write_hash this_hash @ write_hash sibling)
                      in verify_consume blake sz rest root_hash parent parent_pos (peaks sz)))))"

declare verify_consume.simps [simp del]

definition verify :: "(bytes \<Rightarrow> hash) \<Rightarrow> merkle_proof_rec \<Rightarrow> hash \<Rightarrow> bytes \<Rightarrow> nat \<Rightarrow> merkle_proof_error + unit" where
  "verify blake p root_hash element pos =
    verify_consume blake (mp_mmr_size p) (mp_path p) root_hash element pos (peaks (mp_mmr_size p))"

section \<open>Order of the peaks\<close>

lemma sorted_peak_coords:
  "sorted_wrt (<) (map (\<lambda>(h, j). node_pos h j) (peak_coords k n))
   \<and> (\<forall>(h, j) \<in> set (peak_coords k n). node_pos h j > mmr_size (n div 2 ^ k * 2 ^ k))"
proof (induction k)
  case (Suc k)
  have step: "n div 2 ^ k = 2 * (n div 2 ^ Suc k) + n div 2 ^ k mod 2"
    by (simp only: power_Suc2 div_mult2_eq) presburger
  show ?case
  proof (cases "odd (n div 2 ^ k)")
    case True
    then have eq: "n div 2 ^ k * 2 ^ k = n div 2 ^ Suc k * 2 ^ Suc k + 2 ^ k"
      using step by (metis Suc_eq_plus1 add.commute mult.assoc mult.commute mult_Suc odd_iff_mod_2_eq_one power_Suc2)
    have pos: "node_pos k (n div 2 ^ k - 1) = mmr_size (n div 2 ^ k * 2 ^ k)"
      using node_pos_even [of "n div 2 ^ k - 1" k] True by (cases "n div 2 ^ k") auto
    have "mmr_size (n div 2 ^ Suc k * 2 ^ Suc k) < mmr_size (n div 2 ^ k * 2 ^ k)" unfolding mmr_size_less_iff eq by simp
    then show ?thesis using Suc True pos
      by (auto simp del: power_Suc mmr_size_less_iff intro: less_trans)
  next
    case False
    then have "n div 2 ^ k * 2 ^ k = n div 2 ^ Suc k * 2 ^ Suc k"
      using step by (metis add.right_neutral even_iff_mod_2_eq_zero mult.assoc mult.commute power_Suc2)
    then show ?thesis using Suc False by (simp del: power_Suc)
  qed
qed simp

lemma sorted_mountains: "sorted_wrt (<) (map (\<lambda>(h, j). node_pos h j) (mountains n))"
  using sorted_peak_coords by (simp add: mountains_def)

lemma binary_search_None: "binary_search ps x = None \<longleftrightarrow> x \<notin> set ps"
  by (auto simp: binary_search_def find_None_iff in_set_conv_nth)

lemma binary_search_Some:
  assumes "sorted_wrt (<) ps" "ps = as @ x # bs"
  shows "binary_search ps x = Some (length as)"
proof -
  have "distinct ps" using assms(1) by (simp add: strict_sorted_iff)
  obtain i where i: "binary_search ps x = Some i"
    using binary_search_None [of ps x] assms(2) by fastforce
  then have "i < length ps" "ps ! i = x"
    by (auto simp: binary_search_def find_Some_iff)
  moreover have "ps ! length as = x" "length as < length ps" using assms(2) by simp_all
  ultimately show ?thesis using i \<open>distinct ps\<close> by (metis nth_eq_iff_index_eq)
qed

lemma fst_family_gt: "fst (family pos) > pos"
  by (simp add: family_def case_prod_beta Let_def push_bit_eq_mult)

section \<open>One step of the verification\<close>

text \<open>What is hashed at a node: the serialized leaf, or the hashes of the two children.\<close>

definition node_content :: "(bytes \<Rightarrow> hash) \<Rightarrow> ('t \<Rightarrow> bytes) \<Rightarrow> 't list \<Rightarrow> nat \<Rightarrow> nat \<Rightarrow> bytes" where
  "node_content blake ser xs h j =
    (case h of 0 \<Rightarrow> ser (xs ! j)
     | Suc k \<Rightarrow> node_hash blake ser xs k (2 * j) @ node_hash blake ser xs k (2 * j + 1))"

lemma node_hash_content:
  "node_hash blake ser xs h j = hash_with_index blake (node_content blake ser xs h j) (node_pos h j - 1)"
  by (cases h) (simp_all add: node_content_def)

lemma node_content_parent:
  "node_content blake ser xs (Suc h) (j div 2) =
    (if odd j then node_hash blake ser xs h (sib j) @ node_hash blake ser xs h j
     else node_hash blake ser xs h j @ node_hash blake ser xs h (sib j))"
  by (auto simp: node_content_def sib_def elim!: oddE)

lemma not_mountain:
  assumes "(j div 2 + 1) * 2 ^ Suc h \<le> n"
  shows "(h, j) \<notin> set (mountains n)"
proof
  assume "(h, j) \<in> set (mountains n)"
  then have odd: "odd (n div 2 ^ h)" and j: "j = n div 2 ^ h - 1" by (simp_all add: in_mountains)
  have "2 * (j div 2 + 1) * 2 ^ h \<le> n" using assms by (simp add: algebra_simps)
  then have "2 * (j div 2 + 1) \<le> n div 2 ^ h" by (simp only: less_eq_div_iff_mult_less_eq zero_less_power zero_less_numeral)
  moreover have "\<not> 2 * (j div 2 + 1) \<le> m" if "odd m" "j = m - 1" for m :: nat using that by presburger
  ultimately show False using odd j by blast
qed

lemma mountain_top:
  assumes "(j + 1) * 2 ^ h \<le> n" "\<not> (j div 2 + 1) * 2 ^ Suc h \<le> n"
  shows "(h, j) \<in> set (mountains n)"
proof -
  have "j + 1 \<le> n div 2 ^ h" using assms(1) by (simp only: less_eq_div_iff_mult_less_eq zero_less_power zero_less_numeral)
  moreover have "\<not> 2 * (j div 2 + 1) * 2 ^ h \<le> n" using assms(2) by (simp add: algebra_simps)
  then have "\<not> 2 * (j div 2 + 1) \<le> n div 2 ^ h"
    by (simp only: less_eq_div_iff_mult_less_eq zero_less_power zero_less_numeral) simp
  moreover have "m = j + 1 \<and> odd m" if "j + 1 \<le> m" "\<not> 2 * (j div 2 + 1) \<le> m" for m :: nat
    using that by presburger
  ultimately have "n div 2 ^ h = j + 1" "odd (n div 2 ^ h)" by blast+
  then show ?thesis by (simp add: in_mountains)
qed

lemma peaks_set:
  assumes "mmr_size n < 2 ^ 64"
  shows "node_pos h j \<in> set (peaks (mmr_size n)) \<longleftrightarrow> (h, j) \<in> set (mountains n)"
  using assms by (auto simp: peaks_mmr_size dest: node_pos_inj)

text \<open>Inside a mountain a step goes to the parent, with the sibling on the right side.\<close>

lemma verify_inside:
  assumes n: "mmr_size n < 2 ^ 64" and ex: "(j div 2 + 1) * 2 ^ Suc h \<le> n"
  shows "verify_consume blake (mmr_size n) (s # rest) rt el (node_pos h j) (peaks (mmr_size n))
    = verify_consume blake (mmr_size n) rest rt
        (if odd j then s @ hash_with_index blake el (node_pos h j - 1)
         else hash_with_index blake el (node_pos h j - 1) @ s)
        (node_pos (Suc h) (j div 2)) (peaks (mmr_size n))"
proof -
  have le: "node_pos (Suc h) (j div 2) \<le> mmr_size n" using ex by (simp only: node_pos_le_mmr_size)
  have lt: "node_pos h j < node_pos (Suc h) (j div 2)" by (rule node_pos_parent_gt)
  have p64: "node_pos h j \<le> 2 ^ 64" using le lt n by linarith
  have "node_pos h (sib j) < node_pos (Suc h) (j div 2)" using node_pos_parent_gt [of h "sib j"] by simp
  then have s64: "node_pos h (sib j) \<le> 2 ^ 64" using le n by linarith
  have bs: "binary_search (peaks (mmr_size n)) (node_pos h j) = None"
    unfolding binary_search_None peaks_set [OF n] by (rule not_mountain [OF ex])
  show ?thesis using le lt
    by (subst verify_consume.simps)
       (simp add: family_node_pos [OF p64] bs is_left_sibling_node_pos [OF s64] write_hash_def)
qed

text \<open>At a peak the sibling is the bag of the peaks to the right, or for the last peak the one to the left.\<close>

lemma verify_peak:
  assumes n: "mmr_size n < 2 ^ 64" and ms: "mountains n = as @ (h, j) # bs"
  shows "\<exists>pos'. pos' > mmr_size n \<and>
    verify_consume blake (mmr_size n) (s # rest) rt el (node_pos h j) (peaks (mmr_size n))
    = verify_consume blake (mmr_size n) rest rt
        (if bs = [] then s @ hash_with_index blake el (node_pos h j - 1)
         else hash_with_index blake el (node_pos h j - 1) @ s)
        pos' (peaks (mmr_size n))"
proof -
  have mem: "(h, j) \<in> set (mountains n)" by (simp add: ms)
  have le: "node_pos h j \<le> mmr_size n" using mountains_exist [OF mem] by (simp only: node_pos_le_mmr_size)
  have p64: "node_pos h j \<le> 2 ^ 64" using le n by linarith
  have ps: "peaks (mmr_size n) = map (\<lambda>(h, j). node_pos h j) as @ node_pos h j # map (\<lambda>(h, j). node_pos h j) bs"
    using n by (simp add: peaks_mmr_size ms)
  have bs: "binary_search (peaks (mmr_size n)) (node_pos h j) = Some (length as)"
    using binary_search_Some [OF _ ps] sorted_mountains [of n] n by (simp add: peaks_mmr_size)
  have len: "length as = length (peaks (mmr_size n)) - 1 \<longleftrightarrow> bs = []" by (simp add: ps)
  have "\<not> (j div 2 + 1) * 2 ^ Suc h \<le> n" using not_mountain mem by blast
  then have gt: "node_pos (Suc h) (j div 2) > mmr_size n" using node_pos_le_mmr_size [of "Suc h" "j div 2" n] by linarith
  then show ?thesis using le
    by (intro exI [of _ "node_pos (Suc h) (j div 2)"])
       (subst verify_consume.simps, simp add: family_node_pos [OF p64] bs len [simplified] Let_def write_hash_def)
qed

text \<open>Above the peaks every step hashes the next peak on the left, with the size as index.\<close>

lemma verify_above:
  assumes n: "mmr_size n < 2 ^ 64" and pos: "pos > mmr_size n"
  shows "verify_consume blake (mmr_size n) pth rt el pos (peaks (mmr_size n)) = Inr () \<longleftrightarrow>
    rt = foldl (\<lambda>r s. hash_with_index blake (s @ r) (mmr_size n)) (hash_with_index blake el (mmr_size n)) pth"
  using pos
proof (induction pth arbitrary: el pos)
  case Nil
  then show ?case by (subst verify_consume.simps) simp
next
  case (Cons s pth)
  have "pos \<notin> set (peaks (mmr_size n))"
  proof
    assume "pos \<in> set (peaks (mmr_size n))"
    then obtain h j where "pos = node_pos h j" "(h, j) \<in> set (mountains n)"
      using n by (auto simp: peaks_mmr_size)
    then show False using mountains_exist [of h j n] Cons.prems node_pos_le_mmr_size [of h j n] by simp
  qed
  then have "binary_search (peaks (mmr_size n)) pos = None" by (simp add: binary_search_None)
  moreover have "fst (family pos) > mmr_size n" using fst_family_gt [of pos] Cons.prems by linarith
  ultimately show ?case using Cons.IH [of "fst (family pos)"] Cons.prems
    by (subst verify_consume.simps) (simp add: case_prod_beta write_hash_def)
qed

section \<open>Completeness\<close>

lemmas node_hash_fold = node_hash_content [symmetric] node_hash_content [symmetric, simplified]

abbreviation pos_of :: "nat \<times> nat \<Rightarrow> nat" where
  "pos_of \<equiv> \<lambda>(h, j). node_pos h j"

definition sibling_hashes :: "(bytes \<Rightarrow> hash) \<Rightarrow> ('t \<Rightarrow> bytes) \<Rightarrow> 't list \<Rightarrow> (nat \<times> nat) list \<Rightarrow> hash list" where
  "sibling_hashes blake ser xs = map (\<lambda>(h, j). node_hash blake ser xs h (sib j))"

lemma ancestors_last:
  assumes "(j + 1) * 2 ^ h \<le> n"
  shows "ancestors n h j \<noteq> [] \<and> last (ancestors n h j) \<in> set (mountains n)
    \<and> (butlast (ancestors n h j) \<noteq> [] \<longrightarrow>
         fst (parent_and_sibling (last (butlast (ancestors n h j)))) = pos_of (last (ancestors n h j)))
    \<and> (butlast (ancestors n h j) = [] \<longrightarrow> last (ancestors n h j) = (h, j))"
  using assms
proof (induction n h j rule: ancestors.induct)
  case (1 n h j)
  show ?case
  proof (cases "(j div 2 + 1) * 2 ^ Suc h \<le> n")
    case True
    note IH = "1.IH" [OF "1.prems" True]
    have unf: "ancestors n h j = (h, j) # ancestors n (Suc h) (j div 2)"
      using "1.prems" by (subst ancestors.simps) simp
    show ?thesis
    proof (cases "butlast (ancestors n (Suc h) (j div 2)) = []")
      case True
      then show ?thesis using IH unf by (auto simp: parent_and_sibling_def)
    next
      case False
      then show ?thesis using IH unf by auto
    qed
  next
    case False
    then have "ancestors n h j = [(h, j)]" using "1.prems" by (subst ancestors.simps, subst ancestors.simps) simp
    then show ?thesis using mountain_top [OF "1.prems" False] by simp
  qed
qed

lemma filter_map_map_Some:
  "(\<And>x. x \<in> set xs \<Longrightarrow> f (g x) = Some (k x)) \<Longrightarrow> filter_map f (map g xs) = map k xs"
  by (induction xs) simp_all

lemma butlast_ancestors:
  assumes "(j + 1) * 2 ^ h \<le> n" "x \<in> set (butlast (ancestors n h j))"
  shows "(sib (snd x) + 1) * 2 ^ fst x \<le> n"
  using assms
proof (induction n h j rule: ancestors.induct)
  case (1 n h j)
  have unf: "ancestors n h j = (h, j) # ancestors n (Suc h) (j div 2)"
    using "1.prems"(1) by (subst ancestors.simps) simp
  have ex: "(j div 2 + 1) * 2 ^ Suc h \<le> n"
  proof (rule ccontr)
    assume "\<not> ?thesis"
    then have "ancestors n (Suc h) (j div 2) = []" by (subst ancestors.simps) simp
    then show False using "1.prems"(2) unf by simp
  qed
  have ne: "ancestors n (Suc h) (j div 2) \<noteq> []" using ex by (subst ancestors.simps) simp
  show ?case
  proof (cases "x = (h, j)")
    case True
    have "sib j + 1 \<le> 2 * (j div 2 + 1)" by (auto simp: sib_def elim!: oddE)
    then have "(sib j + 1) * 2 ^ h \<le> 2 * (j div 2 + 1) * 2 ^ h" by (rule mult_le_mono1)
    then show ?thesis using ex True by (simp add: algebra_simps)
  next
    case False
    then show ?thesis using 1 unf ne ex by simp
  qed
qed

lemma verify_climb:
  assumes n: "n = length xs" "mmr_size n < 2 ^ 64" and ex: "(j + 1) * 2 ^ h \<le> n"
  shows "verify_consume blake (mmr_size n) (sibling_hashes blake ser xs (butlast (ancestors n h j)) @ rest) rt
      (node_content blake ser xs h j) (node_pos h j) (peaks (mmr_size n))
    = verify_consume blake (mmr_size n) rest rt
        (case_prod (node_content blake ser xs) (last (ancestors n h j))) (pos_of (last (ancestors n h j)))
        (peaks (mmr_size n))"
  using n ex
proof (induction n h j rule: ancestors.induct)
  case (1 n h j)
  have unf: "ancestors n h j = (h, j) # ancestors n (Suc h) (j div 2)"
    using "1.prems"(3) by (subst ancestors.simps) simp
  show ?case
  proof (cases "(j div 2 + 1) * 2 ^ Suc h \<le> n")
    case True
    note IH = "1.IH" [OF "1.prems"(3,1,2) True]
    have ne: "ancestors n (Suc h) (j div 2) \<noteq> []" using ancestors_last [OF True] by blast
    have bl: "butlast (ancestors n h j) = (h, j) # butlast (ancestors n (Suc h) (j div 2))"
      using unf ne by simp
    show ?thesis
      using IH ne verify_inside [OF "1.prems"(2) True, where blake = blake and el = "node_content blake ser xs h j", folded node_hash_content]
      by (simp add: bl unf sibling_hashes_def node_content_parent split del: if_split)
  next
    case False
    then have "ancestors n h j = [(h, j)]" unfolding unf by (subst ancestors.simps) simp
    then show ?thesis by (simp add: sibling_hashes_def)
  qed
qed

lemma bag_append:
  "bag blake sz ps = Some r \<Longrightarrow>
    bag blake sz (as @ ps) = Some (foldl (\<lambda>r s. hash_with_index blake (s @ r) sz) r (rev as))"
proof (induction as)
  case (Cons a as)
  have "as @ ps \<noteq> []" using Cons.prems by (cases ps) auto
  then show ?case using Cons by (simp add: bag_Cons)
qed simp

lemma bag_single: "bag blake sz [p] = Some p" by simp

text \<open>The hashes a proof needs above the peak \<open>(h, j)\<close>, nearest first.\<close>

definition above_hashes :: "(bytes \<Rightarrow> hash) \<Rightarrow> nat \<Rightarrow> hash list \<Rightarrow> hash list \<Rightarrow> hash list" where
  "above_hashes blake sz as bs = (case bag blake sz bs of None \<Rightarrow> [] | Some r \<Rightarrow> [r]) @ rev as"

lemma verify_from_peak:
  assumes n: "n = length xs" "mmr_size n < 2 ^ 64" and ms: "mountains n = as @ (h, j) # bs"
  shows "verify_consume blake (mmr_size n)
      (above_hashes blake (mmr_size n) (map (case_prod (node_hash blake ser xs)) as)
         (map (case_prod (node_hash blake ser xs)) bs))
      (mmr_root blake ser xs) (node_content blake ser xs h j) (node_pos h j) (peaks (mmr_size n)) = Inr ()"
proof -
  let ?H = "case_prod (node_hash blake ser xs)" and ?sz = "mmr_size n"
  let ?p = "node_hash blake ser xs h j"
  have mh: "mountain_hashes blake ser xs = map ?H as @ ?p # map ?H bs"
    by (simp add: mountain_hashes_def ms n(1) [symmetric])
  show ?thesis
  proof (cases "bag blake ?sz (map ?H bs)")
    case None
    then have bs: "bs = []" by simp
    have root: "mmr_root blake ser xs = foldl (\<lambda>r s. hash_with_index blake (s @ r) ?sz) ?p (rev (map ?H as))"
      using bag_append [OF bag_single, of blake ?sz "map ?H as" ?p] by (simp add: mmr_root_def mh bs n(1) [symmetric])
    show ?thesis
    proof (cases "rev (map ?H as)")
      case Nil
      have "node_pos h j \<le> ?sz" using mountains_exist [of h j n] ms by (simp only: node_pos_le_mmr_size) simp
      then show ?thesis using root Nil bs
        by (subst verify_consume.simps) (simp add: above_hashes_def node_hash_fold)
    next
      case (Cons s rest)
      obtain pos' where pos': "pos' > ?sz"
        "verify_consume blake ?sz (s # rest) (mmr_root blake ser xs) (node_content blake ser xs h j) (node_pos h j) (peaks ?sz)
          = verify_consume blake ?sz rest (mmr_root blake ser xs) (s @ ?p) pos' (peaks ?sz)"
        using verify_peak [OF n(2) ms, where blake = blake and s = s and rest = rest and rt = "mmr_root blake ser xs"
            and el = "node_content blake ser xs h j", folded node_hash_content] bs by auto
      have "above_hashes blake ?sz (map ?H as) (map ?H bs) = s # rest"
        using None by (simp add: above_hashes_def Cons [simplified])
      then show ?thesis using pos'(2) verify_above [OF n(2) pos'(1)] root Cons by simp
    qed
  next
    case (Some r)
    then have bs: "bs \<noteq> []" by auto
    obtain pos' where pos': "pos' > ?sz"
      "verify_consume blake ?sz (r # rev (map ?H as)) (mmr_root blake ser xs) (node_content blake ser xs h j) (node_pos h j) (peaks ?sz)
        = verify_consume blake ?sz (rev (map ?H as)) (mmr_root blake ser xs) (?p @ r) pos' (peaks ?sz)"
      using verify_peak [OF n(2) ms, where blake = blake and s = r and rest = "rev (map ?H as)"
          and rt = "mmr_root blake ser xs" and el = "node_content blake ser xs h j", folded node_hash_content] bs by auto
    have "bag blake ?sz (?p # map ?H bs) = Some (hash_with_index blake (?p @ r) ?sz)"
      using Some bs by (simp add: bag_Cons)
    from bag_append [OF this, of "map ?H as"]
    have "mmr_root blake ser xs = foldl (\<lambda>r s. hash_with_index blake (s @ r) ?sz) (hash_with_index blake (?p @ r) ?sz) (rev (map ?H as))"
      by (simp add: mmr_root_def mh n(1) [symmetric])
    then show ?thesis using pos'(2) verify_above [OF n(2) pos'(1)] Some by (simp add: above_hashes_def)
  qed
qed

lemma sorted_split_filter:
  fixes f :: "'a \<Rightarrow> nat"
  assumes "sorted_wrt (<) (map f (as @ x # bs))"
  shows "filter (\<lambda>p. p < f x) (map f (as @ x # bs)) = map f as"
    and "filter (\<lambda>p. p > f x) (map f (as @ x # bs)) = map f bs"
  using assms by (auto simp: sorted_wrt_append filter_id_conv filter_empty_conv)

context mmr_storage
begin

lemma get_from_file_full:
  assumes "stands_for blake ser xs pm" "None \<notin> set (hfile (backend pm))" "(j + 1) * 2 ^ h \<le> length xs"
  shows "be_get_from_file ops (backend pm) (node_pos h j) = Some (node_hash blake ser xs h j)"
proof -
  have le: "node_pos h j \<le> length (hfile (backend pm))"
    using assms(1,3) node_pos_le_mmr_size [of h j "length xs"] by (simp add: stands_for_def mmr_file_def)
  have "be_get_from_file ops (backend pm) (node_pos h j) = hfile (backend pm) ! (node_pos h j - 1)"
    using get_from_file_law [of "backend pm" "node_pos h j"] assms(1) le by (simp add: stands_for_def)
  moreover have "hfile (backend pm) ! (node_pos h j - 1) \<in> set (hfile (backend pm))"
    using le node_pos_pos(1) [of h j] by (intro nth_mem) linarith
  ultimately have "be_get_from_file ops (backend pm) (node_pos h j) \<noteq> None" using assms(2) by metis
  then show ?thesis using get_from_file_node [OF assms(1,3)] by auto
qed

lemma filter_map_peaks:
  assumes "stands_for blake ser xs pm" "set ms \<subseteq> set (mountains (length xs))"
  shows "filter_map (be_get_from_file ops (backend pm)) (map pos_of ms) = map (case_prod (node_hash blake ser xs)) ms"
  using assms(2) get_from_file_peak [OF assms(1)] by (induction ms) auto

lemma peak_path_stands_for:
  assumes st: "stands_for blake ser xs pm" and ms: "mountains (length xs) = as @ (h, j) # bs"
  shows "peak_path ops blake pm (node_pos h j)
    = above_hashes blake (mmr_size (length xs)) (map (case_prod (node_hash blake ser xs)) as)
        (map (case_prod (node_hash blake ser xs)) bs)"
proof -
  let ?ps = "map pos_of (as @ (h, j) # bs)"
  have ps: "peaks (last_pos pm) = ?ps" using peaks_stands_for [OF st] ms by simp
  have "sorted_wrt (<) ?ps" using sorted_mountains [of "length xs"] ms by simp
  note fs = sorted_split_filter [of pos_of as "(h, j)" bs, OF this, unfolded prod.case]
  have us: "unpruned_size pm = mmr_size (length xs)" using st by (simp add: unpruned_size_def stands_for_def)
  have "filter_map (be_get_from_file ops (backend pm)) (map pos_of bs) = map (case_prod (node_hash blake ser xs)) bs"
    "filter_map (be_get_from_file ops (backend pm)) (map pos_of as) = map (case_prod (node_hash blake ser xs)) as"
    using filter_map_peaks [OF st] ms by auto
  note fm = this
  show ?thesis
    unfolding peak_path_def bag_the_rhs_def Let_def ps us fs fm foldl_bag_step above_hashes_def
    by (simp split: option.splits)
qed

lemma merkle_proof_complete:
  assumes st: "stands_for blake ser xs pm" and full: "None \<notin> set (hfile (backend pm))"
    and i: "i < length xs" and got: "be_get_hash ops (backend pm) (node_pos 0 i) \<noteq> None"
  shows "\<exists>p. merkle_proof ops blake pm (node_pos 0 i) = Inr p
    \<and> verify blake p (mmr_root blake ser xs) (ser (xs ! i)) (node_pos 0 i) = Inr ()"
proof -
  let ?n = "length xs"
  have ex: "(i + 1) * 2 ^ 0 \<le> ?n" using i by simp
  have lt: "mmr_size ?n < 2 ^ 64" and lp: "last_pos pm = mmr_size ?n" using st by (simp_all add: stands_for_def)
  have le: "node_pos 0 i \<le> mmr_size ?n" using ex by (simp only: node_pos_le_mmr_size)
  then have p64: "node_pos 0 i \<le> 2 ^ 64" using lt by linarith
  define anc where "anc = ancestors ?n 0 i"
  obtain h j where hj: "last anc = (h, j)" by (cases "last anc")
  note al = ancestors_last [OF ex, folded anc_def, unfolded hj]
  obtain as bs where ms: "mountains ?n = as @ (h, j) # bs" using al by (meson split_list)
  have fam: "family_branch (node_pos 0 i) (last_pos pm) = map parent_and_sibling (butlast anc)"
    using family_branch_node_pos [OF p64 ex] lp anc_def by simp
  have "pmmr_get_from_file ops pm (snd (parent_and_sibling x)) = Some (case x of (h, j) \<Rightarrow> node_hash blake ser xs h (sib j))"
    if "x \<in> set (butlast anc)" for x
    using butlast_ancestors [OF ex that [unfolded anc_def]] get_from_file_full [OF st full] lp
      node_pos_le_mmr_size [of "fst x" "sib (snd x)" ?n]
    by (auto simp: parent_and_sibling_def pmmr_get_from_file_def case_prod_beta)
  then have sibs: "filter_map (\<lambda>x. pmmr_get_from_file ops pm (snd x)) (map parent_and_sibling (butlast anc))
      = sibling_hashes blake ser xs (butlast anc)"
    unfolding sibling_hashes_def by (rule filter_map_map_Some)
  have peak: "(if map parent_and_sibling (butlast anc) = [] then node_pos 0 i
      else fst (last (map parent_and_sibling (butlast anc)))) = node_pos h j"
    using al by (auto simp: last_map)
  define p where "p = \<lparr>mp_mmr_size = mmr_size ?n,
    mp_path = sibling_hashes blake ser xs (butlast anc) @ peak_path ops blake pm (node_pos h j)\<rparr>"
  have "is_leaf (node_pos 0 i)" using is_leaf_node_pos [OF p64] by simp
  moreover have "pmmr_get_hash ops pm (node_pos 0 i) \<noteq> None"
    using got le lp \<open>is_leaf (node_pos 0 i)\<close> by (simp add: pmmr_get_hash_def)
  moreover have "unpruned_size pm = mmr_size ?n" using lp by (simp add: unpruned_size_def)
  ultimately have "merkle_proof ops blake pm (node_pos 0 i) = Inr p"
    unfolding merkle_proof_def Let_def fam sibs peak p_def by auto
  moreover have "verify blake p (mmr_root blake ser xs) (ser (xs ! i)) (node_pos 0 i) = Inr ()"
  proof -
    have c: "ser (xs ! i) = node_content blake ser xs 0 i" by (simp add: node_content_def)
    show ?thesis
      unfolding verify_def p_def merkle_proof_rec.simps peak_path_stands_for [OF st ms] c
        verify_climb [OF refl lt ex, folded anc_def] hj prod.case
      by (rule verify_from_peak [OF refl lt ms])
  qed
  ultimately show ?thesis by (intro exI [of _ p] conjI)
qed

end

section \<open>Soundness\<close>

lemma hash_with_index_inj2:
  assumes "inj blake" "hash_with_index blake x i = hash_with_index blake y i'" "i < 2 ^ 64" "i' < 2 ^ 64"
  shows "i = i' \<and> x = y"
proof -
  have "write_u64 (of_nat i) @ x = write_u64 (of_nat i') @ y"
    by (rule injD [OF assms(1) assms(2) [unfolded hash_with_index_def]])
  then have "(of_nat i :: u64) = of_nat i' \<and> x = y" by (rule u64c.wr_prefix_inj [OF TrueI TrueI])
  then show ?thesis using unat_of_nat_u64 [OF assms(3)] unat_of_nat_u64 [OF assms(4)] by metis
qed

text \<open>
  A root that was reached above the peaks is the bag of the true peaks from some peak on, so what was
  hashed last below the path is a true peak followed by the bag of the peaks to its right.
\<close>

lemma bag_peel:
  assumes inj: "inj blake" and sz: "sz < 2 ^ 64"
    and idx: "\<forall>p \<in> set ps. length p = 32 \<and> (\<exists>i c. i < sz \<and> p = hash_with_index blake c i)"
    and ss: "\<forall>s \<in> set ss. length s = 32"
    and eq: "bag blake sz ps = Some (foldl (\<lambda>r s. hash_with_index blake (s @ r) sz) (hash_with_index blake el sz) (rev ss))"
  shows "\<exists>a bs r. a \<in> set ps \<and> set bs \<subseteq> set ps \<and> bag blake sz bs = Some r \<and> el = a @ r"
  using idx ss eq
proof (induction ss arbitrary: ps)
  case Nil
  show ?case
  proof (cases "\<exists>a. ps = [a]")
    case True
    then show ?thesis using Nil hash_with_index_inj2 [OF inj] sz by fastforce
  next
    case False
    then obtain a qs where ps: "ps = a # qs" "qs \<noteq> []" using Nil.prems(3) by (cases ps) auto
    then obtain r where r: "bag blake sz qs = Some r" by (cases "bag blake sz qs") auto
    have "el = a @ r" using Nil.prems(3) ps r hash_with_index_inj [OF inj, of "a @ r" sz el] by (simp add: bag_Cons)
    then show ?thesis using ps r by (intro exI [of _ a] exI [of _ qs] exI [of _ r]) auto
  qed
next
  case (Cons s ss)
  let ?F = "foldl (\<lambda>r s. hash_with_index blake (s @ r) sz) (hash_with_index blake el sz) (rev ss)"
  have eq: "bag blake sz ps = Some (hash_with_index blake (s @ ?F) sz)" using Cons.prems(3) by simp
  show ?case
  proof (cases "\<exists>a. ps = [a]")
    case True
    then show ?thesis using Cons.prems(1) eq hash_with_index_inj2 [OF inj] sz by fastforce
  next
    case False
    then obtain a qs where ps: "ps = a # qs" "qs \<noteq> []" using eq by (cases ps) auto
    then obtain r where r: "bag blake sz qs = Some r" by (cases "bag blake sz qs") auto
    have "a @ r = s @ ?F" using eq ps r hash_with_index_inj [OF inj, of "a @ r" sz] by (simp add: bag_Cons)
    moreover have "length a = length s" using Cons.prems(1,2) ps by simp
    ultimately have "bag blake sz qs = Some ?F" using r by simp
    then obtain a' bs' r' where "a' \<in> set qs" "set bs' \<subseteq> set qs" "bag blake sz bs' = Some r'" "el = a' @ r'"
      using Cons.IH [of qs] Cons.prems(1,2) ps by auto
    then show ?thesis using ps by (intro exI [of _ a'] exI [of _ bs'] exI [of _ r']) auto
  qed
qed

text \<open>What the path can only be at a peak.\<close>

lemma verify_peak_sound:
  assumes inj: "inj blake" and len: "\<And>x. length (blake x) = 32"
    and n: "n = length xs" "mmr_size n < 2 ^ 64" and hj: "(h, j) \<in> set (mountains n)"
    and pth: "\<forall>s \<in> set pth. length s = 32"
    and ok: "verify_consume blake (mmr_size n) pth (mmr_root blake ser xs) el (node_pos h j) (peaks (mmr_size n)) = Inr ()"
  shows "el = node_content blake ser xs h j"
proof -
  let ?sz = "mmr_size n" and ?p = "hash_with_index blake el (node_pos h j - 1)"
  let ?ps = "mountain_hashes blake ser xs"
  obtain as bs where ms: "mountains n = as @ (h, j) # bs" using hj by (meson split_list)
  have idx: "\<exists>h j. (h, j) \<in> set (mountains n) \<and> p = node_hash blake ser xs h j" if "p \<in> set ?ps" for p
    using that n by (auto simp: mountain_hashes_def)
  have less: "node_pos h j - 1 < ?sz" if "(h, j) \<in> set (mountains n)" for h j
    using node_pos_index_less [OF mountains_exist [OF that]] .
  have peak: "el = node_content blake ser xs h j" if in_ps: "?p \<in> set ?ps"
  proof -
    obtain h' j' where hj': "(h', j') \<in> set (mountains n)" "?p = node_hash blake ser xs h' j'" using idx [OF in_ps] by blast
    have "node_pos h j - 1 = node_pos h' j' - 1 \<and> el = node_content blake ser xs h' j'"
      using hash_with_index_inj2 [OF inj hj'(2) [unfolded node_hash_content]] less [OF hj] less [OF hj'(1)] n(2)
      by linarith
    moreover have "node_pos h j = node_pos h' j'" using calculation node_pos_pos(1) [of h j] node_pos_pos(1) [of h' j'] by linarith
    ultimately show ?thesis using node_pos_inj by blast
  qed
  have bagged: "?p \<in> set ?ps" if bag: "bag blake ?sz qs = Some ?p" "set qs \<subseteq> set ?ps" for qs
  proof (cases "\<exists>a. qs = [a]")
    case True
    then show ?thesis using bag by auto
  next
    case False
    then obtain a qs' where "qs = a # qs'" "qs' \<noteq> []" using bag(1) by (cases qs) auto
    then obtain z where z: "hash_with_index blake (a @ z) ?sz = ?p" using bag(1) by (auto simp: bag_Cons)
    have "?sz = node_pos h j - 1" using hash_with_index_inj2 [OF inj z] less [OF hj] n(2) by linarith
    then show ?thesis using less [OF hj] by simp
  qed
  have "?ps \<noteq> []" using hj n(1) by (auto simp: mountain_hashes_def)
  then have root: "bag blake ?sz ?ps = Some (mmr_root blake ser xs)"
    by (cases "bag blake ?sz ?ps") (simp_all add: mmr_root_def n(1) [symmetric])
  have lens: "length p = 32" if "p \<in> set ?ps" for p
    using that by (auto simp: mountain_hashes_def length_node_hash [OF len])
  show ?thesis
  proof (cases pth)
    case Nil
    have "node_pos h j \<le> ?sz" using mountains_exist [OF hj] by (simp only: node_pos_le_mmr_size)
    then have "mmr_root blake ser xs = ?p"
      using ok Nil by (subst (asm) verify_consume.simps) (simp split: if_splits)
    then show ?thesis using root bagged [of ?ps] peak by simp
  next
    case (Cons s rest)
    define el' where "el' = (if bs = [] then s @ ?p else ?p @ s)"
    obtain pos' where pos': "pos' > ?sz"
      "verify_consume blake ?sz rest (mmr_root blake ser xs) el' pos' (peaks ?sz) = Inr ()"
      using verify_peak [OF n(2) ms, where blake = blake and s = s and rest = rest and rt = "mmr_root blake ser xs" and el = el]
        ok Cons el'_def by auto
    then have "bag blake ?sz ?ps = Some (foldl (\<lambda>r s. hash_with_index blake (s @ r) ?sz) (hash_with_index blake el' ?sz) (rev (rev rest)))"
      using verify_above [OF n(2) pos'(1)] root by simp
    moreover have "\<forall>p \<in> set ?ps. length p = 32 \<and> (\<exists>i c. i < ?sz \<and> p = hash_with_index blake c i)"
      using idx lens less by (metis node_hash_content)
    moreover have "\<forall>s \<in> set (rev rest). length s = 32" using pth Cons by simp
    ultimately obtain a qs r where a: "a \<in> set ?ps" "set qs \<subseteq> set ?ps" "bag blake ?sz qs = Some r" "el' = a @ r"
      using bag_peel [OF inj n(2)] by blast
    have "length ?p = 32" "length s = 32" "length a = 32" using pth Cons lens [OF a(1)] by (simp_all add: hash_with_index_def len)
    then have "?p = a \<or> ?p = r" using a(4) by (auto simp: el'_def split: if_splits)
    then show ?thesis using peak bagged [of qs] a by auto
  qed
qed

lemma mmr_root_shape:
  assumes "xs \<noteq> []"
  shows "(\<exists>c. mmr_root blake ser xs = hash_with_index blake c (mmr_size (length xs)))
    \<or> (\<exists>h j. (h, j) \<in> set (mountains (length xs)) \<and> mmr_root blake ser xs = node_hash blake ser xs h j)"
proof -
  let ?ps = "mountain_hashes blake ser xs"
  have ne: "?ps \<noteq> []" using assms by (simp add: mountain_hashes_def)
  show ?thesis
  proof (cases "\<exists>a. ?ps = [a]")
    case True
    then obtain a where a: "?ps = [a]" by blast
    then have "a \<in> set ?ps" by simp
    then show ?thesis using a by (auto simp: mountain_hashes_def mmr_root_def)
  next
    case False
    then obtain a qs where "?ps = a # qs" "qs \<noteq> []" using ne by (cases ?ps) auto
    moreover obtain r where "bag blake (mmr_size (length xs)) qs = Some r"
      using \<open>qs \<noteq> []\<close> by (cases "bag blake (mmr_size (length xs)) qs") auto
    ultimately show ?thesis by (auto simp: mmr_root_def bag_Cons)
  qed
qed

lemma verify_sound:
  assumes inj: "inj blake" and len: "\<And>x. length (blake x) = 32"
    and n: "n = length xs" "mmr_size n < 2 ^ 64" and ex: "(j + 1) * 2 ^ h \<le> n"
    and pth: "\<forall>s \<in> set pth. length s = 32"
    and ok: "verify_consume blake (mmr_size n) pth (mmr_root blake ser xs) el (node_pos h j) (peaks (mmr_size n)) = Inr ()"
  shows "el = node_content blake ser xs h j"
  using n ex pth ok
proof (induction n h j arbitrary: pth el rule: ancestors.induct)
  case (1 n h j)
  let ?p = "hash_with_index blake el (node_pos h j - 1)" and ?H = "node_hash blake ser xs"
  show ?case
  proof (cases "(j div 2 + 1) * 2 ^ Suc h \<le> n")
    case False
    then show ?thesis using verify_peak_sound [OF inj len "1.prems"(1,2) mountain_top [OF "1.prems"(3) False] "1.prems"(4,5)] by simp
  next
    case True
    have less: "node_pos h j - 1 < mmr_size n" by (rule node_pos_index_less [OF "1.prems"(3)])
    show ?thesis
    proof (cases pth)
      case Nil
      have "node_pos h j \<le> mmr_size n" using "1.prems"(3) by (simp only: node_pos_le_mmr_size)
      then have root: "mmr_root blake ser xs = ?p"
        using "1.prems"(5) Nil by (subst (asm) verify_consume.simps) (simp split: if_splits)
      have "xs \<noteq> []" using "1.prems"(1,3) by auto
      from mmr_root_shape [OF this, of blake ser] show ?thesis
      proof (elim disjE exE conjE)
        fix c assume "mmr_root blake ser xs = hash_with_index blake c (mmr_size (length xs))"
        then have "node_pos h j - 1 = mmr_size n"
          using hash_with_index_inj2 [OF inj, of el "node_pos h j - 1" c "mmr_size n"] root less "1.prems"(1,2)
          by simp
        then show ?thesis using less by simp
      next
        fix h' j' assume m: "(h', j') \<in> set (mountains (length xs))" and "mmr_root blake ser xs = ?H h' j'"
        then have eq: "?p = hash_with_index blake (node_content blake ser xs h' j') (node_pos h' j' - 1)"
          using root by (simp only: node_hash_content)
        have "node_pos h' j' - 1 < mmr_size n"
          using node_pos_index_less [OF mountains_exist [OF m]] "1.prems"(1) by simp
        then have "node_pos h j - 1 = node_pos h' j' - 1"
          using hash_with_index_inj2 [OF inj eq] less "1.prems"(2) by linarith
        then have "node_pos h j = node_pos h' j'" using node_pos_pos(1) [of h j] node_pos_pos(1) [of h' j'] by linarith
        then show ?thesis using node_pos_inj m not_mountain [OF True] "1.prems"(1) by blast
      qed
    next
      case (Cons s rest)
      let ?el = "if odd j then s @ ?p else ?p @ s"
      have v: "verify_consume blake (mmr_size n) rest (mmr_root blake ser xs) ?el (node_pos (Suc h) (j div 2)) (peaks (mmr_size n)) = Inr ()"
        using "1.prems"(5) verify_inside [OF "1.prems"(2) True] Cons by simp
      have "?el = node_content blake ser xs (Suc h) (j div 2)"
        using "1.IH" [OF "1.prems"(3,1,2) True _ v] "1.prems"(4) Cons by simp
      moreover have "length s = 32" using "1.prems"(4) Cons by simp
      ultimately have "?p = ?H h j"
        by (auto simp: node_content_parent hash_with_index_def len length_node_hash [OF len] split: if_splits)
      then show ?thesis unfolding node_hash_content using hash_with_index_inj [OF inj] by blast
    qed
  qed
qed

section \<open>Encoding\<close>

lemma read_path_adv:
  "\<forall>h \<in> set hs. length h = 32 \<Longrightarrow>
    read_path (length hs) (adv r n (write_vec write_hash hs @ rest)) = Inr (hs, adv r (n + length (write_vec write_hash hs)) rest)"
proof (induction hs arbitrary: n)
  case (Cons h hs)
  then show ?case using hashc.rd_wr [of h r n] by (simp add: write_vec_def add.assoc)
qed (simp add: write_vec_def)

definition merkle_proof_ok :: "merkle_proof_rec \<Rightarrow> bool" where
  "merkle_proof_ok p \<longleftrightarrow> mp_mmr_size p < 2 ^ 64 \<and> length (mp_path p) < 2 ^ 64 \<and> (\<forall>h \<in> set (mp_path p). length h = 32)"

interpretation merklec: codec "\<lambda>_. write_merkle_proof" read_merkle_proof "\<lambda>_. merkle_proof_ok"
proof
  fix r :: reader and x :: merkle_proof_rec and n :: nat and rest :: bytes
  assume "merkle_proof_ok x"
  then show "read_merkle_proof (adv r n (write_merkle_proof x @ rest))
      = Inr (x, adv r (n + length (write_merkle_proof x)) rest)"
    using read_path_adv [of "mp_path x" r "n + 8 + 8" rest]
    by (simp add: merkle_proof_ok_def read_merkle_proof_def write_merkle_proof_def unat_of_nat_u64 add.assoc)
qed

section \<open>Properties\<close>

text \<open>
  Claim C15. The Merkle proof that a range over the vector backend builds for an element that was not
  removed verifies against the root of the range, and survives serialization.
\<close>

theorem merkle_proof_complete_vec:
  assumes "vec_mmr blake ser xs pm" "i < length xs" "insertion_to_pmmr_index (Suc i) \<notin> vb_removed (backend pm)"
  shows "\<exists>p rt. merkle_proof (vec_ops as_elmt) blake pm (insertion_to_pmmr_index (Suc i)) = Inr p
    \<and> root (vec_ops as_elmt) blake pm = Inr rt
    \<and> verify blake p rt (ser (xs ! i)) (insertion_to_pmmr_index (Suc i)) = Inr ()"
proof -
  have st: "mmr_state (\<lambda>b. map Some (vb_hashes b)) (\<lambda>_. True) blake ser xs pm" using assms(1) by (simp add: vec_mmr_def)
  have full: "None \<notin> set (map Some (vb_hashes (backend pm)))" by auto
  have "be_get_from_file (vec_ops as_elmt) (backend pm) (node_pos 0 i) = Some (node_hash blake ser xs 0 i)"
    using vecs.get_from_file_full [OF st full, of i 0] assms(2) by simp
  then have "be_get_hash (vec_ops as_elmt) (backend pm) (node_pos 0 i) \<noteq> None"
    using assms(3) by (simp add: vec_ops_def vec_get_hash_def insertion_to_pmmr_index_node_pos)
  then show ?thesis
    using vecs.merkle_proof_complete [OF st full assms(2), of as_elmt] vecs.root_stands_for [OF st, of as_elmt]
    by (simp add: insertion_to_pmmr_index_node_pos)
qed

lemma merkle_proof_complete_vec_witness:
  "\<exists>pm p rt. vec_mmr (\<lambda>_. ZERO_HASH) write_u8 [7, 9] pm
    \<and> merkle_proof (vec_ops id) (\<lambda>_. ZERO_HASH) pm (insertion_to_pmmr_index 1) = Inr p
    \<and> root (vec_ops id) (\<lambda>_. ZERO_HASH) pm = Inr rt
    \<and> verify (\<lambda>_. ZERO_HASH) p rt (write_u8 7) (insertion_to_pmmr_index 1) = Inr ()"
proof -
  obtain pm where run: "vec_run id (\<lambda>_. ZERO_HASH) write_u8 [7, 9] pm" and rm: "vb_removed (backend pm) = {}"
    using vec_run_two [of id "\<lambda>_. ZERO_HASH" write_u8 7 9] by blast
  have pm: "vec_mmr (\<lambda>_. ZERO_HASH) write_u8 [7, 9] pm" using vec_run_vec_mmr [OF run] by blast
  have "0 < length [7, 9 :: u8]" by simp
  from merkle_proof_complete_vec [OF pm this, of id] rm pm show ?thesis by auto
qed


lemma verify_single:
  "verify blake \<lparr>mp_mmr_size = 1, mp_path = []\<rparr> (mmr_root blake ser [x]) (ser x) (insertion_to_pmmr_index (Suc 0)) = Inr ()"
proof -
  have "mountains 1 = [(0, 0)]" "node_pos 0 0 = 1" by (simp_all add: pos_eval)
  then show ?thesis unfolding verify_def
    by (subst verify_consume.simps)
       (simp add: mmr_root_def mountain_hashes_def insertion_to_pmmr_index_def)
qed


end
