(* ===== verification/File_Range.thy ===== *)
theory File_Range
  imports Store_Pmmr Tx_Types Merkle_Proof
begin

text \<open>
  A Merkle Mountain Range over the files of \<open>store/src/pmmr.rs\<close>, the way \<open>chain/src/txhashset/txhashset.rs\<close> uses it: a handle
  keeps the backend and the size of the range at the last commit, a unit of work pushes, prunes and rewinds a range opened at
  that size, and then either syncs the files and keeps the new size or discards the work. In between the files may be compacted
  or opened again.
\<close>

section \<open>The backend as storage of a range\<close>

definition no_panic :: "(string + 'a) option \<Rightarrow> string + 'a" where
  "no_panic r = (case r of None \<Rightarrow> Inl ''panic'' | Some r \<Rightarrow> r)"

definition flat :: "'a option option \<Rightarrow> 'a option" where
  "flat r = (case r of None \<Rightarrow> None | Some r \<Rightarrow> r)"

definition file_ops ::
  "(version \<Rightarrow> 'e \<Rightarrow> bytes) \<Rightarrow> (reader \<Rightarrow> 'e parse) \<Rightarrow> ('t \<Rightarrow> 'e) \<Rightarrow> (pmmr_backend, 't, 'e) backend_ops" where
  "file_ops wr rd as_elmt = \<lparr>be_append = \<lambda>b x hs. no_panic (pb_append wr as_elmt b x hs),
     be_rewind = \<lambda>b pos rm. no_panic (pb_rewind b pos rm), be_get_hash = \<lambda>b pos. flat (pb_get_hash b pos),
     be_get_data = \<lambda>b pos. flat (pb_get_data rd b pos), be_get_from_file = \<lambda>b pos. flat (pb_get_from_file b pos),
     be_get_data_from_file = \<lambda>b pos. flat (pb_get_data_from_file rd b pos),
     be_leaf_pos_iter = \<lambda>b. unwrap_or [] (pb_leaf_pos_iter b), be_leaf_idx_iter = \<lambda>b i. unwrap_or [] (pb_leaf_idx_iter b i),
     be_remove = \<lambda>b pos. no_panic (pb_remove b pos)\<rparr>"

text \<open>The hashes that can be read, position by position.\<close>

definition file_hashes :: "pmmr_backend \<Rightarrow> hash option list" where
  "file_hashes b = map (\<lambda>pos. flat (pb_get_from_file b pos))
     [1..<Suc (size_unsync_in_elmts (pb_hash_file b) + unwrap_or 0 (get_total_shift (pb_prune_list b)))]"

text \<open>The peaks of a range are never compacted away.\<close>

lemma peak_not_compacted:
  assumes "L \<subseteq> {..<n}" "(h, j) \<in> set (mountains n)"
  shows "node_pos h j \<notin> compacted_set L"
proof
  assume "node_pos h j \<in> compacted_set L"
  then have "full L (Suc h) (j div 2)" by simp
  then have "(j div 2 + 1) * 2 ^ Suc h \<le> n" by (rule full_exists [OF assms(1)])
  then have "((j div 2 + 1) * 2) * 2 ^ h \<le> n" by (simp only: power_Suc mult.assoc)
  then have "(j div 2 + 1) * 2 \<le> n div 2 ^ h" by (simp only: less_eq_div_iff_mult_less_eq zero_less_power zero_less_numeral)
  then show False using assms(2) by (auto simp: in_mountains elim!: oddE)
qed

context fixed_elmt
begin

lemma rep_file_hashes:
  assumes "backend_rep v L r0 r b"
  shows "file_hashes b = map (\<lambda>pos. if pos \<in> compacted_set L then None else Some (rs_hashes r ! (pos - 1))) [1..<Suc (length (rs_hashes r))]"
proof -
  let ?n = "length (rs_hashes r)"
  have ok: "?n = mmr_size (length (rs_data r))" "?n < 2 ^ 31" "L \<subseteq> {..<length (rs_data r)}" using repD(3) [OF assms] by (simp_all add: range_ok_def)
  have all: "{q \<in> compacted_set L. q \<le> ?n} = compacted_set L" using compacted_bound [OF ok(3)] ok(1) by (auto dest: less_imp_le)
  have "0 < q \<and> q \<le> ?n" if "q \<in> compacted_set L" for q
    using compacted_bound [OF ok(3) that] zero_notin(3) [of L] that ok(1) by (cases q) simp_all
  then have "compacted_set L \<subseteq> {1..?n}" by (auto simp: Suc_le_eq)
  then have le: "card (compacted_set L) \<le> ?n" using card_mono [of "{1..?n}" "compacted_set L"] by simp
  have "size_unsync_in_elmts (pb_hash_file b) = card {i \<in> kept_pos L. i < ?n}"
    using hashf.holds_size(1) [OF repD(1) [OF assms]] length_nths_take [of ?n "rs_hashes r" "kept_pos L"] by simp
  then have sz: "size_unsync_in_elmts (pb_hash_file b) = ?n - card (compacted_set L)" unfolding kept_rank all .
  have "get_total_shift (pb_prune_list b) = Some (card (compacted_set L))" by (rule total_shift_eq(1) [OF repD(5) [OF assms]])
  then have "file_hashes b = map (\<lambda>pos. flat (pb_get_from_file b pos)) [1..<Suc ?n]"
    using sz le by (simp add: file_hashes_def unwrap_or_def)
  moreover have "flat (pb_get_from_file b pos) = (if pos \<in> compacted_set L then None else Some (rs_hashes r ! (pos - 1)))"
    if "pos \<in> set [1..<Suc ?n]" for pos
    using that rep_get_from_file [OF assms, of pos] ok(2) by (simp add: flat_def del: upt_Suc)
  ultimately show ?thesis by (simp cong: map_cong del: upt_Suc)
qed

lemma rep_mmr_file:
  assumes "backend_rep v L r0 r b" "mmr_file blake ser xs (map Some (rs_hashes r))" "length xs = length (rs_data r)"
  shows "mmr_file blake ser xs (file_hashes b)"
proof -
  let ?n = "length xs" and ?fl = "map Some (rs_hashes r)"
  have sub: "L \<subseteq> {..<?n}" and len: "length (rs_hashes r) = mmr_size ?n"
    using repD(3) [OF assms(1)] assms(3) by (simp_all add: range_ok_def)
  have nth: "file_hashes b ! (node_pos h j - 1) = (if node_pos h j \<in> compacted_set L then None else ?fl ! (node_pos h j - 1))"
    if "(j + 1) * 2 ^ h \<le> ?n" for h j
    using node_pos_index_less [OF that] node_pos_pos(1) [of h j] len unfolding rep_file_hashes [OF assms(1)]
    by (simp del: upt_Suc in_compacted_set)
  have peak: "node_pos h j \<notin> compacted_set L" if "(h, j) \<in> set (mountains ?n)" for h j
    using that by (rule peak_not_compacted [OF sub])
  show ?thesis unfolding mmr_file_def
  proof (intro conjI allI impI)
    show "length (file_hashes b) = mmr_size ?n" using len by (simp add: rep_file_hashes [OF assms(1)] del: upt_Suc)
  next
    fix h j assume "(j + 1) * 2 ^ h \<le> ?n"
    then show "file_hashes b ! (node_pos h j - 1) \<in> {None, Some (node_hash blake ser xs h j)}"
      using nth [of j h] assms(2) by (simp add: mmr_file_def del: in_compacted_set)
  next
    fix h j assume m: "(h, j) \<in> set (mountains ?n)"
    then show "file_hashes b ! (node_pos h j - 1) = Some (node_hash blake ser xs h j)"
      using nth [OF mountains_exist [OF m]] peak [OF m] assms(2) by (simp add: mmr_file_def del: in_compacted_set)
  qed
qed

definition file_inv :: "version \<Rightarrow> pmmr_backend \<Rightarrow> bool" where
  "file_inv v b \<longleftrightarrow> (\<exists>L r0 r. backend_rep v L r0 r b)"

definition file_storable :: "version \<Rightarrow> ('t \<Rightarrow> 'e) \<Rightarrow> pmmr_backend \<Rightarrow> 't \<Rightarrow> hash list \<Rightarrow> bool" where
  "file_storable v as_elmt b x hs \<longleftrightarrow> good v (as_elmt x) \<and> (\<forall>h \<in> set hs. length h = 32)
    \<and> (\<exists>n. length (file_hashes b) = mmr_size n \<and> length (file_hashes b) + length hs = mmr_size (Suc n) \<and> mmr_size (Suc n) < 2 ^ 31)"

definition file_rewindable :: "version \<Rightarrow> pmmr_backend \<Rightarrow> nat \<Rightarrow> nat set \<Rightarrow> bool" where
  "file_rewindable v b pos rm \<longleftrightarrow> idle b \<and> (\<exists>L r0 r m. backend_rep v L r0 r b \<and> m \<le> length (rs_data r) \<and> pos = mmr_size m
     \<and> L \<subseteq> {..<m} \<and> rm \<subseteq> node_pos 0 ` ({..<m} - L))"

lemma mmr_size_inject: "mmr_size m = mmr_size n \<longleftrightarrow> m = n"
  by (simp add: eq_iff)

lemma rep_file_hashes_append:
  assumes "backend_rep v L r0 r b" "backend_rep v L r0 (rs_append r x hs) b'"
  shows "file_hashes b' = file_hashes b @ map Some hs"
proof -
  have "L \<subseteq> {..<length (rs_data r)}" "length (rs_hashes r) = mmr_size (length (rs_data r))"
    using repD(3) [OF assms(1)] by (simp_all add: range_ok_def)
  then have "q \<notin> compacted_set L" if "length (rs_hashes r) < q" for q using compacted_bound [of L "length (rs_data r)" q] that by fastforce
  then show ?thesis unfolding rep_file_hashes [OF assms(1)] rep_file_hashes [OF assms(2)]
    by (intro nth_equalityI) (auto simp: rs_append_def nth_append simp del: upt_Suc)
qed

lemma rep_file_hashes_rewind:
  assumes "backend_rep v L r0 r b" "backend_rep v L r0 (rs_rewind r m rm) b'" "m \<le> length (rs_data r)"
  shows "file_hashes b' = take (mmr_size m) (file_hashes b)"
proof -
  have "mmr_size m \<le> length (rs_hashes r)" using repD(3) [OF assms(1)] assms(3) by (simp add: range_ok_def)
  then show ?thesis unfolding rep_file_hashes [OF assms(1)] rep_file_hashes [OF assms(2)]
    by (intro nth_equalityI) (auto simp: rs_rewind_def simp del: upt_Suc)
qed

end

sublocale fixed_elmt \<subseteq> files: mmr_storage "file_ops wr rd as_elmt" file_hashes "file_inv v" "file_storable v as_elmt" "file_rewindable v"
  for v as_elmt
proof (unfold_locales, goal_cases)
  case (1 b pos)
  then obtain L r0 r where rep: "backend_rep v L r0 r b" by (auto simp: file_inv_def)
  have "length (rs_hashes r) < 2 ^ 31" using repD(3) [OF rep] by (simp add: range_ok_def)
  then show ?case using 1(2,3) rep_get_from_file [OF rep, of pos] unfolding rep_file_hashes [OF rep] by (simp add: file_ops_def flat_def del: upt_Suc)
next
  case (2 b pos h)
  then show ?case by (auto simp: file_ops_def pb_get_hash_def flat_def split: if_splits)
next
  case (3 b x hs)
  then obtain L r0 r where rep: "backend_rep v L r0 r b" by (auto simp: file_inv_def)
  have "length (rs_hashes r) = mmr_size (length (rs_data r))" using repD(3) [OF rep] by (simp add: range_ok_def)
  moreover have "length (file_hashes b) = length (rs_hashes r)" by (simp add: rep_file_hashes [OF rep] del: upt_Suc)
  ultimately obtain b' where b': "pb_append wr as_elmt b x hs = Some (Inr b')" "backend_rep v L r0 (rs_append r (as_elmt x) hs) b'"
    using rep_append [OF rep, of as_elmt x hs] 3(2) by (auto simp: file_storable_def mmr_size_inject)
  then show ?case using rep_file_hashes_append [OF rep b'(2)] by (auto simp: file_ops_def no_panic_def file_inv_def)
next
  case (4 b pos rm)
  then obtain L r0 r m where rep: "backend_rep v L r0 r b" and m: "idle b" "m \<le> length (rs_data r)" "pos = mmr_size m" "L \<subseteq> {..<m}"
    "rm \<subseteq> node_pos 0 ` ({..<m} - L)" by (auto simp: file_rewindable_def)
  obtain b' where b': "pb_rewind b pos rm = Some (Inr b')" "backend_rep v L r0 (rs_rewind r m rm) b'"
    using rep_rewind [OF rep m(1,2,4,5)] m(3) by blast
  then show ?case using rep_file_hashes_rewind [OF rep b'(2) m(2)] m(3) by (auto simp: file_ops_def no_panic_def file_inv_def)
next
  case (5 b pos)
  then obtain L r0 r where rep: "backend_rep v L r0 r b" by (auto simp: file_inv_def)
  obtain b' where b': "pb_remove b pos = Some (Inr b')" "backend_rep v L r0 (r\<lparr>rs_leaves := rs_leaves r - {as_u32 pos}\<rparr>) b'"
    using rep_remove [OF rep, of pos] by blast
  then show ?case using rep_file_hashes [OF rep] rep_file_hashes [OF b'(2)] by (auto simp: file_ops_def no_panic_def file_inv_def)
qed

section \<open>Handles and units of work\<close>

record pmmr_handle =
  ph_backend :: pmmr_backend
  ph_last_pos :: nat

definition pmmr_handle_new ::
  "(reader \<Rightarrow> 'e parse) \<Rightarrow> nat option \<Rightarrow> bool \<Rightarrow> version \<Rightarrow> bytes \<Rightarrow> bytes \<Rightarrow> bytes \<Rightarrow> bitmap \<Rightarrow> bitmap option \<Rightarrow> bitmap \<Rightarrow>
     (ser_error + pmmr_handle) option" where
  "pmmr_handle_new rd esize prunable v hash_bytes data_bytes size_bytes leaf_bm snap prune_bm =
    (case pmmr_backend_new rd esize prunable v hash_bytes data_bytes size_bytes leaf_bm snap prune_bm of
       None \<Rightarrow> None
     | Some (Inl e) \<Rightarrow> Some (Inl e)
     | Some (Inr b) \<Rightarrow> map_option (\<lambda>last_pos. Inr \<lparr>ph_backend = b, ph_last_pos = last_pos\<rparr>) (pb_unpruned_size b))"

text \<open>
  The steps a unit of work and the maintenance between units of work take on one range. The leaves are named by their index:
  \<open>Rewind_to m rm\<close> goes back to the first \<open>m\<close> leaves and puts the leaves \<open>rm\<close> back, \<open>Compact c rm\<close> compacts the first \<open>c\<close>
  leaves and spares the leaves \<open>rm\<close>, \<open>Reopen\<close> drops the handle and makes a new one from the files.
\<close>

datatype 't range_op = Push_elmt 't | Prune_leaf nat | Rewind_to nat "nat set" | Commit | Rollback | Compact nat "nat set" | Reopen

record range_work =
  rw_last_pos :: nat
  rw_pmmr :: "pmmr_backend pmmr"

definition work_at :: "nat \<Rightarrow> pmmr_backend \<Rightarrow> range_work" where
  "work_at pos b = \<lparr>rw_last_pos = pos, rw_pmmr = pmmr_at b pos\<rparr>"

fun run_op ::
  "(version \<Rightarrow> 'e \<Rightarrow> bytes) \<Rightarrow> (reader \<Rightarrow> 'e parse) \<Rightarrow> nat \<Rightarrow> ('t \<Rightarrow> 'e) \<Rightarrow> (bytes \<Rightarrow> hash) \<Rightarrow> ('t \<Rightarrow> bytes) \<Rightarrow>
     't range_op \<Rightarrow> range_work \<Rightarrow> range_work option" where
  "run_op wr rd esize as_elmt blake ser (Push_elmt x) w =
    (case pmmr_push (file_ops wr rd as_elmt) blake ser (rw_pmmr w) x of Inl _ \<Rightarrow> None | Inr (_, pm) \<Rightarrow> Some (w\<lparr>rw_pmmr := pm\<rparr>))"
| "run_op wr rd esize as_elmt blake ser (Prune_leaf i) w =
    (case pmmr_prune (file_ops wr rd as_elmt) (rw_pmmr w) (insertion_to_pmmr_index (Suc i)) of
       Inl _ \<Rightarrow> None | Inr (_, pm) \<Rightarrow> Some (w\<lparr>rw_pmmr := pm\<rparr>))"
| "run_op wr rd esize as_elmt blake ser (Rewind_to m rm) w =
    (case pmmr_rewind (file_ops wr rd as_elmt) (rw_pmmr w) (mmr_size m) (node_pos 0 ` rm) of
       Inl _ \<Rightarrow> None | Inr pm \<Rightarrow> Some (w\<lparr>rw_pmmr := pm\<rparr>))"
| "run_op wr rd esize as_elmt blake ser Commit w =
    (case pb_sync (backend (rw_pmmr w)) of Inl _ \<Rightarrow> None | Inr b \<Rightarrow> Some (work_at (last_pos (rw_pmmr w)) b))"
| "run_op wr rd esize as_elmt blake ser Rollback w = Some (work_at (rw_last_pos w) (pb_discard (backend (rw_pmmr w))))"
| "run_op wr rd esize as_elmt blake ser (Compact c rm) w =
    map_option (work_at (rw_last_pos w)) (check_compact wr rd (backend (rw_pmmr w)) (mmr_size c) (node_pos 0 ` rm))"
| "run_op wr rd esize as_elmt blake ser Reopen w =
    (let b = backend (rw_pmmr w)
     in case pmmr_handle_new rd (Some esize) True (fs_version (aof_state (pb_hash_file b))) (fs_file (aof_state (pb_hash_file b)))
            (fs_file (aof_state (pb_data_file b))) [] (ls_file (pb_leaf_set b)) None (unwrap_or {} (pl_file (pb_prune_list b))) of
          Some (Inr h) \<Rightarrow> Some (work_at (ph_last_pos h) (ph_backend h))
        | _ \<Rightarrow> None)"

section \<open>The range as a list of leaves\<close>

text \<open>
  What the range promises: the leaves and the indices of those that are not spent, on disk and now, and the leaves whose data is
  gone. \<open>sp_idle\<close> says that nothing was pushed since the files were last in step with the range, \<open>sp_synced\<close> that the files are
  as the last commit left them.
\<close>

record 't range_spec =
  sp_disk :: "'t list \<times> nat set"
  sp_cur :: "'t list \<times> nat set"
  sp_pruned :: "nat set"
  sp_idle :: bool
  sp_synced :: bool

definition range_spec_new :: "'t range_spec" where
  "range_spec_new = \<lparr>sp_disk = ([], {}), sp_cur = ([], {}), sp_pruned = {}, sp_idle = True, sp_synced = False\<rparr>"

fun rspec_op :: "'t range_op \<Rightarrow> 't range_spec \<Rightarrow> 't range_spec" where
  "rspec_op (Push_elmt x) s = (let (xs, S) = sp_cur s
     in s\<lparr>sp_cur := (xs @ [x], insert (length xs) S), sp_idle := False, sp_synced := False\<rparr>)"
| "rspec_op (Prune_leaf i) s = (let (xs, S) = sp_cur s in s\<lparr>sp_cur := (xs, S - {i}), sp_synced := False\<rparr>)"
| "rspec_op (Rewind_to m rm) s = (let (xs, S) = sp_cur s in s\<lparr>sp_cur := (take m xs, {i \<in> S. i < m} \<union> rm), sp_synced := False\<rparr>)"
| "rspec_op Commit s = s\<lparr>sp_disk := sp_cur s, sp_idle := True, sp_synced := True\<rparr>"
| "rspec_op Rollback s = s\<lparr>sp_cur := sp_disk s, sp_idle := True, sp_synced := False\<rparr>"
| "rspec_op (Compact c rm) s = (let (xs, S) = sp_cur s in s\<lparr>sp_pruned := sp_pruned s \<union> ({..<c} - S - rm)\<rparr>)"
| "rspec_op Reopen s = s\<lparr>sp_cur := sp_disk s, sp_idle := True, sp_synced := True\<rparr>"

text \<open>
  When a step is taken: an element is pushed while the positions fit a bitmap, a rewind comes before the pushes of its unit of
  work and neither goes behind a compacted leaf nor puts one back, and compaction runs between units of work.
\<close>

fun step_allowed :: "('t \<Rightarrow> bool) \<Rightarrow> 't range_op \<Rightarrow> 't range_spec \<Rightarrow> bool" where
  "step_allowed storable (Push_elmt x) s \<longleftrightarrow> storable x \<and> mmr_size (Suc (length (fst (sp_cur s)))) < 2 ^ 31"
| "step_allowed storable (Prune_leaf i) s \<longleftrightarrow> i < length (fst (sp_cur s))"
| "step_allowed storable (Rewind_to m rm) s \<longleftrightarrow> sp_idle s \<and> m \<le> length (fst (sp_cur s)) \<and> sp_pruned s \<subseteq> {..<m} \<and> rm \<subseteq> {..<m} - sp_pruned s"
| "step_allowed storable (Compact c rm) s \<longleftrightarrow> sp_synced s \<and> c \<le> length (fst (sp_cur s))"
| "step_allowed storable _ s \<longleftrightarrow> True"

fun run_ops ::
  "(version \<Rightarrow> 'e \<Rightarrow> bytes) \<Rightarrow> (reader \<Rightarrow> 'e parse) \<Rightarrow> nat \<Rightarrow> ('t \<Rightarrow> 'e) \<Rightarrow> (bytes \<Rightarrow> hash) \<Rightarrow> ('t \<Rightarrow> bytes) \<Rightarrow>
     't range_op list \<Rightarrow> range_work \<Rightarrow> range_work option" where
  "run_ops wr rd esize as_elmt blake ser [] w = Some w"
| "run_ops wr rd esize as_elmt blake ser (x # xs) w =
    Option.bind (run_op wr rd esize as_elmt blake ser x w) (run_ops wr rd esize as_elmt blake ser xs)"

fun rspec_ops :: "'t range_op list \<Rightarrow> 't range_spec \<Rightarrow> 't range_spec" where
  "rspec_ops [] s = s"
| "rspec_ops (x # xs) s = rspec_ops xs (rspec_op x s)"

fun steps_allowed :: "('t \<Rightarrow> bool) \<Rightarrow> 't range_op list \<Rightarrow> 't range_spec \<Rightarrow> bool" where
  "steps_allowed storable [] s \<longleftrightarrow> True"
| "steps_allowed storable (x # xs) s \<longleftrightarrow> step_allowed storable x s \<and> steps_allowed storable xs (rspec_op x s)"

context fixed_elmt
begin

definition range_for :: "('t \<Rightarrow> 'e) \<Rightarrow> (bytes \<Rightarrow> hash) \<Rightarrow> ('t \<Rightarrow> bytes) \<Rightarrow> 't list \<times> nat set \<Rightarrow> 'e range_state \<Rightarrow> bool" where
  "range_for as_elmt blake ser p r \<longleftrightarrow> rs_data r = map as_elmt (fst p) \<and> mmr_file blake ser (fst p) (map Some (rs_hashes r))
    \<and> rs_leaves r = node_pos 0 ` snd p"

definition fresh :: "version \<Rightarrow> nat set \<Rightarrow> 'e range_state \<Rightarrow> pmmr_backend \<Rightarrow> bool" where
  "fresh v L r b \<longleftrightarrow> hashf.clean v (nths (rs_hashes r) (kept_pos L)) (pb_hash_file b) \<and> clean v (nths (rs_data r) (kept_leaf L)) (pb_data_file b)"

definition tracks ::
  "version \<Rightarrow> ('t \<Rightarrow> 'e) \<Rightarrow> (bytes \<Rightarrow> hash) \<Rightarrow> ('t \<Rightarrow> bytes) \<Rightarrow> 't range_spec \<Rightarrow> range_work \<Rightarrow> bool" where
  "tracks v as_elmt blake ser s w \<longleftrightarrow> (\<exists>r0 r. backend_rep v (sp_pruned s) r0 r (backend (rw_pmmr w))
     \<and> range_for as_elmt blake ser (sp_disk s) r0 \<and> range_for as_elmt blake ser (sp_cur s) r
     \<and> rw_last_pos w = mmr_size (length (fst (sp_disk s))) \<and> last_pos (rw_pmmr w) = mmr_size (length (fst (sp_cur s)))
     \<and> (sp_idle s \<longrightarrow> idle (backend (rw_pmmr w)))
     \<and> (sp_synced s \<longrightarrow> r0 = r \<and> sp_disk s = sp_cur s \<and> fresh v (sp_pruned s) r (backend (rw_pmmr w))))"

lemma tracks_stands_for:
  assumes "tracks v as_elmt blake ser s w"
  shows "mmr_state file_hashes (file_inv v) blake ser (fst (sp_cur s)) (rw_pmmr w)"
proof -
  obtain r0 r where t: "backend_rep v (sp_pruned s) r0 r (backend (rw_pmmr w))" "range_for as_elmt blake ser (sp_cur s) r"
      "last_pos (rw_pmmr w) = mmr_size (length (fst (sp_cur s)))" using assms by (auto simp: tracks_def)
  then have len: "length (fst (sp_cur s)) = length (rs_data r)" by (simp add: range_for_def)
  then have "mmr_size (length (fst (sp_cur s))) < 2 ^ 64" using repD(3) [OF t(1)] by (simp add: range_ok_def)
  then show ?thesis using t rep_mmr_file [OF t(1) _ len] by (auto simp: mmr_state_def file_inv_def range_for_def)
qed

lemma tracks_push:
  assumes "tracks v as_elmt blake ser s w" "good v (as_elmt x)" "mmr_size (Suc (length (fst (sp_cur s)))) < 2 ^ 31" "\<forall>bs. length (blake bs) = 32"
  shows "\<exists>w'. run_op wr rd esize as_elmt blake ser (Push_elmt x) w = Some w' \<and> tracks v as_elmt blake ser (rspec_op (Push_elmt x) s) w'"
proof -
  obtain xs S where cur: "sp_cur s = (xs, S)" by (cases "sp_cur s")
  obtain r0 r where t: "backend_rep v (sp_pruned s) r0 r (backend (rw_pmmr w))" "range_for as_elmt blake ser (sp_cur s) r"
      "range_for as_elmt blake ser (sp_disk s) r0" "rw_last_pos w = mmr_size (length (fst (sp_disk s)))" using assms(1) by (auto simp: tracks_def)
  let ?hs = "new_hashes blake ser xs x"
  have h32: "\<forall>h \<in> set ?hs. length h = 32" using new_hashes_range [of blake ser xs x] assms(4) by auto
  have len: "length (rs_data r) = length xs" "length (rs_hashes r) = mmr_size (length xs)" using t(2) repD(3) [OF t(1)] cur by (auto simp: range_for_def range_ok_def)
  have "length (rs_hashes r @ ?hs) = mmr_size (Suc (length (rs_data r)))"
    using len mmr_size_less_Suc [of "length xs"] by (simp add: length_new_hashes)
  then obtain b' where b': "pb_append wr as_elmt (backend (rw_pmmr w)) x ?hs = Some (Inr b')"
      "backend_rep v (sp_pruned s) r0 (rs_append r (as_elmt x) ?hs) b'"
    using rep_append [where as_elmt = as_elmt and x = x, OF t(1) assms(2) h32] assms(3) len cur by auto
  have "range_for as_elmt blake ser (xs @ [x], insert (length xs) S) (rs_append r (as_elmt x) ?hs)"
    using t(2) cur len(1) mmr_file_append [of blake ser xs "map Some (rs_hashes r)" x] by (simp add: range_for_def rs_append_def)
  moreover have "mmr_state file_hashes (file_inv v) blake ser xs (rw_pmmr w)" using tracks_stands_for [OF assms(1)] cur by simp
  note files.push_stands_for_step [OF this, of as_elmt x]
  ultimately show ?thesis using b' t cur by (auto simp: tracks_def file_ops_def no_panic_def)
qed

lemma tracks_prune:
  assumes "tracks v as_elmt blake ser s w" "i < length (fst (sp_cur s))"
  shows "\<exists>w'. run_op wr rd esize as_elmt blake ser (Prune_leaf i) w = Some w' \<and> tracks v as_elmt blake ser (rspec_op (Prune_leaf i) s) w'"
proof -
  obtain xs S where cur: "sp_cur s = (xs, S)" by (cases "sp_cur s")
  obtain r0 r where t: "backend_rep v (sp_pruned s) r0 r (backend (rw_pmmr w))" "range_for as_elmt blake ser (sp_cur s) r"
      "range_for as_elmt blake ser (sp_disk s) r0" "rw_last_pos w = mmr_size (length (fst (sp_disk s)))"
      "last_pos (rw_pmmr w) = mmr_size (length xs)" "sp_idle s \<longrightarrow> idle (backend (rw_pmmr w))"
    using assms(1) cur by (auto simp: tracks_def)
  have len: "length (rs_data r) = length xs" "mmr_size (length xs) < 2 ^ 31" using t(2) repD(3) [OF t(1)] cur by (auto simp: range_for_def range_ok_def)
  have i32: "node_pos 0 i < 2 ^ 32" using leaf_le_size [of i "length xs"] assms(2) cur len(2) by simp
  have leaf: "is_leaf (node_pos 0 i)" using i32 is_leaf_node_pos [of 0 i] by simp
  have mem: "node_pos 0 i \<in> rs_leaves r \<longleftrightarrow> i \<in> S" using t(2) cur by (auto simp: range_for_def)
  have pos: "insertion_to_pmmr_index (Suc i) = node_pos 0 i" by (rule insertion_to_pmmr_index_node_pos)
  show ?thesis
  proof (cases "i \<in> S")
    case True
    obtain b' where b': "pb_remove (backend (rw_pmmr w)) (node_pos 0 i) = Some (Inr b')"
        "backend_rep v (sp_pruned s) r0 (r\<lparr>rs_leaves := rs_leaves r - {node_pos 0 i}\<rparr>) b'"
        "pb_hash_file b' = pb_hash_file (backend (rw_pmmr w))" "pb_data_file b' = pb_data_file (backend (rw_pmmr w))"
      using rep_remove [OF t(1), of "node_pos 0 i"] as_u32_id [OF i32] by auto
    have "range_for as_elmt blake ser (xs, S - {i}) (r\<lparr>rs_leaves := rs_leaves r - {node_pos 0 i}\<rparr>)"
      using t(2) cur by (auto simp: range_for_def)
    then show ?thesis using b' t cur leaf pos True mem rep_leaf_reads(2) [OF t(1) i32]
      by (auto simp: tracks_def file_ops_def no_panic_def flat_def pmmr_prune_def idle_def)
  next
    case False
    then show ?thesis using t cur leaf pos mem rep_leaf_reads(2) [OF t(1) i32]
      by (auto simp: tracks_def file_ops_def flat_def pmmr_prune_def)
  qed
qed

lemma tracks_rewind:
  assumes "tracks v as_elmt blake ser s w" "sp_idle s" "m \<le> length (fst (sp_cur s))" "sp_pruned s \<subseteq> {..<m}" "rm \<subseteq> {..<m} - sp_pruned s"
  shows "\<exists>w'. run_op wr rd esize as_elmt blake ser (Rewind_to m rm) w = Some w' \<and> tracks v as_elmt blake ser (rspec_op (Rewind_to m rm) s) w'"
proof -
  obtain xs S where cur: "sp_cur s = (xs, S)" by (cases "sp_cur s")
  obtain r0 r where t: "backend_rep v (sp_pruned s) r0 r (backend (rw_pmmr w))" "range_for as_elmt blake ser (sp_cur s) r"
      "range_for as_elmt blake ser (sp_disk s) r0" "rw_last_pos w = mmr_size (length (fst (sp_disk s)))" "idle (backend (rw_pmmr w))"
    using assms(1,2) by (auto simp: tracks_def)
  have len: "length (rs_data r) = length xs" "length (rs_hashes r) = mmr_size (length xs)" "mmr_size (length xs) < 2 ^ 31"
    using t(2) repD(3) [OF t(1)] cur by (auto simp: range_for_def range_ok_def)
  have m: "m \<le> length xs" using assms(3) cur by simp
  then have "mmr_size m < 2 ^ 31" using len(3) mmr_size_le_iff [of m "length xs"] by linarith
  then have rw: "rewind_pos (mmr_size m) = mmr_size m" by (intro rewind_pos_mmr_size) simp
  have "node_pos 0 ` rm \<subseteq> node_pos 0 ` ({..<m} - sp_pruned s)" using assms(5) by (rule image_mono)
  then obtain b' where b': "pb_rewind (backend (rw_pmmr w)) (mmr_size m) (node_pos 0 ` rm) = Some (Inr b')"
      "backend_rep v (sp_pruned s) r0 (rs_rewind r m (node_pos 0 ` rm)) b'" "idle b'"
    using rep_rewind [OF t(1,5) _ assms(4), of "node_pos 0 ` rm"] m len(1) by auto
  have "mmr_file blake ser (take m xs) (take (mmr_size m) (map Some (rs_hashes r)))"
    using t(2) cur m by (intro mmr_file_take) (auto simp: range_for_def)
  then have "range_for as_elmt blake ser (take m xs, {i \<in> S. i < m} \<union> rm) (rs_rewind r m (node_pos 0 ` rm))"
    using t(2) cur leaf_le_size [of _ m] by (auto simp: range_for_def rs_rewind_def take_map)
  then show ?thesis using b' t cur rw m by (auto simp: tracks_def file_ops_def no_panic_def pmmr_rewind_def min_absorb2)
qed

lemma tracks_commit:
  assumes "tracks v as_elmt blake ser s w"
  shows "\<exists>w'. run_op wr rd esize as_elmt blake ser Commit w = Some w' \<and> tracks v as_elmt blake ser (rspec_op Commit s) w'"
proof -
  obtain r0 r where t: "backend_rep v (sp_pruned s) r0 r (backend (rw_pmmr w))" "range_for as_elmt blake ser (sp_cur s) r"
      "last_pos (rw_pmmr w) = mmr_size (length (fst (sp_cur s)))" using assms by (auto simp: tracks_def)
  obtain b' where "pb_sync (backend (rw_pmmr w)) = Inr b'" "backend_rep v (sp_pruned s) r r b'" "idle b'" "fresh v (sp_pruned s) r b'"
    using rep_sync [OF t(1)] by (auto simp: fresh_def)
  then show ?thesis using t(2,3) by (auto simp: tracks_def work_at_def pmmr_at_def)
qed

lemma tracks_rollback:
  assumes "tracks v as_elmt blake ser s w"
  shows "\<exists>w'. run_op wr rd esize as_elmt blake ser Rollback w = Some w' \<and> tracks v as_elmt blake ser (rspec_op Rollback s) w'"
proof -
  obtain r0 r where t: "backend_rep v (sp_pruned s) r0 r (backend (rw_pmmr w))" "range_for as_elmt blake ser (sp_disk s) r0"
      "rw_last_pos w = mmr_size (length (fst (sp_disk s)))" using assms by (auto simp: tracks_def)
  then show ?thesis using rep_discard [OF t(1)] by (auto simp: tracks_def work_at_def pmmr_at_def)
qed

lemma tracks_compact:
  assumes "tracks v as_elmt blake ser s w" "sp_synced s" "c \<le> length (fst (sp_cur s))"
  shows "\<exists>w'. run_op wr rd esize as_elmt blake ser (Compact c rm) w = Some w' \<and> tracks v as_elmt blake ser (rspec_op (Compact c rm) s) w'"
proof -
  obtain xs S where cur: "sp_cur s = (xs, S)" by (cases "sp_cur s")
  obtain r where t: "backend_rep v (sp_pruned s) r r (backend (rw_pmmr w))" "range_for as_elmt blake ser (xs, S) r"
      "fresh v (sp_pruned s) r (backend (rw_pmmr w))" "sp_disk s = (xs, S)" "rw_last_pos w = mmr_size (length xs)"
    using assms(1,2) cur by (auto simp: tracks_def)
  have "length (rs_data r) = length xs" "length (rs_hashes r) = mmr_size (length xs)" using t(2) repD(3) [OF t(1)] by (auto simp: range_for_def range_ok_def)
  then have c: "mmr_size c \<le> length (rs_hashes r)" using assms(3) cur by simp
  have R: "sp_pruned s \<union> removed_leaves (sp_pruned s) (rs_leaves r) (mmr_size c) (node_pos 0 ` rm) = sp_pruned s \<union> ({..<c} - S - rm)"
    using t(2) leaf_le_size [of _ c] by (auto simp: removed_leaves_def range_for_def)
  obtain b' where "check_compact wr rd (backend (rw_pmmr w)) (mmr_size c) (node_pos 0 ` rm) = Some b'"
      "backend_rep v (sp_pruned s \<union> ({..<c} - S - rm)) r r b'" "idle b'" "fresh v (sp_pruned s \<union> ({..<c} - S - rm)) r b'"
    using rep_check_compact [OF t(1) _ _ c refl, of "node_pos 0 ` rm"] t(3) unfolding R fresh_def by blast
  then show ?thesis using t(2,4,5) cur by (auto simp: tracks_def work_at_def pmmr_at_def)
qed

lemma rep_unpruned_size:
  assumes "backend_rep v L r r b"
  shows "pb_unpruned_size b = Some (length (rs_hashes r))"
proof -
  have "size_in_elmts (pb_hash_file b) = length (nths (rs_hashes r) (kept_pos L))"
    "size_unsync_in_elmts (pb_hash_file b) = length (nths (rs_hashes r) (kept_pos L))"
    using hashf.holds_size repD(1) [OF assms] by blast+
  moreover have "length (file_hashes b) = length (rs_hashes r)" by (simp add: rep_file_hashes [OF assms] del: upt_Suc)
  moreover have "get_total_shift (pb_prune_list b) = Some (card (compacted_set L))" by (rule total_shift_eq(1) [OF repD(5) [OF assms]])
  ultimately show ?thesis by (simp add: pb_unpruned_size_def pb_hash_size_def file_hashes_def unwrap_or_def del: upt_Suc)
qed

lemma tracks_reopen:
  assumes "tracks v as_elmt blake ser s w"
  shows "\<exists>w'. run_op wr rd esize as_elmt blake ser Reopen w = Some w' \<and> tracks v as_elmt blake ser (rspec_op Reopen s) w'"
proof -
  obtain r0 r where t: "backend_rep v (sp_pruned s) r0 r (backend (rw_pmmr w))" "range_for as_elmt blake ser (sp_disk s) r0"
    using assms by (auto simp: tracks_def)
  let ?b = "backend (rw_pmmr w)"
  have v: "fs_version (aof_state (pb_hash_file ?b)) = v" and pl: "pl_file (pb_prune_list ?b) = Some (root_set (sp_pruned s))"
    using t(1) by (auto simp: backend_rep_def hashf.holds_def fixed_rep_def)
  obtain b' where b': "pmmr_backend_new rd (Some esize) True v (fs_file (aof_state (pb_hash_file ?b))) (fs_file (aof_state (pb_data_file ?b))) []
      (ls_file (pb_leaf_set ?b)) None (root_set (sp_pruned s)) = Some (Inr b')"
      "backend_rep v (sp_pruned s) r0 r0 b'" "idle b'" "fresh v (sp_pruned s) r0 b'"
    using rep_open [OF t(1), of "[]"] by (auto simp: fresh_def)
  have "length (rs_hashes r0) = mmr_size (length (fst (sp_disk s)))" using t(2) repD(3) [OF b'(2)] by (auto simp: range_for_def range_ok_def)
  then show ?thesis using b' t(2) v pl rep_unpruned_size [OF b'(2)]
    by (auto simp: tracks_def work_at_def pmmr_at_def pmmr_handle_new_def unwrap_or_def)
qed

lemma tracks_op:
  assumes "tracks v as_elmt blake ser s w" "step_allowed (\<lambda>x. good v (as_elmt x)) x s" "\<forall>bs. length (blake bs) = 32"
  shows "\<exists>w'. run_op wr rd esize as_elmt blake ser x w = Some w' \<and> tracks v as_elmt blake ser (rspec_op x s) w'"
proof (cases x)
  case (Push_elmt y)
  then show ?thesis using tracks_push [OF assms(1), of y] assms(2,3) by (simp only: step_allowed.simps simp_thms)
next
  case (Prune_leaf i)
  then show ?thesis using tracks_prune [OF assms(1), of i] assms(2) by (simp only: step_allowed.simps simp_thms)
next
  case (Rewind_to m rm)
  then show ?thesis using tracks_rewind [OF assms(1), of m rm] assms(2) by (simp only: step_allowed.simps simp_thms)
next
  case (Compact c rm)
  then show ?thesis using tracks_compact [OF assms(1), of c rm] assms(2) by (simp only: step_allowed.simps simp_thms)
qed (simp_all only: tracks_commit [OF assms(1)] tracks_rollback [OF assms(1)] tracks_reopen [OF assms(1)])

lemma tracks_ops:
  "tracks v as_elmt blake ser s w \<Longrightarrow> steps_allowed (\<lambda>x. good v (as_elmt x)) xs s \<Longrightarrow> \<forall>bs. length (blake bs) = 32 \<Longrightarrow>
    \<exists>w'. run_ops wr rd esize as_elmt blake ser xs w = Some w' \<and> tracks v as_elmt blake ser (rspec_ops xs s) w'"
proof (induction xs arbitrary: s w)
  case (Cons x xs)
  obtain w1 where "run_op wr rd esize as_elmt blake ser x w = Some w1" "tracks v as_elmt blake ser (rspec_op x s) w1"
    using tracks_op [OF Cons.prems(1)] Cons.prems(2,3) by auto
  then show ?case using Cons.IH [of "rspec_op x s" w1] Cons.prems(2,3) by auto
qed simp

lemma tracks_new:
  "\<exists>h. pmmr_handle_new rd (Some esize) True v [] [] sizes {} None {} = Some (Inr h)
    \<and> tracks v as_elmt blake ser range_spec_new (work_at (ph_last_pos h) (ph_backend h))"
proof -
  obtain b where b: "pmmr_backend_new rd (Some esize) True v [] [] sizes {} None {} = Some (Inr b)"
      "backend_rep v {} \<lparr>rs_data = [], rs_hashes = [], rs_leaves = {}\<rparr> \<lparr>rs_data = [], rs_hashes = [], rs_leaves = {}\<rparr> b" "idle b"
    using rep_new [of v sizes] by blast
  moreover have "tracks v as_elmt blake ser range_spec_new (work_at 0 b)"
    unfolding tracks_def by (intro exI, rule conjI, simp add: work_at_def pmmr_at_def range_spec_new_def, rule b(2))
      (use b(3) in \<open>simp add: range_for_def work_at_def pmmr_at_def range_spec_new_def\<close>)
  ultimately show ?thesis using rep_unpruned_size [OF b(2)] by (simp add: pmmr_handle_new_def)
qed

lemma tracks_reads:
  assumes "tracks v as_elmt blake ser s w" "sp_cur s = (xs, S)" "i < length xs"
  shows "pb_get_data rd (backend (rw_pmmr w)) (node_pos 0 i) = Some (if i \<in> S then Some (as_elmt (xs ! i)) else None)"
    "pb_get_hash (backend (rw_pmmr w)) (node_pos 0 i) = Some (if i \<in> S then Some (node_hash blake ser xs 0 i) else None)"
proof -
  obtain r0 r where t: "backend_rep v (sp_pruned s) r0 r (backend (rw_pmmr w))" "range_for as_elmt blake ser (xs, S) r"
    using assms(1,2) by (auto simp: tracks_def)
  have i: "node_pos 0 i - 1 < mmr_size (length xs)" "(i + 1) * 2 ^ 0 \<le> length xs" using node_pos_index_less [of i 0 "length xs"] assms(3) by simp_all
  have "length (rs_hashes r) = mmr_size (length xs)" "mmr_size (length xs) < 2 ^ 31"
    using t(2) repD(3) [OF t(1)] by (auto simp: range_for_def range_ok_def)
  moreover have "map Some (rs_hashes r) ! (node_pos 0 i - 1) \<in> {None, Some (node_hash blake ser xs 0 i)}"
    using t(2) i(2) unfolding range_for_def mmr_file_def fst_conv by blast
  ultimately have h: "rs_hashes r ! (node_pos 0 i - 1) = node_hash blake ser xs 0 i" "node_pos 0 i < 2 ^ 32" using i(1) by auto
  have d: "rs_data r ! i = as_elmt (xs ! i)" "node_pos 0 i \<in> rs_leaves r \<longleftrightarrow> i \<in> S" using t(2) assms(3) by (auto simp: range_for_def)
  show "pb_get_data rd (backend (rw_pmmr w)) (node_pos 0 i) = Some (if i \<in> S then Some (as_elmt (xs ! i)) else None)"
    "pb_get_hash (backend (rw_pmmr w)) (node_pos 0 i) = Some (if i \<in> S then Some (node_hash blake ser xs 0 i) else None)"
    using rep_leaf_reads [OF t(1) h(2)] d h(1) by simp_all
qed

lemma runs_correct:
  assumes "\<forall>bs. length (blake bs) = 32" "steps_allowed (\<lambda>x. good v (as_elmt x)) ops range_spec_new"
    "sp_cur (rspec_ops ops range_spec_new) = (xs, S)"
  shows "\<exists>h w. pmmr_handle_new rd (Some esize) True v [] [] [] {} None {} = Some (Inr h)
    \<and> run_ops wr rd esize as_elmt blake ser ops (work_at (ph_last_pos h) (ph_backend h)) = Some w
    \<and> last_pos (rw_pmmr w) = mmr_size (length xs)
    \<and> root (file_ops wr rd as_elmt) blake (rw_pmmr w) = Inr (mmr_root blake ser xs)
    \<and> validate (file_ops wr rd as_elmt) blake (rw_pmmr w) = Inr ()
    \<and> (\<forall>i < length xs.
        pb_get_data rd (backend (rw_pmmr w)) (insertion_to_pmmr_index (Suc i)) = Some (if i \<in> S then Some (as_elmt (xs ! i)) else None)
      \<and> pb_get_hash (backend (rw_pmmr w)) (insertion_to_pmmr_index (Suc i)) = Some (if i \<in> S then Some (node_hash blake ser xs 0 i) else None))"
proof -
  obtain h where h: "pmmr_handle_new rd (Some esize) True v [] [] [] {} None {} = Some (Inr h)"
      "tracks v as_elmt blake ser range_spec_new (work_at (ph_last_pos h) (ph_backend h))" using tracks_new [of v "[]"] by blast
  obtain w where w: "run_ops wr rd esize as_elmt blake ser ops (work_at (ph_last_pos h) (ph_backend h)) = Some w"
      "tracks v as_elmt blake ser (rspec_ops ops range_spec_new) w" using tracks_ops [OF h(2) assms(2,1)] by blast
  have st: "mmr_state file_hashes (file_inv v) blake ser xs (rw_pmmr w)" using tracks_stands_for [OF w(2)] assms(3) by simp
  have "last_pos (rw_pmmr w) = mmr_size (length xs)" using st by (simp add: mmr_state_def)
  then show ?thesis
    using h(1) w(1) files.root_stands_for [OF st, where as_elmt = as_elmt] files.validate_stands_for [OF st, where as_elmt = as_elmt]
      tracks_reads [OF w(2) assms(3)] insertion_to_pmmr_index_node_pos by (intro exI [of _ h] exI [of _ w]) simp
qed

end

section \<open>The output range\<close>

lemma output_identifier_fixed:
  assumes "1 + PEDERSEN_COMMITMENT_SIZE K < 2 ^ 16"
  shows "fixed_elmt (\<lambda>_. write_output_identifier) (read_output_identifier K) (\<lambda>_. output_identifier_ok K) (1 + PEDERSEN_COMMITMENT_SIZE K)"
proof unfold_locales
  fix v :: version and x
  assume "output_identifier_ok K x"
  then show "length (write_output_identifier x) = 1 + PEDERSEN_COMMITMENT_SIZE K"
    by (simp add: output_identifier_ok_def write_output_identifier_def fixed_ok_def write_commitment_def write_output_features_def)
next
  fix r :: reader
  assume "rd_source r = []"
  then show "\<exists>e. read_output_identifier K r = Inl e"
    by (simp add: read_output_identifier_def read_output_features_def read_u8_def read_be_def read_exact_def)
qed (use assms in simp_all)

text \<open>
  Claim C2. Over the files of the output range, any sequence of pushes, prunes, rewinds, commits, rollbacks, compactions and
  restarts from disk, taken in the order the chain takes them, succeeds and leaves the range of the leaves that the list
  specification has: its size and its root are those of these leaves, \<open>validate\<close> accepts it, and the identifier and the hash of a
  leaf are returned exactly while it is unspent, however much of the files was compacted away.
\<close>

theorem output_range_correct:
  assumes "1 + PEDERSEN_COMMITMENT_SIZE K < 2 ^ 16" "\<forall>bs. length (blake bs) = 32"
    "steps_allowed (\<lambda>x. output_identifier_ok K (identifier_of_output x)) ops range_spec_new"
    "sp_cur (rspec_ops ops range_spec_new) = (xs, S)"
    "wr = (\<lambda>_. write_output_identifier)" "rd = read_output_identifier K" "esize = 1 + PEDERSEN_COMMITMENT_SIZE K"
  shows "\<exists>h w. pmmr_handle_new rd (Some esize) True v [] [] [] {} None {} = Some (Inr h)
    \<and> run_ops wr rd esize identifier_of_output blake ser ops (work_at (ph_last_pos h) (ph_backend h)) = Some w
    \<and> last_pos (rw_pmmr w) = mmr_size (length xs)
    \<and> root (file_ops wr rd identifier_of_output) blake (rw_pmmr w) = Inr (mmr_root blake ser xs)
    \<and> validate (file_ops wr rd identifier_of_output) blake (rw_pmmr w) = Inr ()
    \<and> (\<forall>i < length xs.
        pb_get_data rd (backend (rw_pmmr w)) (insertion_to_pmmr_index (Suc i)) = Some (if i \<in> S then Some (identifier_of_output (xs ! i)) else None)
      \<and> pb_get_hash (backend (rw_pmmr w)) (insertion_to_pmmr_index (Suc i)) = Some (if i \<in> S then Some (node_hash blake ser xs 0 i) else None))"
  unfolding assms(5-7) by (rule fixed_elmt.runs_correct [OF output_identifier_fixed [OF assms(1)] assms(2-4)])

definition example_range_ops :: "output_t range_op list" where
  "example_range_ops = [Push_elmt \<lparr>o_features = Plain, o_commit = [7], o_proof = \<lparr>plen = 0, proof_bytes = []\<rparr>\<rparr>,
     Push_elmt \<lparr>o_features = Plain, o_commit = [8], o_proof = \<lparr>plen = 0, proof_bytes = []\<rparr>\<rparr>,
     Prune_leaf 0, Commit, Compact 2 {}, Reopen, Prune_leaf 1, Rollback]"

lemma output_range_correct_witness:
  "\<exists>h w. pmmr_handle_new (read_output_identifier example_sizes) (Some 2) True 2 [] [] [] {} None {} = Some (Inr h)
    \<and> run_ops (\<lambda>_. write_output_identifier) (read_output_identifier example_sizes) 2 identifier_of_output (\<lambda>_. ZERO_HASH) (\<lambda>_. [])
        example_range_ops (work_at (ph_last_pos h) (ph_backend h)) = Some w
    \<and> last_pos (rw_pmmr w) = 3
    \<and> pb_get_data (read_output_identifier example_sizes) (backend (rw_pmmr w)) 1 = Some None
    \<and> pb_get_data (read_output_identifier example_sizes) (backend (rw_pmmr w)) 2 = Some (Some \<lparr>oi_features = Plain, oi_commit = [8]\<rparr>)"
proof -
  have sz: "mmr_size (Suc 0) = 1" "mmr_size (Suc (Suc 0)) = 3" by code_simp+
  have ix: "insertion_to_pmmr_index (Suc 0) = 1" "insertion_to_pmmr_index (Suc 1) = 2" by code_simp+
  let ?S = "rspec_ops example_range_ops range_spec_new"
  have a: "steps_allowed (\<lambda>x. output_identifier_ok example_sizes (identifier_of_output x)) example_range_ops range_spec_new"
    by (simp add: example_range_ops_def sz range_spec_new_def output_identifier_ok_def identifier_of_output_def fixed_ok_def example_sizes_def)
  have c: "sp_cur ?S = ([\<lparr>o_features = Plain, o_commit = [7], o_proof = \<lparr>plen = 0, proof_bytes = []\<rparr>\<rparr>,
      \<lparr>o_features = Plain, o_commit = [8], o_proof = \<lparr>plen = 0, proof_bytes = []\<rparr>\<rparr>], {1})"
    by (auto simp: example_range_ops_def range_spec_new_def)
  have e: "1 + PEDERSEN_COMMITMENT_SIZE example_sizes < 2 ^ 16" "2 = 1 + PEDERSEN_COMMITMENT_SIZE example_sizes" by (simp_all add: example_sizes_def)
  have z: "\<forall>bs :: bytes. length ZERO_HASH = 32" by (simp add: ZERO_HASH_def hash_LEN_def)
  obtain h w where hw: "pmmr_handle_new (read_output_identifier example_sizes) (Some 2) True 2 [] [] [] {} None {} = Some (Inr h)"
      "run_ops (\<lambda>_. write_output_identifier) (read_output_identifier example_sizes) 2 identifier_of_output (\<lambda>_. ZERO_HASH) (\<lambda>_. [])
        example_range_ops (work_at (ph_last_pos h) (ph_backend h)) = Some w" "last_pos (rw_pmmr w) = 3"
    and d: "\<And>i. i < 2 \<Longrightarrow> pb_get_data (read_output_identifier example_sizes) (backend (rw_pmmr w)) (insertion_to_pmmr_index (Suc i))
        = Some (if i \<in> {1} then Some (identifier_of_output (fst (sp_cur ?S) ! i)) else None)"
    using output_range_correct [OF e(1) z a c refl refl e(2), of 2 "\<lambda>_. []"] sz c by auto
  then show ?thesis using d [of 0] d [of 1] c unfolding ix by (auto simp: identifier_of_output_def)
qed

end
