(* ===== verification/Utxo_View.thy ===== *)
theory Utxo_View
  imports Chain_Store File_Range
begin

text \<open>
  The view of the unspent outputs (\<open>chain/src/txhashset/utxo_view.rs\<close>), and what the theories of the transaction hash set
  share: the parameters of the node, the element types of the ranges, and units of work as state transformers whose result is
  an error or a value.
\<close>

section \<open>Parameters\<close>

text \<open>
  \<open>ce_secp\<close> is the secp library, \<open>ce_bitmap\<close> the deserialisation of croaring bitmaps, \<open>ce_chunk\<close> the bytes of a bit vector,
  \<open>ce_sha\<close> SHA-256.
\<close>

record 'd chain_env =
  ce_db :: "'d db_env"
  ce_secp :: secp
  ce_bitmap :: "bytes \<Rightarrow> bitmap"
  ce_chunk :: "bitmap_chunk \<Rightarrow> bytes"
  ce_sha :: "bytes \<Rightarrow> hash"

abbreviation ce_ct :: "'d chain_env \<Rightarrow> chain_types" where "ce_ct E \<equiv> de_ct (ce_db E)"
abbreviation ce_blake :: "'d chain_env \<Rightarrow> bytes \<Rightarrow> hash" where "ce_blake E \<equiv> de_blake (ce_db E)"
abbreviation ce_sizes :: "'d chain_env \<Rightarrow> secp_sizes" where "ce_sizes E \<equiv> de_sizes (ce_db E)"

definition header_hash :: "'d chain_env \<Rightarrow> block_header \<Rightarrow> hash" where
  "header_hash E h = hash_block_header (ce_ct E) (ce_blake E) h"

definition tip_of :: "'d chain_env \<Rightarrow> block_header \<Rightarrow> tip" where
  "tip_of E h = tip_from_header (ce_ct E) (ce_blake E) h"

section \<open>The ranges\<close>

type_synonym file_pmmr = "pmmr_backend pmmr"

definition header_ops :: "'d chain_env \<Rightarrow> (pmmr_backend, block_header, header_entry) backend_ops" where
  "header_ops E = file_ops (\<lambda>_. write_header_entry) read_header_entry (as_elmt_header (ce_ct E) (ce_blake E))"

definition output_ops :: "'d chain_env \<Rightarrow> (pmmr_backend, output_t, output_identifier) backend_ops" where
  "output_ops E = file_ops (\<lambda>_. write_output_identifier) (read_output_identifier (ce_sizes E)) identifier_of_output"

definition rproof_ops :: "'d chain_env \<Rightarrow> (pmmr_backend, range_proof, range_proof) backend_ops" where
  "rproof_ops E = file_ops (\<lambda>_. write_range_proof) (read_range_proof (ce_sizes E)) id"

definition kernel_ops :: "'d chain_env \<Rightarrow> (pmmr_backend, tx_kernel, tx_kernel) backend_ops" where
  "kernel_ops E = file_ops (write_tx_kernel FullMode) (read_tx_kernel (ce_sizes E)) id"

definition token_output_ops :: "'d chain_env \<Rightarrow> (pmmr_backend, token_output, token_output_identifier) backend_ops" where
  "token_output_ops E = file_ops (\<lambda>_. write_token_output_identifier) (read_token_output_identifier (ce_sizes E)) identifier_of_token_output"

definition issue_ops :: "'d chain_env \<Rightarrow> (pmmr_backend, token_issue_proof, token_issue_proof) backend_ops" where
  "issue_ops E = file_ops (\<lambda>_. write_token_issue_proof FullMode) (read_token_issue_proof (ce_sizes E)) id"

definition token_kernel_ops :: "'d chain_env \<Rightarrow> (pmmr_backend, token_tx_kernel, token_tx_kernel) backend_ops" where
  "token_kernel_ops E = file_ops (\<lambda>_. write_token_tx_kernel) (read_token_tx_kernel (ce_sizes E)) id"

section \<open>Units of work\<close>

type_synonym ('s, 'a) work = "'s \<Rightarrow> (chain_error + 'a) \<times> 's"

definition wret :: "'a \<Rightarrow> ('s, 'a) work" where
  "wret x s = (Inr x, s)"

definition wlift :: "chain_error + 'a \<Rightarrow> ('s, 'a) work" where
  "wlift r s = (r, s)"

definition wbind :: "('s, 'a) work \<Rightarrow> ('a \<Rightarrow> ('s, 'b) work) \<Rightarrow> ('s, 'b) work" where
  "wbind m f s = (case m s of (Inl e, s) \<Rightarrow> (Inl e, s) | (Inr x, s) \<Rightarrow> f x s)"

definition wread :: "('s \<Rightarrow> chain_error + 'a) \<Rightarrow> ('s, 'a) work" where
  "wread f s = (f s, s)"

definition wmod :: "('s \<Rightarrow> 's) \<Rightarrow> ('s, unit) work" where
  "wmod f s = (Inr (), f s)"

fun wfor :: "('a \<Rightarrow> ('s, 'b) work) \<Rightarrow> 'a list \<Rightarrow> ('s, 'b list) work" where
  "wfor f [] = wret []"
| "wfor f (x # xs) = wbind (f x) (\<lambda>y. wbind (wfor f xs) (\<lambda>ys. wret (y # ys)))"

text \<open>A while loop over its variables \<open>x\<close>; \<open>None\<close> when it does not end.\<close>

partial_function (option) wwhile ::
  "('x \<Rightarrow> 's \<Rightarrow> bool) \<Rightarrow> ('x \<Rightarrow> ('s, 'x) work) \<Rightarrow> 'x \<Rightarrow> 's \<Rightarrow> ((chain_error + 'x) \<times> 's) option" where
  "wwhile c body x s =
    (if c x s then (case body x s of (Inl e, s) \<Rightarrow> Some (Inl e, s) | (Inr x, s) \<Rightarrow> wwhile c body x s)
     else Some (Inr x, s))"

definition wloop :: "('x \<Rightarrow> 's \<Rightarrow> bool) \<Rightarrow> ('x \<Rightarrow> ('s, 'x) work) \<Rightarrow> 'x \<Rightarrow> ('s, 'x) work" where
  "wloop c body x s = (case wwhile c body x s of None \<Rightarrow> (Inl Diverges, s) | Some r \<Rightarrow> r)"

section \<open>The view\<close>

record utxo_view =
  uv_header :: file_pmmr
  uv_output :: file_pmmr
  uv_token_output :: file_pmmr
  uv_issue :: file_pmmr
  uv_rproof :: file_pmmr
  uv_token_rproof :: file_pmmr

text \<open>Positions are \<open>u64\<close> in the index and natural numbers in the ranges.\<close>

definition validate_input :: "'d chain_env \<Rightarrow> utxo_view \<Rightarrow> 'd batch \<Rightarrow> input \<Rightarrow> chain_error + unit" where
  "validate_input E v b i =
    (case get_output_pos (ce_db E) (i_commit i) b of
       Inr pos \<Rightarrow>
        (case ro_get_data (output_ops E) (uv_output v) (unat pos) of
           Some out \<Rightarrow> if identifier_of_input i = out then Inr () else Inl (AlreadySpent (i_commit i))
         | None \<Rightarrow> Inl (AlreadySpent (i_commit i)))
     | Inl _ \<Rightarrow> Inl (AlreadySpent (i_commit i)))"

definition validate_token_input :: "'d chain_env \<Rightarrow> utxo_view \<Rightarrow> 'd batch \<Rightarrow> token_input \<Rightarrow> chain_error + unit" where
  "validate_token_input E v b i =
    (case get_token_output_pos (ce_db E) (ti_commit i) b of
       Inr pos \<Rightarrow>
        (case ro_get_data (token_output_ops E) (uv_token_output v) (unat pos) of
           Some out \<Rightarrow> if identifier_of_token_input i = out then Inr () else Inl (AlreadySpent (ti_commit i))
         | None \<Rightarrow> Inl (AlreadySpent (ti_commit i)))
     | Inl _ \<Rightarrow> Inl (AlreadySpent (ti_commit i)))"

definition validate_output :: "'d chain_env \<Rightarrow> utxo_view \<Rightarrow> 'd batch \<Rightarrow> output_t \<Rightarrow> chain_error + unit" where
  "validate_output E v b out =
    (case get_output_pos (ce_db E) (o_commit out) b of
       Inr pos \<Rightarrow>
        (case ro_get_data (output_ops E) (uv_output v) (unat pos) of
           Some out_mmr \<Rightarrow> if oi_commit out_mmr = o_commit out then Inl (DuplicateCommitment (o_commit out)) else Inr ()
         | None \<Rightarrow> Inr ())
     | Inl _ \<Rightarrow> Inr ())"

definition validate_issue :: "'d chain_env \<Rightarrow> utxo_view \<Rightarrow> 'd batch \<Rightarrow> token_output \<Rightarrow> chain_error + unit" where
  "validate_issue E v b out =
    (if is_tokenissue out
     then (case get_token_issue_proof_pos (ce_db E) (to_token_type out) b of
             Inr pos \<Rightarrow>
              (case ro_get_data (issue_ops E) (uv_issue v) (unat pos) of
                 Some out_mmr \<Rightarrow> if tip_token_type out_mmr = to_token_type out then Inl (DuplicateTokenKey (to_token_type out)) else Inr ()
               | None \<Rightarrow> Inr ())
           | Inl _ \<Rightarrow> Inr ())
     else Inr ())"

definition validate_token_output :: "'d chain_env \<Rightarrow> utxo_view \<Rightarrow> 'd batch \<Rightarrow> token_output \<Rightarrow> chain_error + unit" where
  "validate_token_output E v b out =
    (case get_token_output_pos (ce_db E) (to_commit out) b of
       Inr pos \<Rightarrow>
        (case ro_get_data (token_output_ops E) (uv_token_output v) (unat pos) of
           Some out_mmr \<Rightarrow> if toi_commit out_mmr = to_commit out then Inl (DuplicateCommitment (to_commit out)) else validate_issue E v b out
         | None \<Rightarrow> validate_issue E v b out)
     | Inl _ \<Rightarrow> validate_issue E v b out)"

definition validate_body :: "'d chain_env \<Rightarrow> utxo_view \<Rightarrow> 'd batch \<Rightarrow> transaction_body \<Rightarrow> chain_error + unit" where
  "validate_body E v b body =
    rbind (for_each (validate_output E v b) (b_outputs body)) (\<lambda>_.
    rbind (for_each (validate_input E v b) (b_inputs body)) (\<lambda>_.
    rbind (for_each (validate_token_output E v b) (b_token_outputs body)) (\<lambda>_.
      for_each (validate_token_input E v b) (b_token_inputs body))))"

definition uv_validate_block :: "'d chain_env \<Rightarrow> utxo_view \<Rightarrow> 'd batch \<Rightarrow> block \<Rightarrow> chain_error + unit" where
  "uv_validate_block E v b bl = validate_body E v b (b_body bl)"

definition uv_validate_tx :: "'d chain_env \<Rightarrow> utxo_view \<Rightarrow> 'd batch \<Rightarrow> transaction \<Rightarrow> chain_error + unit" where
  "uv_validate_tx E v b tx = validate_body E v b (tx_body tx)"

definition get_unspent_output_at :: "'d chain_env \<Rightarrow> utxo_view \<Rightarrow> u64 \<Rightarrow> chain_error + output_t" where
  "get_unspent_output_at E v pos =
    (case ro_get_data (output_ops E) (uv_output v) (unat pos) of
       Some output_id \<Rightarrow>
        (case ro_get_data (rproof_ops E) (uv_rproof v) (unat pos) of
           Some rproof \<Rightarrow> Inr (into_output output_id rproof)
         | None \<Rightarrow> Inl RangeproofNotFound)
     | None \<Rightarrow> Inl OutputNotFound)"

definition get_unspent_token_output_at :: "'d chain_env \<Rightarrow> utxo_view \<Rightarrow> u64 \<Rightarrow> chain_error + token_output" where
  "get_unspent_token_output_at E v pos =
    (case ro_get_data (token_output_ops E) (uv_token_output v) (unat pos) of
       Some output_id \<Rightarrow>
        (case ro_get_data (rproof_ops E) (uv_token_rproof v) (unat pos) of
           Some rproof \<Rightarrow> Inr (into_token_output output_id rproof)
         | None \<Rightarrow> Inl RangeproofNotFound)
     | None \<Rightarrow> Inl OutputNotFound)"

definition uv_get_header_hash :: "'d chain_env \<Rightarrow> utxo_view \<Rightarrow> nat \<Rightarrow> hash option" where
  "uv_get_header_hash E v pos = map_option he_hash (ro_get_data (header_ops E) (uv_header v) pos)"

definition uv_get_header_by_height :: "'d chain_env \<Rightarrow> utxo_view \<Rightarrow> u64 \<Rightarrow> 'd batch \<Rightarrow> chain_error + block_header" where
  "uv_get_header_by_height E v height b =
    (let pos = insertion_to_pmmr_index (unat (height + 1))
     in case uv_get_header_hash E v pos of
          Some h \<Rightarrow> map_err StoreErr (get_block_header (ce_db E) h b)
        | None \<Rightarrow> Inl (Other ''get header by height''))"

definition uv_verify_coinbase_maturity ::
  "'d chain_env \<Rightarrow> utxo_view \<Rightarrow> input list \<Rightarrow> u64 \<Rightarrow> 'd batch \<Rightarrow> chain_error + unit" where
  "uv_verify_coinbase_maturity E v inputs height b =
    (let pos = unwrap_or 0 (iter_max (filter_map (\<lambda>i. case get_output_pos (ce_db E) (i_commit i) b of Inl _ \<Rightarrow> None | Inr pos \<Rightarrow> Some pos)
           (filter input_is_coinbase inputs)))
     in if pos > 0
        then if height < coinbase_maturity (ce_ct E) then Inl ImmatureCoinbase
             else let cutoff_height = sat_sub height (coinbase_maturity (ce_ct E))
                  in rbind (uv_get_header_by_height E v cutoff_height b) (\<lambda>cutoff_header.
                       if pos > h_output_mmr_size cutoff_header then Inl ImmatureCoinbase else Inr ())
        else Inr ())"

end
