(* ===== verification/Txhashset.thy ===== *)
theory Txhashset
  imports Utxo_View
begin

text \<open>
  The transaction hash set (\<open>chain/src/txhashset/txhashset.rs\<close>): the seven ranges over their files with the accumulator of the
  output bitmap, extensions that apply and rewind blocks in a unit of work, the header extension, and the functions that run a
  unit of work and then keep or discard it. A unit of work is a state transformer on \<open>ext_state\<close>: the two extensions and the
  batch of the database. An operation that fails leaves the ranges as they were; what it had written by then is discarded
  together with the unit of work. Zip archives and the folders of the files are not modelled.
\<close>

section \<open>Handles\<close>

definition get_header_hash_by_height :: "'d chain_env \<Rightarrow> pmmr_handle \<Rightarrow> u64 \<Rightarrow> chain_error + hash" where
  "get_header_hash_by_height E handle height =
    (let pos = insertion_to_pmmr_index (unat (height + 1));
         header_pmmr = pmmr_at (ph_backend handle) (ph_last_pos handle)
     in case ro_get_data (header_ops E) header_pmmr pos of
          Some entry \<Rightarrow> Inr (he_hash entry)
        | None \<Rightarrow> Inl (Other ''get header hash by height''))"

definition head_hash :: "'d chain_env \<Rightarrow> pmmr_handle \<Rightarrow> chain_error + hash" where
  "head_hash E handle =
    (if ph_last_pos handle = 0 then Inl (Other ''MMR empty, no head'')
     else let header_pmmr = pmmr_at (ph_backend handle) (ph_last_pos handle);
              leaf_pos = bintree_rightmost (ph_last_pos handle)
          in case ro_get_data (header_ops E) header_pmmr leaf_pos of
               Some entry \<Rightarrow> Inr (he_hash entry)
             | None \<Rightarrow> Inl (Other ''failed to find head hash''))"

record txhashset =
  th_output :: pmmr_handle
  th_rproof :: pmmr_handle
  th_kernel :: pmmr_handle
  th_token_output :: pmmr_handle
  th_token_rproof :: pmmr_handle
  th_issue :: pmmr_handle
  th_token_kernel :: pmmr_handle
  th_bitmap :: bitmap_accumulator

definition pmmr_of :: "pmmr_handle \<Rightarrow> file_pmmr" where
  "pmmr_of handle = pmmr_at (ph_backend handle) (ph_last_pos handle)"

section \<open>Header extensions\<close>

record header_extension =
  hx_head :: tip
  hx_pmmr :: file_pmmr
  hx_rollback :: bool

definition header_extension_new :: "file_pmmr \<Rightarrow> tip \<Rightarrow> header_extension" where
  "header_extension_new pm head = \<lparr>hx_head = head, hx_pmmr = pm, hx_rollback = False\<rparr>"

definition hx_get_header_hash :: "'d chain_env \<Rightarrow> header_extension \<Rightarrow> nat \<Rightarrow> hash option" where
  "hx_get_header_hash E hx pos = map_option he_hash (pmmr_get_data (header_ops E) (hx_pmmr hx) pos)"

definition hx_get_header_by_height :: "'d chain_env \<Rightarrow> header_extension \<Rightarrow> u64 \<Rightarrow> 'd batch \<Rightarrow> chain_error + block_header" where
  "hx_get_header_by_height E hx height b =
    (let pos = insertion_to_pmmr_index (unat (height + 1))
     in case hx_get_header_hash E hx pos of
          Some h \<Rightarrow> map_err StoreErr (get_block_header (ce_db E) h b)
        | None \<Rightarrow> Inl (Other ''get header by height''))"

definition is_on_current_chain :: "'d chain_env \<Rightarrow> header_extension \<Rightarrow> block_header \<Rightarrow> 'd batch \<Rightarrow> chain_error + unit" where
  "is_on_current_chain E hx header b =
    (if h_height header > t_height (hx_head hx) then Inl (Other ''not on current chain, out beyond'')
     else rbind (hx_get_header_by_height E hx (h_height header) b) (\<lambda>chain_header.
       if header_hash E chain_header = header_hash E header then Inr () else Inl (Other ''not on current chain'')))"

definition hx_apply_header :: "'d chain_env \<Rightarrow> block_header \<Rightarrow> header_extension \<Rightarrow> chain_error + header_extension" where
  "hx_apply_header E header hx =
    rbind (map_err TxHashSetErr (pmmr_push (header_ops E) (ce_blake E) (write_block_header (ce_ct E) HashMode) (hx_pmmr hx) header))
      (\<lambda>(_, pm). Inr (hx\<lparr>hx_pmmr := pm, hx_head := tip_of E header\<rparr>))"

definition hx_rewind :: "'d chain_env \<Rightarrow> block_header \<Rightarrow> header_extension \<Rightarrow> chain_error + header_extension" where
  "hx_rewind E header hx =
    (let header_pos = insertion_to_pmmr_index (unat (h_height header + 1))
     in rbind (map_err TxHashSetErr (pmmr_rewind (header_ops E) (hx_pmmr hx) header_pos {}))
          (\<lambda>pm. Inr (hx\<lparr>hx_pmmr := pm, hx_head := tip_of E header\<rparr>)))"

definition hx_size :: "header_extension \<Rightarrow> nat" where
  "hx_size hx = unpruned_size (hx_pmmr hx)"

definition hx_root :: "'d chain_env \<Rightarrow> header_extension \<Rightarrow> chain_error + hash" where
  "hx_root E hx = map_err (\<lambda>_. InvalidRoot) (root (header_ops E) (ce_blake E) (hx_pmmr hx))"

definition hx_validate_root :: "'d chain_env \<Rightarrow> header_extension \<Rightarrow> block_header \<Rightarrow> chain_error + unit" where
  "hx_validate_root E hx header =
    (if h_height header = 0 then Inr ()
     else rbind (hx_root E hx) (\<lambda>r. if r \<noteq> h_prev_root header then Inl InvalidRoot else Inr ()))"

section \<open>Extensions\<close>

record extension =
  ex_head :: tip
  ex_output :: file_pmmr
  ex_rproof :: file_pmmr
  ex_kernel :: file_pmmr
  ex_token_output :: file_pmmr
  ex_token_rproof :: file_pmmr
  ex_issue :: file_pmmr
  ex_token_kernel :: file_pmmr
  ex_bitmap :: bitmap_accumulator
  ex_rollback :: bool

definition extension_new :: "txhashset \<Rightarrow> tip \<Rightarrow> extension" where
  "extension_new trees head = \<lparr>ex_head = head, ex_output = pmmr_of (th_output trees), ex_rproof = pmmr_of (th_rproof trees),
     ex_kernel = pmmr_of (th_kernel trees), ex_token_output = pmmr_of (th_token_output trees),
     ex_token_rproof = pmmr_of (th_token_rproof trees), ex_issue = pmmr_of (th_issue trees),
     ex_token_kernel = pmmr_of (th_token_kernel trees), ex_bitmap = th_bitmap trees, ex_rollback = False\<rparr>"

definition ex_utxo_view :: "extension \<Rightarrow> header_extension \<Rightarrow> utxo_view" where
  "ex_utxo_view ex hx = \<lparr>uv_header = readonly_pmmr (hx_pmmr hx), uv_output = readonly_pmmr (ex_output ex),
     uv_token_output = readonly_pmmr (ex_token_output ex), uv_issue = readonly_pmmr (ex_issue ex),
     uv_rproof = readonly_pmmr (ex_rproof ex), uv_token_rproof = readonly_pmmr (ex_token_rproof ex)\<rparr>"

record 'd ext_state =
  xs_header :: header_extension
  xs_ext :: extension
  xs_batch :: "'d batch"

subsection \<open>Steps on the parts of the state\<close>

definition wbatch :: "('d batch \<Rightarrow> 'd batch) \<Rightarrow> ('d ext_state, unit) work" where
  "wbatch f = wmod (xs_batch_update f)"

definition wbatch_try :: "('d batch \<Rightarrow> store_error + 'd batch) \<Rightarrow> ('d ext_state, unit) work" where
  "wbatch_try f s = (case f (xs_batch s) of Inl e \<Rightarrow> (Inl (StoreErr e), s) | Inr b \<Rightarrow> (Inr (), s\<lparr>xs_batch := b\<rparr>))"

definition wstore :: "('d batch \<Rightarrow> store_error + 'a) \<Rightarrow> ('d ext_state, 'a) work" where
  "wstore f = wread (\<lambda>s. map_err StoreErr (f (xs_batch s)))"

definition wext :: "(extension \<Rightarrow> chain_error + extension) \<Rightarrow> ('d ext_state, unit) work" where
  "wext f s = (case f (xs_ext s) of Inl e \<Rightarrow> (Inl e, s) | Inr x \<Rightarrow> (Inr (), s\<lparr>xs_ext := x\<rparr>))"

definition wheader :: "(header_extension \<Rightarrow> chain_error + header_extension) \<Rightarrow> ('d ext_state, unit) work" where
  "wheader f s = (case f (xs_header s) of Inl e \<Rightarrow> (Inl e, s) | Inr x \<Rightarrow> (Inr (), s\<lparr>xs_header := x\<rparr>))"

text \<open>\<open>push\<close>, \<open>prune\<close> and \<open>rewind\<close> on the range that \<open>get\<close> and \<open>upd\<close> name.\<close>

definition push_to ::
  "(pmmr_backend, 't, 'e) backend_ops \<Rightarrow> (bytes \<Rightarrow> hash) \<Rightarrow> ('t \<Rightarrow> bytes) \<Rightarrow> (extension \<Rightarrow> file_pmmr) \<Rightarrow>
     ((file_pmmr \<Rightarrow> file_pmmr) \<Rightarrow> extension \<Rightarrow> extension) \<Rightarrow> 't \<Rightarrow> ('d ext_state, nat) work" where
  "push_to ops blake ser get upd x s =
    (case pmmr_push ops blake ser (get (xs_ext s)) x of
       Inl e \<Rightarrow> (Inl (TxHashSetErr e), s)
     | Inr (pos, pm) \<Rightarrow> (Inr pos, s\<lparr>xs_ext := upd (\<lambda>_. pm) (xs_ext s)\<rparr>))"

definition prune_at ::
  "(pmmr_backend, 't, 'e) backend_ops \<Rightarrow> (extension \<Rightarrow> file_pmmr) \<Rightarrow>
     ((file_pmmr \<Rightarrow> file_pmmr) \<Rightarrow> extension \<Rightarrow> extension) \<Rightarrow> nat \<Rightarrow> ('d ext_state, bool) work" where
  "prune_at ops get upd pos s =
    (case pmmr_prune ops (get (xs_ext s)) pos of
       Inl e \<Rightarrow> (Inl (TxHashSetErr e), s)
     | Inr (done, pm) \<Rightarrow> (Inr done, s\<lparr>xs_ext := upd (\<lambda>_. pm) (xs_ext s)\<rparr>))"

definition rewind_to ::
  "(pmmr_backend, 't, 'e) backend_ops \<Rightarrow> (extension \<Rightarrow> file_pmmr) \<Rightarrow>
     ((file_pmmr \<Rightarrow> file_pmmr) \<Rightarrow> extension \<Rightarrow> extension) \<Rightarrow> nat \<Rightarrow> bitmap \<Rightarrow> ('d ext_state, unit) work" where
  "rewind_to ops get upd pos rm s =
    (case pmmr_rewind ops (get (xs_ext s)) pos rm of
       Inl e \<Rightarrow> (Inl (TxHashSetErr e), s)
     | Inr pm \<Rightarrow> (Inr (), s\<lparr>xs_ext := upd (\<lambda>_. pm) (xs_ext s)\<rparr>))"

subsection \<open>Applying a block\<close>

definition apply_to_bitmap_accumulator :: "'d chain_env \<Rightarrow> nat list \<Rightarrow> ('d ext_state, unit) work" where
  "apply_to_bitmap_accumulator E output_pos = wext (\<lambda>ex.
    let output_idx = sort (map (\<lambda>x. n_leaves x - 1) output_pos);
        min_idx = (case output_idx of [] \<Rightarrow> 0 | i # _ \<Rightarrow> i);
        sz = n_leaves (last_pos (ex_output ex))
    in rbind (ba_apply (ce_blake E) (ce_chunk E) output_idx
         (be_leaf_idx_iter (output_ops E) (backend (ex_output ex)) (chunk_start_idx min_idx)) sz (ex_bitmap ex))
         (\<lambda>acc. Inr (ex\<lparr>ex_bitmap := acc\<rparr>)))"

definition apply_input :: "'d chain_env \<Rightarrow> input \<Rightarrow> ('d ext_state, commit_pos) work" where
  "apply_input E i =
    wbind (wstore (get_output_pos_height (ce_db E) (i_commit i))) (\<lambda>found.
    case found of
      None \<Rightarrow> wlift (Inl (AlreadySpent (i_commit i)))
    | Some (pos, height) \<Rightarrow>
        wbind (wread (\<lambda>s. case pmmr_get_data (output_ops E) (ex_output (xs_ext s)) (unat pos) of
            Some out \<Rightarrow> if identifier_of_input i \<noteq> out then Inl (TxHashSetMsg ''output pmmr mismatch'') else Inr ()
          | None \<Rightarrow> Inr ())) (\<lambda>_.
        wbind (prune_at (output_ops E) ex_output ex_output_update (unat pos)) (\<lambda>done.
        if done
        then wbind (prune_at (rproof_ops E) ex_rproof ex_rproof_update (unat pos)) (\<lambda>_. wret \<lparr>cp_pos = pos, cp_height = height\<rparr>)
        else wlift (Inl (AlreadySpent (i_commit i))))))"

definition apply_token_input :: "'d chain_env \<Rightarrow> token_input \<Rightarrow> ('d ext_state, commit_pos) work" where
  "apply_token_input E i =
    wbind (wstore (get_token_output_pos_height (ce_db E) (ti_commit i))) (\<lambda>found.
    case found of
      None \<Rightarrow> wlift (Inl (AlreadySpent (ti_commit i)))
    | Some (pos, height) \<Rightarrow>
        wbind (wread (\<lambda>s. case pmmr_get_data (token_output_ops E) (ex_token_output (xs_ext s)) (unat pos) of
            Some out \<Rightarrow> if identifier_of_token_input i \<noteq> out then Inl (TxHashSetMsg ''token output pmmr mismatch'') else Inr ()
          | None \<Rightarrow> Inr ())) (\<lambda>_.
        wbind (prune_at (token_output_ops E) ex_token_output ex_token_output_update (unat pos)) (\<lambda>done.
        if done
        then wbind (prune_at (rproof_ops E) ex_token_rproof ex_token_rproof_update (unat pos)) (\<lambda>_. wret \<lparr>cp_pos = pos, cp_height = height\<rparr>)
        else wlift (Inl (AlreadySpent (ti_commit i))))))"

definition apply_output :: "'d chain_env \<Rightarrow> output_t \<Rightarrow> ('d ext_state, nat) work" where
  "apply_output E out =
    wbind (wread (\<lambda>s. case get_output_pos (ce_db E) (o_commit out) (xs_batch s) of
        Inr pos \<Rightarrow>
         (case pmmr_get_data (output_ops E) (ex_output (xs_ext s)) (unat pos) of
            Some out_mmr \<Rightarrow> if oi_commit out_mmr = o_commit out then Inl (DuplicateCommitment (o_commit out)) else Inr ()
          | None \<Rightarrow> Inr ())
      | Inl _ \<Rightarrow> Inr ())) (\<lambda>_.
    wbind (push_to (output_ops E) (ce_blake E) (write_output HashMode) ex_output ex_output_update out) (\<lambda>output_pos.
    wbind (push_to (rproof_ops E) (ce_blake E) write_range_proof ex_rproof ex_rproof_update (o_proof out)) (\<lambda>rproof_pos.
    wbind (wread (\<lambda>s. if unpruned_size (ex_output (xs_ext s)) \<noteq> unpruned_size (ex_rproof (xs_ext s))
        then Inl (Other ''output vs rproof MMRs different sizes'')
        else if output_pos \<noteq> rproof_pos then Inl (Other ''output vs rproof MMRs different pos'') else Inr ())) (\<lambda>_.
      wret output_pos))))"

definition apply_token_output :: "'d chain_env \<Rightarrow> token_output \<Rightarrow> ('d ext_state, nat) work" where
  "apply_token_output E out =
    wbind (wread (\<lambda>s. case get_token_output_pos (ce_db E) (to_commit out) (xs_batch s) of
        Inr pos \<Rightarrow>
         (case pmmr_get_data (token_output_ops E) (ex_token_output (xs_ext s)) (unat pos) of
            Some out_mmr \<Rightarrow> if toi_commit out_mmr = to_commit out then Inl (DuplicateCommitment (to_commit out)) else Inr ()
          | None \<Rightarrow> Inr ())
      | Inl _ \<Rightarrow> Inr ())) (\<lambda>_.
    wbind (push_to (token_output_ops E) (ce_blake E) (write_token_output HashMode) ex_token_output ex_token_output_update out) (\<lambda>output_pos.
    wbind (push_to (rproof_ops E) (ce_blake E) write_range_proof ex_token_rproof ex_token_rproof_update (to_proof out)) (\<lambda>rproof_pos.
    wbind (wread (\<lambda>s. if unpruned_size (ex_token_output (xs_ext s)) \<noteq> unpruned_size (ex_token_rproof (xs_ext s))
        then Inl (Other ''token_output vs token_rproof MMRs different sizes'')
        else if output_pos \<noteq> rproof_pos then Inl (Other ''token_output vs token_rproof MMRs different pos'') else Inr ())) (\<lambda>_.
      wret output_pos))))"

definition apply_token_issue_output :: "'d chain_env \<Rightarrow> token_output \<Rightarrow> ('d ext_state, nat) work" where
  "apply_token_issue_output E out =
    (if is_token out then wlift (Inl (Other ''token_output is not a token issue''))
     else
      wbind (wread (\<lambda>s. case get_token_issue_proof_pos (ce_db E) (to_token_type out) (xs_batch s) of
          Inr pos \<Rightarrow>
           (case pmmr_get_data (issue_ops E) (ex_issue (xs_ext s)) (unat pos) of
              Some out_mmr \<Rightarrow> if tip_token_type out_mmr = to_token_type out then Inl (DuplicateTokenKey (to_token_type out)) else Inr ()
            | None \<Rightarrow> Inr ())
        | Inl _ \<Rightarrow> Inr ())) (\<lambda>_.
        push_to (issue_ops E) (ce_blake E) (write_token_issue_proof HashMode) ex_issue ex_issue_update (issue_proof_from_token_output out)))"

definition apply_kernel :: "'d chain_env \<Rightarrow> tx_kernel \<Rightarrow> ('d ext_state, unit) work" where
  "apply_kernel E k =
    wbind (push_to (kernel_ops E) (ce_blake E) (write_tx_kernel HashMode version_local) ex_kernel ex_kernel_update k) (\<lambda>_. wret ())"

definition apply_token_kernel :: "'d chain_env \<Rightarrow> token_tx_kernel \<Rightarrow> ('d ext_state, unit) work" where
  "apply_token_kernel E k =
    wbind (push_to (token_kernel_ops E) (ce_blake E) write_token_tx_kernel ex_token_kernel ex_token_kernel_update k) (\<lambda>_. wret ())"

text \<open>The loops of \<open>apply_block\<close>, one iteration each.\<close>

definition add_output :: "'d chain_env \<Rightarrow> u64 \<Rightarrow> output_t \<Rightarrow> ('d ext_state, nat) work" where
  "add_output E height out =
    wbind (apply_output E out) (\<lambda>pos.
    wbind (wbatch (save_output_pos_height (ce_db E) (o_commit out) (of_nat pos) height)) (\<lambda>_. wret pos))"

definition spend_input :: "'d chain_env \<Rightarrow> input \<Rightarrow> ('d ext_state, commit_pos) work" where
  "spend_input E i =
    wbind (apply_input E i) (\<lambda>spent_pos.
    wbind (wbatch_try (delete_output_pos_height (ce_db E) (i_commit i))) (\<lambda>_. wret spent_pos))"

definition add_token_output :: "'d chain_env \<Rightarrow> u64 \<Rightarrow> token_output \<Rightarrow> ('d ext_state, unit) work" where
  "add_token_output E height out =
    wbind (apply_token_output E out) (\<lambda>pos.
    wbind (wbatch (save_token_output_pos_height (ce_db E) (to_commit out) (of_nat pos) height)) (\<lambda>_.
    if is_tokenissue out
    then wbind (apply_token_issue_output E out) (\<lambda>pos. wbatch (save_token_issue_proof_pos (ce_db E) (to_token_type out) (of_nat pos)))
    else wret ()))"

definition spend_token_input :: "'d chain_env \<Rightarrow> token_input \<Rightarrow> ('d ext_state, commit_pos) work" where
  "spend_token_input E i =
    wbind (apply_token_input E i) (\<lambda>spent_pos.
    wbind (wbatch_try (delete_token_output_pos_height (ce_db E) (ti_commit i))) (\<lambda>_. wret spent_pos))"

definition set_head :: "tip \<Rightarrow> ('d ext_state, unit) work" where
  "set_head t = wmod (xs_ext_update (ex_head_update (\<lambda>_. t)))"

definition apply_block :: "'d chain_env \<Rightarrow> block \<Rightarrow> ('d ext_state, unit) work" where
  "apply_block E bl =
    (let body = b_body bl; height = h_height (b_header bl); h = hash_block (ce_ct E) (ce_blake E) bl in
    wbind (wfor (add_output E height) (b_outputs body)) (\<lambda>affected.
    wbind (wfor (spend_input E) (b_inputs body)) (\<lambda>spent.
    wbind (wbatch (save_spent_index (ce_db E) h spent)) (\<lambda>_.
    wbind (wfor (add_token_output E height) (b_token_outputs body)) (\<lambda>_.
    wbind (wfor (spend_token_input E) (b_token_inputs body)) (\<lambda>token_spent.
    wbind (wbatch (save_spent_token_index (ce_db E) h token_spent)) (\<lambda>_.
    wbind (wfor (apply_kernel E) (b_kernels body)) (\<lambda>_.
    wbind (wfor (apply_token_kernel E) (b_token_kernels body)) (\<lambda>_.
    wbind (apply_to_bitmap_accumulator E (affected @ map (\<lambda>c. unat (cp_pos c)) spent)) (\<lambda>_.
      set_head (tip_of E (b_header bl))))))))))))"

definition ex_merkle_proof :: "'d chain_env \<Rightarrow> output_identifier \<Rightarrow> ('d ext_state, merkle_proof_rec) work" where
  "ex_merkle_proof E out =
    wbind (wstore (get_output_pos (ce_db E) (oi_commit out))) (\<lambda>pos.
      wread (\<lambda>s. map_err TxHashSetErr (merkle_proof (output_ops E) (ce_blake E) (ex_output (xs_ext s)) (unat pos))))"

definition ex_token_merkle_proof :: "'d chain_env \<Rightarrow> token_output_identifier \<Rightarrow> ('d ext_state, merkle_proof_rec) work" where
  "ex_token_merkle_proof E out =
    wbind (wstore (get_token_output_pos (ce_db E) (toi_commit out))) (\<lambda>pos.
      wread (\<lambda>s. map_err TxHashSetErr (merkle_proof (token_output_ops E) (ce_blake E) (ex_token_output (xs_ext s)) (unat pos))))"

text \<open>The leaf sets that \<open>snapshot\<close> writes, and the header in the names of their files.\<close>

definition ex_snapshot :: "'d chain_env \<Rightarrow> ('d ext_state, hash \<times> bitmap list) work" where
  "ex_snapshot E =
    wbind (wread (\<lambda>s. map_err StoreErr (get_block_header (ce_db E) (t_last_block_h (ex_head (xs_ext s))) (xs_batch s)))) (\<lambda>header.
      wread (\<lambda>s. Inr (header_hash E header, map (\<lambda>pm. pb_snapshot (backend pm))
        [ex_output (xs_ext s), ex_rproof (xs_ext s), ex_token_output (xs_ext s), ex_token_rproof (xs_ext s)])))"

subsection \<open>Rewinding\<close>

definition rewind_mmrs_to_pos ::
  "'d chain_env \<Rightarrow> nat \<Rightarrow> nat \<Rightarrow> nat \<Rightarrow> nat \<Rightarrow> nat \<Rightarrow> nat list \<Rightarrow> nat list \<Rightarrow> ('d ext_state, unit) work" where
  "rewind_mmrs_to_pos E output_pos kernel_pos token_output_pos issue_pos token_kernel_pos spent_pos token_spent_pos =
    (let bm = as_u32 ` set spent_pos; token_bm = as_u32 ` set token_spent_pos in
    wbind (rewind_to (output_ops E) ex_output ex_output_update output_pos bm) (\<lambda>_.
    wbind (rewind_to (rproof_ops E) ex_rproof ex_rproof_update output_pos bm) (\<lambda>_.
    wbind (rewind_to (kernel_ops E) ex_kernel ex_kernel_update kernel_pos {}) (\<lambda>_.
    wbind (rewind_to (token_output_ops E) ex_token_output ex_token_output_update token_output_pos token_bm) (\<lambda>_.
    wbind (rewind_to (rproof_ops E) ex_token_rproof ex_token_rproof_update token_output_pos token_bm) (\<lambda>_.
    wbind (rewind_to (issue_ops E) ex_issue ex_issue_update issue_pos {}) (\<lambda>_.
      rewind_to (token_kernel_ops E) ex_token_kernel ex_token_kernel_update token_kernel_pos {})))))))"

definition rewind_mmrs_to_header :: "'d chain_env \<Rightarrow> block_header \<Rightarrow> nat list \<Rightarrow> nat list \<Rightarrow> ('d ext_state, unit) work" where
  "rewind_mmrs_to_header E h = rewind_mmrs_to_pos E (unat (h_output_mmr_size h)) (unat (h_kernel_mmr_size h))
     (unat (h_token_output_mmr_size h)) (unat (h_token_issue_proof_mmr_size h)) (unat (h_token_kernel_mmr_size h))"

text \<open>The positions a block has spent: from its spent index, or from the legacy bitmap when there is none.\<close>

definition spent_positions ::
  "store_error + commit_pos list \<Rightarrow> ('d batch \<Rightarrow> chain_error + bitmap) \<Rightarrow> ('d ext_state, nat list) work" where
  "spent_positions spent legacy =
    (case spent of
       Inr cs \<Rightarrow> wret (map (\<lambda>c. unat (cp_pos c)) cs)
     | Inl _ \<Rightarrow> wbind (wread (\<lambda>s. legacy (xs_batch s))) (\<lambda>bm. wret (bm_iter bm)))"

definition restore_pos ::
  "(commitment \<Rightarrow> u64 \<Rightarrow> u64 \<Rightarrow> 'd batch \<Rightarrow> 'd batch) \<Rightarrow> commitment list \<Rightarrow> store_error + commit_pos list \<Rightarrow> ('d ext_state, unit) work" where
  "restore_pos save commits spent =
    (case spent of
       Inr cs \<Rightarrow> wbind (wfor (\<lambda>(c, y). wbatch (save c (cp_pos y) (cp_height y))) (zip commits cs)) (\<lambda>_. wret ())
     | Inl _ \<Rightarrow> wret ())"

definition rewind_single_block :: "'d chain_env \<Rightarrow> block_header \<Rightarrow> ('d ext_state, nat list) work" where
  "rewind_single_block E header =
    (let h = header_hash E header in
    wbind (wread (\<lambda>s. Inr (get_spent_index (ce_db E) h (xs_batch s)))) (\<lambda>spent.
    wbind (wread (\<lambda>s. Inr (get_token_spent_index (ce_db E) h (xs_batch s)))) (\<lambda>token_spent.
    wbind (spent_positions spent (get_block_input_bitmap (ce_db E) (ce_bitmap E) h)) (\<lambda>spent_pos.
    wbind (spent_positions token_spent (get_block_token_input_bitmap (ce_db E) (ce_bitmap E) h)) (\<lambda>token_spent_pos.
    wbind (if h_height header = 0 then rewind_mmrs_to_pos E 0 0 0 0 0 spent_pos token_spent_pos
           else wbind (wstore (get_previous_header (ce_db E) header)) (\<lambda>prev. rewind_mmrs_to_header E prev spent_pos token_spent_pos)) (\<lambda>_.
    wbind (wread (\<lambda>s. Inr (spent_pos @ [last_pos (ex_output (xs_ext s))]))) (\<lambda>affected_pos.
    wbind (wstore (get_block (ce_db E) h)) (\<lambda>bl.
    wbind (wfor (\<lambda>out. wbatch (\<lambda>b. ok_or_same (delete_output_pos_height (ce_db E) (o_commit out) b) b)) (b_outputs (b_body bl))) (\<lambda>_.
    wbind (wfor (\<lambda>out. wbatch (\<lambda>b. ok_or_same (delete_token_output_pos_height (ce_db E) (to_commit out) b) b)) (b_token_outputs (b_body bl))) (\<lambda>_.
    wbind (restore_pos (save_output_pos_height (ce_db E)) (map i_commit (b_inputs (b_body bl))) spent) (\<lambda>_.
    wbind (restore_pos (save_token_output_pos_height (ce_db E)) (map ti_commit (b_token_inputs (b_body bl))) token_spent) (\<lambda>_.
      wret affected_pos))))))))))))"

definition ex_rewind :: "'d chain_env \<Rightarrow> block_header \<Rightarrow> ('d ext_state, unit) work" where
  "ex_rewind E header =
    wbind (wread (\<lambda>s. map_err StoreErr (get_block_header (ce_db E) (t_last_block_h (ex_head (xs_ext s))) (xs_batch s)))) (\<lambda>head_header.
    wbind (if h_height head_header \<le> h_height header
           then wbind (rewind_mmrs_to_header E header [] []) (\<lambda>_. apply_to_bitmap_accumulator E [unat (h_output_mmr_size header)])
           else wbind (wloop (\<lambda>(current, affected_pos) s. h_height header < h_height current)
                  (\<lambda>(current, affected_pos).
                    wbind (rewind_single_block E current) (\<lambda>affected_single.
                    wbind (wstore (get_previous_header (ce_db E) current)) (\<lambda>prev. wret (prev, affected_pos @ affected_single))))
                  (head_header, [])) (\<lambda>(_, affected_pos). apply_to_bitmap_accumulator E affected_pos)) (\<lambda>_.
      set_head (tip_of E header)))"

subsection \<open>Roots and sizes\<close>

definition ex_roots :: "'d chain_env \<Rightarrow> extension \<Rightarrow> chain_error + txhashset_roots" where
  "ex_roots E ex =
    (let rt = \<lambda>r. map_err (\<lambda>_. InvalidRoot) r in
    rbind (rt (root (output_ops E) (ce_blake E) (ex_output ex))) (\<lambda>output_root.
    rbind (case ba_root (ce_blake E) (ex_bitmap ex) of None \<Rightarrow> Inl Panic | Some r \<Rightarrow> Inr r) (\<lambda>bitmap_root.
    rbind (rt (root (rproof_ops E) (ce_blake E) (ex_rproof ex))) (\<lambda>rproof_root.
    rbind (rt (root (kernel_ops E) (ce_blake E) (ex_kernel ex))) (\<lambda>kernel_root.
    rbind (rt (root (token_output_ops E) (ce_blake E) (ex_token_output ex))) (\<lambda>token_output_root.
    rbind (rt (root (rproof_ops E) (ce_blake E) (ex_token_rproof ex))) (\<lambda>token_rproof_root.
    rbind (rt (root (issue_ops E) (ce_blake E) (ex_issue ex))) (\<lambda>issue_root.
    rbind (rt (root (token_kernel_ops E) (ce_blake E) (ex_token_kernel ex))) (\<lambda>token_kernel_root.
      Inr \<lparr>tr_output_roots = \<lparr>or_pmmr_root = output_root, or_bitmap_root = bitmap_root\<rparr>, tr_rproof_root = rproof_root,
        tr_kernel_root = kernel_root, tr_token_output_root = token_output_root, tr_token_rproof_root = token_rproof_root,
        tr_token_issue_proof_root = issue_root, tr_token_kernel_root = token_kernel_root\<rparr>)))))))))"

definition validate_roots :: "'d chain_env \<Rightarrow> extension \<Rightarrow> block_header \<Rightarrow> chain_error + unit" where
  "validate_roots E ex header =
    (if h_height header = 0 then Inr () else rbind (ex_roots E ex) (\<lambda>r. tr_validate (ce_blake E) r header))"

definition ex_sizes :: "extension \<Rightarrow> nat list" where
  "ex_sizes ex = [unpruned_size (ex_output ex), unpruned_size (ex_rproof ex), unpruned_size (ex_kernel ex),
     unpruned_size (ex_token_output ex), unpruned_size (ex_token_rproof ex), unpruned_size (ex_issue ex), unpruned_size (ex_token_kernel ex)]"

definition validate_sizes :: "extension \<Rightarrow> block_header \<Rightarrow> chain_error + unit" where
  "validate_sizes ex header =
    (if h_height header = 0 then Inr ()
     else if map unat [h_output_mmr_size header, h_output_mmr_size header, h_kernel_mmr_size header, h_token_output_mmr_size header,
         h_token_output_mmr_size header, h_token_issue_proof_mmr_size header, h_token_kernel_mmr_size header] \<noteq> ex_sizes ex
     then Inl InvalidMMRSize else Inr ())"

subsection \<open>Validation of the whole state\<close>

definition validate_mmrs :: "'d chain_env \<Rightarrow> extension \<Rightarrow> chain_error + unit" where
  "validate_mmrs E ex =
    rbind (map_err InvalidTxHashSet (validate (output_ops E) (ce_blake E) (ex_output ex))) (\<lambda>_.
    rbind (map_err InvalidTxHashSet (validate (rproof_ops E) (ce_blake E) (ex_rproof ex))) (\<lambda>_.
    rbind (map_err InvalidTxHashSet (validate (kernel_ops E) (ce_blake E) (ex_kernel ex))) (\<lambda>_.
    rbind (map_err InvalidTxHashSet (validate (token_output_ops E) (ce_blake E) (ex_token_output ex))) (\<lambda>_.
    rbind (map_err InvalidTxHashSet (validate (rproof_ops E) (ce_blake E) (ex_token_rproof ex))) (\<lambda>_.
    rbind (map_err InvalidTxHashSet (validate (issue_ops E) (ce_blake E) (ex_issue ex))) (\<lambda>_.
      map_err InvalidTxHashSet (validate (token_kernel_ops E) (ce_blake E) (ex_token_kernel ex))))))))"

text \<open>The elements of a range, in order: of the leaves that are not spent, and of all leaves.\<close>

definition unspent_data :: "(pmmr_backend, 't, 'e) backend_ops \<Rightarrow> file_pmmr \<Rightarrow> 'e list" where
  "unspent_data ops pm = filter_map (pmmr_get_data ops pm) (be_leaf_pos_iter ops (backend pm))"

definition leaf_data :: "(pmmr_backend, 't, 'e) backend_ops \<Rightarrow> file_pmmr \<Rightarrow> 'e list" where
  "leaf_data ops pm = filter_map (pmmr_get_data ops pm) (filter is_leaf [1..<unpruned_size pm + 1])"

text \<open>\<open>entry(key).or_insert(vec![])\<close> without a push, for kernels that are not plain.\<close>

definition entry_touch :: "token_key \<Rightarrow> commitment list token_map \<Rightarrow> commitment list token_map" where
  "entry_touch k m = AList.update k (case map_of m k of None \<Rightarrow> [] | Some v \<Rightarrow> v) m"

definition ex_committed :: "'d chain_env \<Rightarrow> extension \<Rightarrow> committed" where
  "ex_committed E ex = \<lparr>inputs_committed = [],
     outputs_committed = map oi_commit (unspent_data (output_ops E) (ex_output ex)),
     kernels_committed = map k_excess (leaf_data (kernel_ops E) (ex_kernel ex)),
     token_inputs_committed = foldl (\<lambda>m p. entry_push (tip_token_type p) (tip_commit p) m) [] (leaf_data (issue_ops E) (ex_issue ex)),
     token_outputs_committed = foldl (\<lambda>m x. entry_push (toi_token_type x) (toi_commit x) m) [] (unspent_data (token_output_ops E) (ex_token_output ex)),
     token_kernels_committed = foldl (\<lambda>m k. if is_plain_token k then entry_push (tk_token_type k) (tk_excess k) m else entry_touch (tk_token_type k) m)
       [] (leaf_data (token_kernel_ops E) (ex_token_kernel ex))\<rparr>"

definition validate_kernel_sums :: "'d chain_env \<Rightarrow> extension \<Rightarrow> block_header \<Rightarrow> block_header \<Rightarrow> chain_error + commitment \<times> commitment" where
  "validate_kernel_sums E ex genesis header =
    map_err Committed (verify_kernel_sums (ce_secp E) (ex_committed E ex)
      (header_total_overage (ce_ct E) header (h_kernel_mmr_size genesis > 0)) (h_total_kernel_offset header))"

definition validate_token_kernel_sums :: "'d chain_env \<Rightarrow> extension \<Rightarrow> chain_error + block_token_sums" where
  "validate_token_kernel_sums E ex = map_err Committed (verify_token_kernel_sum (ce_secp E) (ex_committed E ex))"

text \<open>The state of the long verifications is the list of their reports to \<open>TxHashsetWriteStatus\<close>.\<close>

definition report :: "write_status \<Rightarrow> (write_status list, unit) work" where
  "report st = wmod (\<lambda>log. log @ [st])"

definition KERNEL_BATCH_SIZE :: nat where "KERNEL_BATCH_SIZE = 5000"

fun kernel_batches ::
  "(nat \<Rightarrow> 'k option) \<Rightarrow> ('k list \<Rightarrow> chain_error + unit) \<Rightarrow> (nat \<Rightarrow> write_status) \<Rightarrow> nat \<Rightarrow> nat list \<Rightarrow> 'k list \<Rightarrow> nat \<Rightarrow>
     (write_status list, unit) work" where
  "kernel_batches read check st sz [] ks kern_count = wret ()"
| "kernel_batches read check st sz (n # ns) ks kern_count =
    wbind (if is_leaf n then (case read n of None \<Rightarrow> wlift (Inl TxKernelNotFound) | Some k \<Rightarrow> wret (ks @ [k])) else wret ks) (\<lambda>ks.
    if length ks \<ge> KERNEL_BATCH_SIZE \<or> n \<ge> sz
    then wbind (wlift (check ks)) (\<lambda>_. wbind (report (st (kern_count + length ks))) (\<lambda>_.
           kernel_batches read check st sz ns [] (kern_count + length ks)))
    else kernel_batches read check st sz ns ks kern_count)"

definition verify_kernel_signatures :: "'d chain_env \<Rightarrow> extension \<Rightarrow> (write_status list, unit) work" where
  "verify_kernel_signatures E ex =
    (let sz = unpruned_size (ex_kernel ex) in
     kernel_batches (pmmr_get_data (kernel_ops E) (ex_kernel ex))
       (\<lambda>ks. map_err Transaction (batch_sig_verify (ce_blake E) (ce_secp E) ks))
       (\<lambda>k. OnValidationKernels (of_nat k) (of_nat (n_leaves sz))) sz [1..<sz + 1] [] 0)"

definition verify_token_kernel_signatures :: "'d chain_env \<Rightarrow> extension \<Rightarrow> (write_status list, unit) work" where
  "verify_token_kernel_signatures E ex =
    (let sz = unpruned_size (ex_token_kernel ex) in
     kernel_batches (pmmr_get_data (token_kernel_ops E) (ex_token_kernel ex))
       (\<lambda>ks. map_err Transaction (token_batch_sig_verify (ce_blake E) (ce_secp E) ks))
       (\<lambda>k. OnValidationTokenKernels (of_nat k) (of_nat (n_leaves sz))) sz [1..<sz + 1] [] 0)"

text \<open>The loop over the unspent outputs; \<open>nested\<close> says where the loop reports, inside or after the check for a full batch.\<close>

fun rangeproof_batches ::
  "secp \<Rightarrow> bool \<Rightarrow> (nat \<Rightarrow> commitment option) \<Rightarrow> (nat \<Rightarrow> range_proof option) \<Rightarrow> (nat \<Rightarrow> write_status) \<Rightarrow> nat list \<Rightarrow>
     commitment list \<Rightarrow> range_proof list \<Rightarrow> nat \<Rightarrow> (write_status list, unit) work" where
  "rangeproof_batches S nested out_at proof_at st [] commits proofs cnt =
    (if proofs \<noteq> [] then wlift (map_err Transaction (batch_verify_proofs S commits proofs)) else wret ())"
| "rangeproof_batches S nested out_at proof_at st (pos # ps) commits proofs cnt =
    (case (out_at pos, proof_at pos) of
       (None, _) \<Rightarrow> wlift (Inl OutputNotFound)
     | (_, None) \<Rightarrow> wlift (Inl RangeproofNotFound)
     | (Some c, Some p) \<Rightarrow>
        (let full = length proofs + 1 \<ge> 1000 in
         wbind (if full then wlift (map_err Transaction (batch_verify_proofs S (commits @ [c]) (proofs @ [p]))) else wret ()) (\<lambda>_.
         wbind (if (nested \<longrightarrow> full) \<and> (cnt + 1) mod 1000 = 0 then report (st (cnt + 1)) else wret ()) (\<lambda>_.
           rangeproof_batches S nested out_at proof_at st ps (if full then [] else commits @ [c]) (if full then [] else proofs @ [p]) (cnt + 1)))))"

definition verify_rangeproofs :: "'d chain_env \<Rightarrow> extension \<Rightarrow> (write_status list, unit) work" where
  "verify_rangeproofs E ex =
    (case pb_n_unpruned_leaves (backend (ex_output ex)) of
       None \<Rightarrow> wlift (Inl Panic)
     | Some total_rproofs \<Rightarrow>
        rangeproof_batches (ce_secp E) True (\<lambda>pos. map_option oi_commit (pmmr_get_data (output_ops E) (ex_output ex) pos))
          (pmmr_get_data (rproof_ops E) (ex_rproof ex)) (\<lambda>c. OnValidationRproofs (of_nat c) (of_nat total_rproofs))
          (be_leaf_pos_iter (output_ops E) (backend (ex_output ex))) [] [] 0)"

definition verify_token_rangeproofs :: "'d chain_env \<Rightarrow> extension \<Rightarrow> (write_status list, unit) work" where
  "verify_token_rangeproofs E ex =
    rangeproof_batches (ce_secp E) False (\<lambda>pos. map_option toi_commit (pmmr_get_data (token_output_ops E) (ex_token_output ex) pos))
      (pmmr_get_data (rproof_ops E) (ex_token_rproof ex))
      (\<lambda>c. OnValidationTokenRproofs (of_nat c) (of_nat (n_leaves (unpruned_size (ex_token_output ex)))))
      (be_leaf_pos_iter (token_output_ops E) (backend (ex_token_output ex))) [] [] 0"

definition ex_validate ::
  "'d chain_env \<Rightarrow> extension \<Rightarrow> block_header \<Rightarrow> bool \<Rightarrow> block_header \<Rightarrow> (write_status list, commitment \<times> commitment \<times> block_token_sums) work" where
  "ex_validate E ex genesis fast_validation header =
    wbind (wlift (validate_mmrs E ex)) (\<lambda>_.
    wbind (wlift (validate_roots E ex header)) (\<lambda>_.
    wbind (wlift (validate_sizes ex header)) (\<lambda>_.
    if t_height (ex_head ex) = 0
    then wret (commit_to_zero_value (ce_secp E), commit_to_zero_value (ce_secp E), block_token_sums_default)
    else
      wbind (wlift (validate_kernel_sums E ex genesis header)) (\<lambda>(output_sum, kernel_sum).
      wbind (wlift (validate_token_kernel_sums E ex)) (\<lambda>block_token_sums.
      wbind (if fast_validation then wret ()
             else wbind (verify_rangeproofs E ex) (\<lambda>_.
                  wbind (verify_token_rangeproofs E ex) (\<lambda>_.
                  wbind (verify_kernel_signatures E ex) (\<lambda>_.
                    verify_token_kernel_signatures E ex)))) (\<lambda>_.
        wret (output_sum, kernel_sum, block_token_sums)))))))"

definition force_rollback :: "('d ext_state, unit) work" where
  "force_rollback = wmod (xs_ext_update (ex_rollback_update (\<lambda>_. True)))"

section \<open>The hash set\<close>

subsection \<open>Reading\<close>

definition th_bitmap_accumulator :: "'d chain_env \<Rightarrow> pmmr_handle \<Rightarrow> chain_error + bitmap_accumulator" where
  "th_bitmap_accumulator E handle =
    ba_init (ce_blake E) (ce_chunk E) (be_leaf_idx_iter (output_ops E) (ph_backend handle) 0) (n_leaves (ph_last_pos handle)) bitmap_accumulator_new"

text \<open>The contents of the files of a range; \<open>rf_snapshot\<close> is the leaf set saved for the header the set is opened at, if any.\<close>

record range_files =
  rf_hash :: bytes
  rf_data :: bytes
  rf_size :: bytes
  rf_leaf :: bitmap
  rf_snapshot :: "bitmap option"
  rf_prune :: bitmap

definition handle_open :: "(reader \<Rightarrow> 'e parse) \<Rightarrow> nat option \<Rightarrow> bool \<Rightarrow> version \<Rightarrow> bool \<Rightarrow> range_files \<Rightarrow> chain_error + pmmr_handle" where
  "handle_open rd esize prunable v at_header f =
    (case pmmr_handle_new rd esize prunable v (rf_hash f) (rf_data f) (rf_size f) (rf_leaf f)
        (if at_header then rf_snapshot f else None) (rf_prune f) of
       None \<Rightarrow> Inl Panic
     | Some (Inl e) \<Rightarrow> Inl (SerErr e)
     | Some (Inr handle) \<Rightarrow> Inr handle)"

fun open_kernels :: "'d chain_env \<Rightarrow> range_files \<Rightarrow> version list \<Rightarrow> chain_error + pmmr_handle" where
  "open_kernels E f [] = Inl (TxHashSetMsg ''failed to open kernel PMMR'')"
| "open_kernels E f (v # vs) =
    rbind (handle_open (read_tx_kernel (ce_sizes E)) None False v False f) (\<lambda>handle.
      if ph_last_pos handle = 0 then Inr handle
      else (case ro_get_data (kernel_ops E) (pmmr_at (ph_backend handle) 1) 1 of
              Some k \<Rightarrow> if is_ok (verify_kernel (ce_blake E) (ce_secp E) k) then Inr handle else open_kernels E f vs
            | None \<Rightarrow> open_kernels E f vs))"

record txhashset_files =
  tf_output :: range_files
  tf_rproof :: range_files
  tf_kernel :: range_files
  tf_token_output :: range_files
  tf_token_rproof :: range_files
  tf_issue :: range_files
  tf_token_kernel :: range_files

definition txhashset_open :: "'d chain_env \<Rightarrow> txhashset_files \<Rightarrow> bool \<Rightarrow> chain_error + txhashset" where
  "txhashset_open E f at_header =
    (let K = ce_sizes E; c = PEDERSEN_COMMITMENT_SIZE K; p = 8 + MAX_PROOF_SIZE K in
    rbind (handle_open (read_output_identifier K) (Some (1 + c)) True 1 at_header (tf_output f)) (\<lambda>output.
    rbind (handle_open (read_range_proof K) (Some p) True 1 at_header (tf_rproof f)) (\<lambda>rproof.
    rbind (handle_open (read_token_output_identifier K) (Some (1 + 32 + c)) True 1 at_header (tf_token_output f)) (\<lambda>token_output.
    rbind (handle_open (read_range_proof K) (Some p) True 1 at_header (tf_token_rproof f)) (\<lambda>token_rproof.
    rbind (handle_open (read_token_issue_proof K) (Some (32 + c + p)) False 1 at_header (tf_issue f)) (\<lambda>issue.
    rbind (handle_open (read_token_tx_kernel K) None False 1 False (tf_token_kernel f)) (\<lambda>token_kernel.
    rbind (th_bitmap_accumulator E output) (\<lambda>acc.
    rbind (open_kernels E (tf_kernel f) [2, 1]) (\<lambda>kern.
      Inr \<lparr>th_output = output, th_rproof = rproof, th_kernel = kern, th_token_output = token_output,
        th_token_rproof = token_rproof, th_issue = issue, th_token_kernel = token_kernel, th_bitmap = acc\<rparr>)))))))))"

definition get_unspent :: "'d chain_env \<Rightarrow> txhashset \<Rightarrow> 'd store \<Rightarrow> output_identifier \<Rightarrow> chain_error + commit_pos option" where
  "get_unspent E trees st output_id =
    (case cs_get_output_pos_height (ce_db E) (oi_commit output_id) st of
       Inr (Some (pos, height)) \<Rightarrow>
        (case ro_get_data (output_ops E) (pmmr_of (th_output trees)) (unat pos) of
           Some out \<Rightarrow> if out = output_id then Inr (Some \<lparr>cp_pos = pos, cp_height = height\<rparr>) else Inr None
         | None \<Rightarrow> Inr None)
     | Inr None \<Rightarrow> Inr None
     | Inl e \<Rightarrow> Inl (StoreErr e))"

definition get_token_unspent :: "'d chain_env \<Rightarrow> txhashset \<Rightarrow> 'd store \<Rightarrow> token_output_identifier \<Rightarrow> chain_error + commit_pos option" where
  "get_token_unspent E trees st output_id =
    (case cs_get_token_output_pos_height (ce_db E) (toi_commit output_id) st of
       Inr (Some (pos, height)) \<Rightarrow>
        (case ro_get_data (token_output_ops E) (pmmr_of (th_token_output trees)) (unat pos) of
           Some out \<Rightarrow> if out = output_id then Inr (Some \<lparr>cp_pos = pos, cp_height = height\<rparr>) else Inr None
         | None \<Rightarrow> Inr None)
     | Inr None \<Rightarrow> Inr None
     | Inl e \<Rightarrow> Inl (StoreErr e))"

definition outputs_by_pmmr_index :: "'d chain_env \<Rightarrow> txhashset \<Rightarrow> nat \<Rightarrow> nat \<Rightarrow> nat option \<Rightarrow> nat \<times> output_identifier list" where
  "outputs_by_pmmr_index E trees start_index max_count max_index =
    elements_from_pmmr_index (output_ops E) (pmmr_of (th_output trees)) start_index max_count max_index"

definition last_n_output :: "'d chain_env \<Rightarrow> txhashset \<Rightarrow> nat \<Rightarrow> (hash \<times> output_identifier) list" where
  "last_n_output E trees distance = get_last_n_insertions (output_ops E) (pmmr_of (th_output trees)) distance"

definition last_n_kernel :: "'d chain_env \<Rightarrow> txhashset \<Rightarrow> nat \<Rightarrow> (hash \<times> tx_kernel) list" where
  "last_n_kernel E trees distance = get_last_n_insertions (kernel_ops E) (pmmr_of (th_kernel trees)) distance"

text \<open>The loops of \<open>find_kernel\<close>: from \<open>index\<close> down, above \<open>min_index\<close>; the result has the position.\<close>

fun find_down :: "(nat \<Rightarrow> 'k option) \<Rightarrow> ('k \<Rightarrow> bool) \<Rightarrow> nat \<Rightarrow> nat \<Rightarrow> ('k \<times> nat) option" where
  "find_down get_at ok min_index 0 = None"
| "find_down get_at ok min_index (Suc i) =
    (if Suc i > min_index
     then (case get_at i of
             Some k \<Rightarrow> if ok k then Some (k, i) else find_down get_at ok min_index i
           | None \<Rightarrow> find_down get_at ok min_index i)
     else None)"

definition find_kernel :: "'d chain_env \<Rightarrow> txhashset \<Rightarrow> commitment \<Rightarrow> nat option \<Rightarrow> nat option \<Rightarrow> (tx_kernel \<times> nat) option" where
  "find_kernel E trees excess min_index max_index =
    find_down (ro_get_data (kernel_ops E) (pmmr_of (th_kernel trees))) (\<lambda>k. k_excess k = excess)
      (unwrap_or 1 min_index) (unwrap_or (ph_last_pos (th_kernel trees)) max_index + 1)"

definition find_token_kernel :: "'d chain_env \<Rightarrow> txhashset \<Rightarrow> commitment \<Rightarrow> nat option \<Rightarrow> nat option \<Rightarrow> (token_tx_kernel \<times> nat) option" where
  "find_token_kernel E trees excess min_index max_index =
    find_down (ro_get_data (token_kernel_ops E) (pmmr_of (th_token_kernel trees))) (\<lambda>k. tk_excess k = excess)
      (unwrap_or 1 min_index) (unwrap_or (ph_last_pos (th_token_kernel trees)) max_index + 1)"

text \<open>\<open>None\<close> is the panic of a range without peaks.\<close>

definition th_roots :: "'d chain_env \<Rightarrow> txhashset \<Rightarrow> txhashset_roots option" where
  "th_roots E trees =
    Option.bind (ro_root (output_ops E) (ce_blake E) (pmmr_of (th_output trees))) (\<lambda>o_root.
    Option.bind (ba_root (ce_blake E) (th_bitmap trees)) (\<lambda>b_root.
    Option.bind (ro_root (rproof_ops E) (ce_blake E) (pmmr_of (th_rproof trees))) (\<lambda>r_root.
    Option.bind (ro_root (kernel_ops E) (ce_blake E) (pmmr_of (th_kernel trees))) (\<lambda>k_root.
    Option.bind (ro_root (token_output_ops E) (ce_blake E) (pmmr_of (th_token_output trees))) (\<lambda>to_root.
    Option.bind (ro_root (rproof_ops E) (ce_blake E) (pmmr_of (th_token_rproof trees))) (\<lambda>tr_root.
    Option.bind (ro_root (issue_ops E) (ce_blake E) (pmmr_of (th_issue trees))) (\<lambda>i_root.
    Option.bind (ro_root (token_kernel_ops E) (ce_blake E) (pmmr_of (th_token_kernel trees))) (\<lambda>tk_root.
      Some \<lparr>tr_output_roots = \<lparr>or_pmmr_root = o_root, or_bitmap_root = b_root\<rparr>, tr_rproof_root = r_root, tr_kernel_root = k_root,
        tr_token_output_root = to_root, tr_token_rproof_root = tr_root, tr_token_issue_proof_root = i_root, tr_token_kernel_root = tk_root\<rparr>))))))))"

definition th_merkle_proof :: "'d chain_env \<Rightarrow> txhashset \<Rightarrow> 'd store \<Rightarrow> commitment \<Rightarrow> chain_error + merkle_proof_rec" where
  "th_merkle_proof E trees st commit =
    rbind (map_err StoreErr (cs_get_output_pos (ce_db E) commit st)) (\<lambda>pos.
      map_err (\<lambda>_. MerkleProof) (merkle_proof (output_ops E) (ce_blake E) (pmmr_of (th_output trees)) (unat pos)))"

definition th_token_merkle_proof :: "'d chain_env \<Rightarrow> txhashset \<Rightarrow> 'd store \<Rightarrow> commitment \<Rightarrow> chain_error + merkle_proof_rec" where
  "th_token_merkle_proof E trees st commit =
    rbind (map_err StoreErr (cs_get_token_output_pos (ce_db E) commit st)) (\<lambda>pos.
      map_err (\<lambda>_. MerkleProof) (merkle_proof (token_output_ops E) (ce_blake E) (pmmr_of (th_token_output trees)) (unat pos)))"

subsection \<open>Compaction\<close>

definition pos_to_rewind ::
  "'d chain_env \<Rightarrow> (hash \<Rightarrow> 'd batch \<Rightarrow> chain_error + bitmap) \<Rightarrow> block_header \<Rightarrow> block_header \<Rightarrow> ('d batch, bitmap) work" where
  "pos_to_rewind E block_bitmap block_header head_header =
    wbind (wloop (\<lambda>(current, bm) _. h_height current > h_height block_header)
      (\<lambda>(current, bm). wbind (wread (\<lambda>b. Inr (case block_bitmap (header_hash E current) b of Inr x \<Rightarrow> bm \<union> x | Inl _ \<Rightarrow> bm))) (\<lambda>bm.
        wbind (wread (\<lambda>b. map_err StoreErr (get_previous_header (ce_db E) current b))) (\<lambda>prev. wret (prev, bm))))
      (head_header, {})) (\<lambda>(_, bm). wret bm)"

definition input_pos_to_rewind :: "'d chain_env \<Rightarrow> block_header \<Rightarrow> block_header \<Rightarrow> ('d batch, bitmap) work" where
  "input_pos_to_rewind E = pos_to_rewind E (get_block_input_bitmap (ce_db E) (ce_bitmap E))"

definition token_input_pos_to_rewind :: "'d chain_env \<Rightarrow> block_header \<Rightarrow> block_header \<Rightarrow> ('d batch, bitmap) work" where
  "token_input_pos_to_rewind E = pos_to_rewind E (get_block_token_input_bitmap (ce_db E) (ce_bitmap E))"

definition compact_handle ::
  "(version \<Rightarrow> 'e \<Rightarrow> bytes) \<Rightarrow> (reader \<Rightarrow> 'e parse) \<Rightarrow> (txhashset \<Rightarrow> pmmr_handle) \<Rightarrow>
     ((pmmr_handle \<Rightarrow> pmmr_handle) \<Rightarrow> txhashset \<Rightarrow> txhashset) \<Rightarrow> u64 \<Rightarrow> bitmap \<Rightarrow> (txhashset, unit) work" where
  "compact_handle wr rd get upd cutoff rm trees =
    (case check_compact wr rd (ph_backend (get trees)) (unat cutoff) rm of
       None \<Rightarrow> (Inl Panic, trees)
     | Some b \<Rightarrow> (Inr (), upd (ph_backend_update (\<lambda>_. b)) trees))"

text \<open>The token range proofs are compacted at \<open>token_issue_proof_mmr_size\<close>, as the code has it.\<close>

definition th_compact :: "'d chain_env \<Rightarrow> block_header \<Rightarrow> 'd batch \<Rightarrow> (txhashset, unit) work" where
  "th_compact E horizon b =
    (let K = ce_sizes E in
    wbind (wlift (map_err StoreErr (bt_head_header (ce_db E) b))) (\<lambda>head_header.
    wbind (wlift (fst (input_pos_to_rewind E horizon head_header b))) (\<lambda>rm.
    wbind (wlift (fst (token_input_pos_to_rewind E horizon head_header b))) (\<lambda>token_rm.
    wbind (compact_handle (\<lambda>_. write_output_identifier) (read_output_identifier K) th_output th_output_update (h_output_mmr_size horizon) rm) (\<lambda>_.
    wbind (compact_handle (\<lambda>_. write_range_proof) (read_range_proof K) th_rproof th_rproof_update (h_output_mmr_size horizon) rm) (\<lambda>_.
    wbind (compact_handle (\<lambda>_. write_token_output_identifier) (read_token_output_identifier K) th_token_output th_token_output_update
      (h_token_output_mmr_size horizon) token_rm) (\<lambda>_.
      compact_handle (\<lambda>_. write_range_proof) (read_range_proof K) th_token_rproof th_token_rproof_update
        (h_token_issue_proof_mmr_size horizon) token_rm)))))))"

subsection \<open>The index of the outputs\<close>

definition wtry :: "('d batch \<Rightarrow> store_error + 'd batch) \<Rightarrow> ('d batch, unit) work" where
  "wtry f b = (case f b of Inl e \<Rightarrow> (Inl (StoreErr e), b) | Inr b \<Rightarrow> (Inr (), b))"

text \<open>\<open>index_heights\<close> is the loop over the heights: the outputs up to the size of a header are saved with its height.\<close>

fun index_heights ::
  "'d chain_env \<Rightarrow> pmmr_handle \<Rightarrow> (block_header \<Rightarrow> u64) \<Rightarrow> (commitment \<Rightarrow> u64 \<Rightarrow> u64 \<Rightarrow> 'd batch \<Rightarrow> 'd batch) \<Rightarrow> nat list \<Rightarrow>
     (commitment \<times> nat) list \<Rightarrow> ('d batch, unit) work" where
  "index_heights E handle sz save [] outs = wret ()"
| "index_heights E handle sz save (search_height # hs) outs =
    wbind (wlift (get_header_hash_by_height E handle (of_nat search_height + 1))) (\<lambda>h.
    wbind (wread (\<lambda>b. map_err StoreErr (get_block_header (ce_db E) h b))) (\<lambda>header.
    let now = takeWhile (\<lambda>(c, pos). \<not> pos > unat (sz header)) outs;
        later = dropWhile (\<lambda>(c, pos). \<not> pos > unat (sz header)) outs
    in wbind (wfor (\<lambda>(c, pos). wmod (save c (of_nat pos) (h_height header))) now) (\<lambda>_. index_heights E handle sz save hs later)))"

definition init_pos_index ::
  "'d chain_env \<Rightarrow> (pmmr_backend, 't, 'e) backend_ops \<Rightarrow> ('e \<Rightarrow> commitment) \<Rightarrow> file_pmmr \<Rightarrow>
     ('d batch \<Rightarrow> (bytes \<times> u64 \<times> u64) list) \<Rightarrow> (commitment \<Rightarrow> 'd batch \<Rightarrow> store_error + (u64 \<times> u64) option) \<Rightarrow> (bytes \<Rightarrow> commitment \<Rightarrow> bool) \<Rightarrow>
     (commitment \<Rightarrow> u64 \<Rightarrow> u64 \<Rightarrow> 'd batch \<Rightarrow> 'd batch) \<Rightarrow> (block_header \<Rightarrow> u64) \<Rightarrow> pmmr_handle \<Rightarrow> ('d batch, unit) work" where
  "init_pos_index E ops commit_of pm all_entries lookup is_match save sz header_pmmr =
    wbind (wread (\<lambda>b. Inr (all_entries b))) (\<lambda>es.
    wbind (wfor (\<lambda>(key, pos, _).
        wbind (wread (\<lambda>b. Inr (case ro_get_data ops pm (unat pos) of
            Some out \<Rightarrow> (case lookup (commit_of out) b of
                Inr (Some (pos_via_mmr, _)) \<Rightarrow> pos = pos_via_mmr \<and> is_match key (commit_of out)
              | _ \<Rightarrow> False)
          | None \<Rightarrow> False))) (\<lambda>keep. if keep then wret () else wtry (bx_delete (de_kv (ce_db E)) key))) es) (\<lambda>_.
    wbind (wread (\<lambda>b. Inr (filter (\<lambda>(c, pos). case lookup c b of Inr (Some _) \<Rightarrow> False | _ \<Rightarrow> True)
        (filter_map (\<lambda>pos. map_option (\<lambda>out. (commit_of out, pos)) (ro_get_data ops pm pos)) (be_leaf_pos_iter ops (backend pm)))))) (\<lambda>outs.
    if outs = [] then wret ()
    else wbind (wread (\<lambda>b. map_err StoreErr (bt_head (ce_db E) b))) (\<lambda>head.
           index_heights E header_pmmr sz save [0..<unat (t_height head)] outs))))"

definition init_output_pos_index :: "'d chain_env \<Rightarrow> txhashset \<Rightarrow> pmmr_handle \<Rightarrow> ('d batch, unit) work" where
  "init_output_pos_index E trees = init_pos_index E (output_ops E) oi_commit (pmmr_of (th_output trees)) (output_pos_iter (ce_db E))
     (get_output_pos_height (ce_db E)) is_match_output_pos_key (save_output_pos_height (ce_db E)) h_output_mmr_size"

definition init_token_output_pos_index :: "'d chain_env \<Rightarrow> txhashset \<Rightarrow> pmmr_handle \<Rightarrow> ('d batch, unit) work" where
  "init_token_output_pos_index E trees = init_pos_index E (token_output_ops E) toi_commit (pmmr_of (th_token_output trees))
     (token_output_pos_iter (ce_db E)) (get_token_output_pos_height (ce_db E)) is_match_token_output_pos_key
     (save_token_output_pos_height (ce_db E)) h_token_output_mmr_size"

section \<open>Running a unit of work\<close>

definition discard_header :: "header_extension \<Rightarrow> pmmr_handle \<Rightarrow> pmmr_handle" where
  "discard_header hx handle = handle\<lparr>ph_backend := pb_discard (backend (hx_pmmr hx))\<rparr>"

definition discard_trees :: "extension \<Rightarrow> txhashset \<Rightarrow> txhashset" where
  "discard_trees ex trees = trees\<lparr>
     th_output := (th_output trees)\<lparr>ph_backend := pb_discard (backend (ex_output ex))\<rparr>,
     th_rproof := (th_rproof trees)\<lparr>ph_backend := pb_discard (backend (ex_rproof ex))\<rparr>,
     th_kernel := (th_kernel trees)\<lparr>ph_backend := pb_discard (backend (ex_kernel ex))\<rparr>,
     th_token_output := (th_token_output trees)\<lparr>ph_backend := pb_discard (backend (ex_token_output ex))\<rparr>,
     th_token_rproof := (th_token_rproof trees)\<lparr>ph_backend := pb_discard (backend (ex_token_rproof ex))\<rparr>,
     th_issue := (th_issue trees)\<lparr>ph_backend := pb_discard (backend (ex_issue ex))\<rparr>,
     th_token_kernel := (th_token_kernel trees)\<lparr>ph_backend := pb_discard (backend (ex_token_kernel ex))\<rparr>\<rparr>"

text \<open>The handles own the backends the extension has changed; \<open>sync\<close> flushes one, and the sizes follow.\<close>

definition take_backends :: "extension \<Rightarrow> txhashset \<Rightarrow> txhashset" where
  "take_backends ex trees = trees\<lparr>
     th_output := (th_output trees)\<lparr>ph_backend := backend (ex_output ex)\<rparr>,
     th_rproof := (th_rproof trees)\<lparr>ph_backend := backend (ex_rproof ex)\<rparr>,
     th_kernel := (th_kernel trees)\<lparr>ph_backend := backend (ex_kernel ex)\<rparr>,
     th_token_output := (th_token_output trees)\<lparr>ph_backend := backend (ex_token_output ex)\<rparr>,
     th_token_rproof := (th_token_rproof trees)\<lparr>ph_backend := backend (ex_token_rproof ex)\<rparr>,
     th_issue := (th_issue trees)\<lparr>ph_backend := backend (ex_issue ex)\<rparr>,
     th_token_kernel := (th_token_kernel trees)\<lparr>ph_backend := backend (ex_token_kernel ex)\<rparr>\<rparr>"

definition sync_handle ::
  "(txhashset \<Rightarrow> pmmr_handle) \<Rightarrow> ((pmmr_handle \<Rightarrow> pmmr_handle) \<Rightarrow> txhashset \<Rightarrow> txhashset) \<Rightarrow> (txhashset, unit) work" where
  "sync_handle get upd trees =
    (case pb_sync (ph_backend (get trees)) of
       Inl _ \<Rightarrow> (Inl (TxHashSetMsg ''io''), trees)
     | Inr b \<Rightarrow> (Inr (), upd (ph_backend_update (\<lambda>_. b)) trees))"

definition set_size :: "((pmmr_handle \<Rightarrow> pmmr_handle) \<Rightarrow> txhashset \<Rightarrow> txhashset) \<Rightarrow> nat \<Rightarrow> (txhashset, unit) work" where
  "set_size upd n = wmod (upd (ph_last_pos_update (\<lambda>_. n)))"

definition sync_trees :: "extension \<Rightarrow> (txhashset, unit) work" where
  "sync_trees ex =
    wbind (wmod (take_backends ex)) (\<lambda>_.
    wbind (sync_handle th_output th_output_update) (\<lambda>_.
    wbind (sync_handle th_rproof th_rproof_update) (\<lambda>_.
    wbind (sync_handle th_kernel th_kernel_update) (\<lambda>_.
    wbind (set_size th_output_update (unpruned_size (ex_output ex))) (\<lambda>_.
    wbind (set_size th_rproof_update (unpruned_size (ex_rproof ex))) (\<lambda>_.
    wbind (set_size th_kernel_update (unpruned_size (ex_kernel ex))) (\<lambda>_.
    wbind (sync_handle th_token_output th_token_output_update) (\<lambda>_.
    wbind (sync_handle th_token_rproof th_token_rproof_update) (\<lambda>_.
    wbind (sync_handle th_issue th_issue_update) (\<lambda>_.
    wbind (sync_handle th_token_kernel th_token_kernel_update) (\<lambda>_.
    wbind (set_size th_token_output_update (unpruned_size (ex_token_output ex))) (\<lambda>_.
    wbind (set_size th_token_rproof_update (unpruned_size (ex_token_rproof ex))) (\<lambda>_.
    wbind (set_size th_issue_update (unpruned_size (ex_issue ex))) (\<lambda>_.
    wbind (set_size th_token_kernel_update (unpruned_size (ex_token_kernel ex))) (\<lambda>_.
      wmod (th_bitmap_update (\<lambda>_. ex_bitmap ex)))))))))))))))))"

text \<open>The header the header range ends with.\<close>

definition header_head_tip :: "'d chain_env \<Rightarrow> pmmr_handle \<Rightarrow> 'd batch \<Rightarrow> chain_error + tip" where
  "header_head_tip E handle b =
    rbind (head_hash E handle) (\<lambda>h.
    rbind (map_err StoreErr (get_block_header (ce_db E) h b)) (\<lambda>header. Inr (tip_of E header)))"

definition extending_readonly ::
  "'d chain_env \<Rightarrow> 'd store \<Rightarrow> ('d ext_state, 'a) work \<Rightarrow> (pmmr_handle \<times> txhashset, 'a) work" where
  "extending_readonly E st inner = (\<lambda>(handle, trees).
    let b = store_batch st in
    case rbind (map_err StoreErr (bt_head (ce_db E) b)) (\<lambda>head. rbind (header_head_tip E handle b) (\<lambda>header_head. Inr (head, header_head))) of
      Inl e \<Rightarrow> (Inl e, (handle, trees))
    | Inr (head, header_head) \<Rightarrow>
       (let (res, s) = inner \<lparr>xs_header = header_extension_new (pmmr_of handle) header_head, xs_ext = extension_new trees head, xs_batch = b\<rparr>
        in (res, (discard_header (xs_header s) handle, discard_trees (xs_ext s) trees))))"

definition th_utxo_view :: "'d store \<Rightarrow> (utxo_view \<Rightarrow> 'd batch \<Rightarrow> chain_error + 'a) \<Rightarrow> pmmr_handle \<Rightarrow> txhashset \<Rightarrow> chain_error + 'a" where
  "th_utxo_view st inner handle trees =
    inner \<lparr>uv_header = pmmr_of handle, uv_output = pmmr_of (th_output trees), uv_token_output = pmmr_of (th_token_output trees),
      uv_issue = pmmr_of (th_issue trees), uv_rproof = pmmr_of (th_rproof trees), uv_token_rproof = pmmr_of (th_token_rproof trees)\<rparr> (store_batch st)"

definition extending ::
  "'d chain_env \<Rightarrow> ('d ext_state, 'a) work \<Rightarrow> (pmmr_handle \<times> txhashset \<times> 'd batch, 'a) work" where
  "extending E inner = (\<lambda>(handle, trees, b).
    case rbind (map_err StoreErr (bt_head (ce_db E) b)) (\<lambda>head. rbind (header_head_tip E handle b) (\<lambda>header_head. Inr (head, header_head))) of
      Inl e \<Rightarrow> (Inl e, (handle, trees, b))
    | Inr (head, header_head) \<Rightarrow>
       (let (res, s) = inner \<lparr>xs_header = header_extension_new (pmmr_of handle) header_head, xs_ext = extension_new trees head,
              xs_batch = bx_child b\<rparr>;
            handle = discard_header (xs_header s) handle
        in case res of
             Inl e \<Rightarrow> (Inl e, (handle, discard_trees (xs_ext s) trees, b))
           | Inr r \<Rightarrow>
              if ex_rollback (xs_ext s) then (Inr r, (handle, discard_trees (xs_ext s) trees, b))
              else let (res, trees) = sync_trees (xs_ext s) trees
                   in (rbind res (\<lambda>_. Inr r), (handle, trees, bx_commit_child b (xs_batch s)))))"

definition header_extending ::
  "'d chain_env \<Rightarrow> (header_extension \<times> 'd batch, 'a) work \<Rightarrow> (pmmr_handle \<times> 'd batch, 'a) work" where
  "header_extending E inner = (\<lambda>(handle, b).
    let child = bx_child b in
    case (case head_hash E handle of
            Inr h \<Rightarrow> rbind (map_err StoreErr (get_block_header (ce_db E) h child)) (\<lambda>header. Inr (tip_of E header))
          | Inl _ \<Rightarrow> Inr tip_default) of
      Inl e \<Rightarrow> (Inl e, (handle, b))
    | Inr head \<Rightarrow>
       (let (res, (hx, child)) = inner (header_extension_new (pmmr_of handle) head, child)
        in case res of
             Inl e \<Rightarrow> (Inl e, (discard_header hx handle, b))
           | Inr r \<Rightarrow>
              if hx_rollback hx then (Inr r, (discard_header hx handle, b))
              else (case pb_sync (backend (hx_pmmr hx)) of
                      Inl _ \<Rightarrow> (Inl (TxHashSetMsg ''io''), (handle\<lparr>ph_backend := backend (hx_pmmr hx)\<rparr>, bx_commit_child b child))
                    | Inr be \<Rightarrow> (Inr r, (\<lparr>ph_backend = be, ph_last_pos = hx_size hx\<rparr>, bx_commit_child b child)))))"

end
