(* ===== verification/Pipe.thy ===== *)
theory Pipe
  imports Txhashset
begin

text \<open>
  The pipeline that accepts or refuses blocks and headers (\<open>chain/src/pipe.rs\<close>). A function of the pipeline is a state
  transformer on the context of a block: the header range, the hash set, the batch of the database and the cache of verified
  signatures and proofs. What a refused block leaves behind in them is the state returned next to the error.
\<close>

section \<open>The context\<close>

record ('d, 'c) block_context =
  bc_opts :: options
  bc_pow_verifier :: "block_header \<Rightarrow> (pow_error + unit) option"
  bc_trees :: txhashset
  bc_header :: pmmr_handle
  bc_batch :: "'d batch"
  bc_cache :: "'c verifier_cache"

definition bstore :: "('d batch \<Rightarrow> store_error + 'a) \<Rightarrow> (('d, 'c) block_context, 'a) work" where
  "bstore f = wread (\<lambda>c. map_err StoreErr (f (bc_batch c)))"

definition bsave :: "('d batch \<Rightarrow> 'd batch) \<Rightarrow> (('d, 'c) block_context, unit) work" where
  "bsave f = wmod (bc_batch_update f)"

definition ctx_extending :: "'d chain_env \<Rightarrow> ('d ext_state, 'a) work \<Rightarrow> (('d, 'c) block_context, 'a) work" where
  "ctx_extending E inner c =
    (let (r, (h, t, b)) = extending E inner (bc_header c, bc_trees c, bc_batch c)
     in (r, c\<lparr>bc_header := h, bc_trees := t, bc_batch := b\<rparr>))"

definition ctx_header_extending :: "'d chain_env \<Rightarrow> (header_extension \<times> 'd batch, 'a) work \<Rightarrow> (('d, 'c) block_context, 'a) work" where
  "ctx_header_extending E inner c =
    (let (r, (h, b)) = header_extending E inner (bc_header c, bc_batch c)
     in (r, c\<lparr>bc_header := h, bc_batch := b\<rparr>))"

section \<open>Merge mining\<close>

definition hex_digit :: "nat \<Rightarrow> char" where
  "hex_digit n = ''0123456789abcdef'' ! n"

definition to_hex :: "bytes \<Rightarrow> string" where
  "to_hex bs = concat (map (\<lambda>b. [hex_digit (unat b div 16), hex_digit (unat b mod 16)]) bs)"

definition get_grin_magic_data_str :: "hash \<Rightarrow> string" where
  "get_grin_magic_data_str h = to_hex [0x6a, 0x24] @ ''b9e11b6d'' @ to_hex h"

fun contains_str :: "string \<Rightarrow> string \<Rightarrow> bool" where
  "contains_str [] t = (t = [])"
| "contains_str (c # s) t = (take (length t) (c # s) = t \<or> contains_str s t)"

definition prev_header_store :: "'d chain_env \<Rightarrow> block_header \<Rightarrow> 'd batch \<Rightarrow> chain_error + block_header" where
  "prev_header_store E header b =
    map_err (\<lambda>e. case e of NotFoundErr \<Rightarrow> Orphan | _ \<Rightarrow> StoreErr e) (get_previous_header (ce_db E) header b)"

definition expected_bits :: "'d chain_env \<Rightarrow> block_header \<Rightarrow> (('d, 'c) block_context, u32) work" where
  "expected_bits E pre_header =
    (if (h_height pre_header + 1) mod DIFFICULTY_ADJUST_WINDOW \<noteq> 0 then wret (h_bits pre_header)
     else let start_height = (if h_height pre_header \<ge> DIFFICULTY_ADJUST_WINDOW - 1 then h_height pre_header - (DIFFICULTY_ADJUST_WINDOW - 1) else 0) in
       wbind (wread (\<lambda>c. get_header_hash_by_height E (bc_header c) start_height)) (\<lambda>start_hash.
       wbind (bstore (get_block_header (ce_db E) start_hash)) (\<lambda>start_head.
         wlift (case next_bit_difficulty (ce_ct E) (h_height pre_header) (h_bits pre_header) (h_timestamp pre_header) (h_timestamp start_head) of
                  None \<Rightarrow> Inl Panic | Some bits \<Rightarrow> Inr bits))))"

definition validate_block_auxdata :: "'d chain_env \<Rightarrow> block_header \<Rightarrow> bool \<Rightarrow> (('d, 'c) block_context, unit) work" where
  "validate_block_auxdata E bheader fast_validate =
    (let d = h_btc_pow bheader; sha = ce_sha E in
    if h_bits bheader > min_bit_diff (ce_ct E) then wlift (Inl BitDifficultyTooLow)
    else case compact_to_biguint (h_bits bheader) of
      None \<Rightarrow> wlift (Inl BitDifficultyTooLow)
    | Some target_diff \<Rightarrow>
       if hash_to_biguint (dhash sha (write_aux_bit_header (aux_header d))) > target_diff then wlift (Inl BitDifficultyTooLow)
       else if \<not> contains_str (to_hex (coinbase_tx d)) (get_grin_magic_data_str (header_hash E bheader)) then wlift (Inl InvalidCoinbase)
       else if foldl (\<lambda>h item. dhash_with sha h (write_hash item)) (dhash sha (coinbase_tx d)) (merkle_branch d) \<noteq> ab_merkle_root (aux_header d)
       then wlift (Inl InvalidMerklebranch)
       else if fast_validate then wret ()
       else wbind (wread (\<lambda>c. prev_header_store E bheader (bc_batch c))) (\<lambda>pre_header.
            wbind (expected_bits E pre_header) (\<lambda>nbits.
              if nbits \<noteq> h_bits bheader then wlift (Inl BadBitDiffbits) else wret ())))"

section \<open>Known blocks and headers\<close>

definition check_known_head :: "'d chain_env \<Rightarrow> block_header \<Rightarrow> (('d, 'c) block_context, unit) work" where
  "check_known_head E header =
    wbind (bstore (bt_head (ce_db E))) (\<lambda>head.
      if header_hash E header = t_last_block_h head \<or> header_hash E header = t_prev_block_h head
      then wlift (Inl (Unfit ''already known in head'')) else wret ())"

definition check_known_store :: "'d chain_env \<Rightarrow> block_header \<Rightarrow> (('d, 'c) block_context, unit) work" where
  "check_known_store E header =
    wbind (wread (\<lambda>c. Inr (block_exists (ce_db E) (header_hash E header) (bc_batch c)))) (\<lambda>known.
      if known
      then wbind (bstore (bt_head (ce_db E))) (\<lambda>head.
             if h_height header < sat_sub (t_height head) 50 then wlift (Inl OldBlock) else wlift (Inl (Unfit ''already known in store'')))
      else wret ())"

definition check_known :: "'d chain_env \<Rightarrow> block_header \<Rightarrow> (('d, 'c) block_context, unit) work" where
  "check_known E header = wbind (check_known_head E header) (\<lambda>_. check_known_store E header)"

definition has_more_work :: "block_header \<Rightarrow> tip \<Rightarrow> bool" where
  "has_more_work header head \<longleftrightarrow> h_height header > t_height head"

definition validate_pow_only :: "'d chain_env \<Rightarrow> block_header \<Rightarrow> (('d, 'c) block_context, unit) work" where
  "validate_pow_only E header =
    (if h_height header \<ge> refactor_header_height (ce_ct E) then validate_block_auxdata E header True
     else wbind (wread (\<lambda>c.
       if options_contains (bc_opts c) SKIP_POW then Inr ()
       else if \<not> is_primary (h_pow header) \<and> \<not> is_secondary (h_pow header) then Inl LowEdgebits
       else (case bc_pow_verifier c header of
               None \<Rightarrow> Inl Panic
             | Some (Inl _) \<Rightarrow> Inl InvalidPow
             | Some (Inr _) \<Rightarrow> Inr ()))) (\<lambda>_. wret ()))"

section \<open>Headers\<close>

text \<open>The iterator over the difficulties is never asked for an item by \<open>next_difficulty\<close>.\<close>

definition validate_difficulty :: "'d chain_env \<Rightarrow> block_header \<Rightarrow> block_header \<Rightarrow> chain_error + unit" where
  "validate_difficulty E header prev =
    (if header_total_difficulty header \<le> header_total_difficulty prev then Inl DifficultyTooLow
     else let target_difficulty = header_total_difficulty header - header_total_difficulty prev
          in if pow_to_difficulty (ce_blake E) (h_pow header) (h_height header) < target_difficulty then Inl DifficultyTooLow
             else let next_header_info = next_difficulty (h_height header) []
                  in if target_difficulty \<noteq> hi_difficulty next_header_info then Inl WrongTotalDifficulty
                     else if secondary_scaling (h_pow header) \<noteq> hi_secondary_scaling next_header_info then Inl InvalidScaling
                     else Inr ())"

definition validate_header :: "'d chain_env \<Rightarrow> block_header \<Rightarrow> (('d, 'c) block_context, unit) work" where
  "validate_header E header =
    wbind (wread (\<lambda>c. prev_header_store E header (bc_batch c))) (\<lambda>prev.
    if h_height header \<noteq> h_height prev + 1 then wlift (Inl InvalidBlockHeight)
    else if \<not> valid_header_version (ce_ct E) (h_height header) (h_version header) then wlift (Inl (InvalidBlockVersion (h_version header)))
    else if sint (h_timestamp header) \<le> sint (h_timestamp prev) then wlift (Inl InvalidBlockTime)
    else if is_production_mode (ce_ct E) \<and> header_total_difficulty header \<noteq> h_height header + 1 then wlift (Inl WrongTotalDifficulty)
    else wbind (wread (\<lambda>c. Inr (options_contains (bc_opts c) SKIP_POW))) (\<lambda>skip.
      if skip then wret ()
      else if h_height header \<ge> refactor_header_height (ce_ct E) then validate_block_auxdata E header False
      else wbind (validate_pow_only E header) (\<lambda>_. wlift (validate_difficulty E header prev))))"

definition add_block_header :: "'d chain_env \<Rightarrow> block_header \<Rightarrow> (('d, 'c) block_context, unit) work" where
  "add_block_header E bh = bsave (save_block_header (ce_db E) bh)"

text \<open>Going back from \<open>header\<close> to the header range: the hashes passed, last first, and the header that is on the chain.\<close>

definition find_header_fork ::
  "'d chain_env \<Rightarrow> block_header \<Rightarrow> (header_extension \<times> 'd batch, block_header \<times> hash list) work" where
  "find_header_fork E header =
    wloop (\<lambda>(current, fork_hashes) (hx, b). h_height current > 0 \<and> \<not> is_ok (is_on_current_chain E hx current b))
      (\<lambda>(current, fork_hashes).
        wbind (wread (\<lambda>(hx, b). map_err StoreErr (get_previous_header (ce_db E) current b))) (\<lambda>prev.
          wret (prev, fork_hashes @ [header_hash E current])))
      (header, [])"

definition whx :: "(header_extension \<Rightarrow> chain_error + header_extension) \<Rightarrow> (header_extension \<times> 'd batch, unit) work" where
  "whx f = (\<lambda>(hx, b). case f hx of Inl e \<Rightarrow> (Inl e, (hx, b)) | Inr hx \<Rightarrow> (Inr (), (hx, b)))"

definition rewind_and_apply_header_fork :: "'d chain_env \<Rightarrow> block_header \<Rightarrow> (header_extension \<times> 'd batch, unit) work" where
  "rewind_and_apply_header_fork E header =
    wbind (find_header_fork E header) (\<lambda>(forked_header, fork_hashes).
    wbind (whx (hx_rewind E forked_header)) (\<lambda>_.
    wbind (wfor (\<lambda>h.
        wbind (wread (\<lambda>(hx, b). map_err StoreErr (get_block_header (ce_db E) h b))) (\<lambda>header.
        wbind (wread (\<lambda>(hx, b). hx_validate_root E hx header)) (\<lambda>_. whx (hx_apply_header E header)))) (rev fork_hashes)) (\<lambda>_.
      wret ())))"

definition process_block_header :: "'d chain_env \<Rightarrow> block_header \<Rightarrow> (('d, 'c) block_context, unit) work" where
  "process_block_header E header =
    wbind (bstore (get_previous_header (ce_db E) header)) (\<lambda>prev_header.
    wbind (wread (\<lambda>c. Inr (is_ok (fst (check_known E header c))))) (\<lambda>unknown.
    if \<not> unknown then wret ()
    else wbind (wread (\<lambda>c. header_head_tip E (bc_header c) (bc_batch c))) (\<lambda>header_head.
      wbind (wread (\<lambda>c. Inr (get_block_header (ce_db E) (header_hash E header) (bc_batch c)))) (\<lambda>existing.
      if (case existing of Inr existing \<Rightarrow> \<not> has_more_work existing header_head | Inl _ \<Rightarrow> False) then wret ()
      else
        wbind (ctx_header_extending E
          (wbind (rewind_and_apply_header_fork E prev_header) (\<lambda>_.
           wbind (wread (\<lambda>(hx, b). hx_validate_root E hx header)) (\<lambda>_.
           wbind (whx (hx_apply_header E header)) (\<lambda>_.
           if \<not> has_more_work header header_head then whx (\<lambda>hx. Inr (hx\<lparr>hx_rollback := True\<rparr>)) else wret ()))))) (\<lambda>_.
        wbind (validate_header E header) (\<lambda>_.
          add_block_header E header))))))"

definition sync_block_headers :: "'d chain_env \<Rightarrow> block_header list \<Rightarrow> (('d, 'c) block_context, unit) work" where
  "sync_block_headers E headers =
    (if headers = [] then wret ()
     else let last_header = last headers in
      wbind (wread (\<lambda>c. header_head_tip E (bc_header c) (bc_batch c))) (\<lambda>sync_head.
      wbind (wread (\<lambda>c. Inr (get_block_header (ce_db E) (header_hash E last_header) (bc_batch c)))) (\<lambda>existing.
      if (case existing of Inr existing \<Rightarrow> \<not> has_more_work existing sync_head | Inl _ \<Rightarrow> False) then wret ()
      else
        wbind (wfor (\<lambda>header. wbind (validate_header E header) (\<lambda>_. add_block_header E header)) headers) (\<lambda>_.
          ctx_header_extending E (rewind_and_apply_header_fork E last_header)))))"

section \<open>Blocks\<close>

definition validate_block :: "'d chain_env \<Rightarrow> 'c lru_ops \<Rightarrow> block \<Rightarrow> (('d, 'c) block_context, unit) work" where
  "validate_block E L bl =
    wbind (bstore (get_previous_header (ce_db E) (b_header bl))) (\<lambda>prev.
      (\<lambda>c. let (res, vc) = block_validate (ce_ct E) (ce_blake E) (ce_secp E) L bl (h_total_kernel_offset prev) (bc_cache c)
            in (rbind (map_err InvalidBlockProof res) (\<lambda>_. Inr ()), c\<lparr>bc_cache := vc\<rparr>)))"

definition verify_coinbase_maturity :: "'d chain_env \<Rightarrow> block \<Rightarrow> ('d ext_state, unit) work" where
  "verify_coinbase_maturity E bl = wread (\<lambda>s.
    uv_verify_coinbase_maturity E (ex_utxo_view (xs_ext s) (xs_header s)) (b_inputs (b_body bl)) (h_height (b_header bl)) (xs_batch s))"

definition validate_utxo :: "'d chain_env \<Rightarrow> block \<Rightarrow> ('d ext_state, unit) work" where
  "validate_utxo E bl = wread (\<lambda>s. uv_validate_block E (ex_utxo_view (xs_ext s) (xs_header s)) (xs_batch s) bl)"

definition verify_block_sums :: "'d chain_env \<Rightarrow> block \<Rightarrow> ('d ext_state, unit) work" where
  "verify_block_sums E bl =
    wbind (wstore (get_block_sums (ce_db E) (h_prev_hash (b_header bl)))) (\<lambda>sums_before.
    wbind (wlift (map_err Committed (verify_kernel_sums (ce_secp E) (with_block_sums sums_before (body_committed (b_body bl)))
        (header_overage (ce_ct E) (b_header bl)) (h_total_kernel_offset (b_header bl))))) (\<lambda>(us, ks).
      wbatch (save_block_sums (ce_db E) (hash_block (ce_ct E) (ce_blake E) bl) \<lparr>utxo_sum = us, kernel_sum = ks\<rparr>)))"

definition verify_block_token_sums :: "'d chain_env \<Rightarrow> block \<Rightarrow> ('d ext_state, unit) work" where
  "verify_block_token_sums E bl =
    wbind (wstore (get_block_token_sums (ce_db E) (h_prev_hash (b_header bl)))) (\<lambda>sums_before.
    wbind (wlift (map_err Committed (verify_token_kernel_sum (ce_secp E) (with_block_token_sums sums_before (body_committed (b_body bl)))))) (\<lambda>ts.
      wbatch_try (save_block_token_sums (ce_db E) (hash_block (ce_ct E) (ce_blake E) bl) ts)))"

definition apply_block_to_txhashset :: "'d chain_env \<Rightarrow> block \<Rightarrow> ('d ext_state, unit) work" where
  "apply_block_to_txhashset E bl =
    wbind (apply_block E bl) (\<lambda>_.
    wbind (wread (\<lambda>s. validate_roots E (xs_ext s) (b_header bl))) (\<lambda>_.
      wread (\<lambda>s. validate_sizes (xs_ext s) (b_header bl))))"

definition on_header :: "(header_extension \<times> 'd batch, 'a) work \<Rightarrow> ('d ext_state, 'a) work" where
  "on_header m s = (let (r, (hx, b)) = m (xs_header s, xs_batch s) in (r, s\<lparr>xs_header := hx, xs_batch := b\<rparr>))"

text \<open>The checks of a block in the context of the state before it, and its application.\<close>

definition check_and_apply :: "'d chain_env \<Rightarrow> block \<Rightarrow> ('d ext_state, unit) work" where
  "check_and_apply E bl =
    wbind (verify_coinbase_maturity E bl) (\<lambda>_.
    wbind (validate_utxo E bl) (\<lambda>_.
    wbind (verify_block_sums E bl) (\<lambda>_.
    wbind (verify_block_token_sums E bl) (\<lambda>_.
      apply_block_to_txhashset E bl))))"

definition rewind_and_apply_fork :: "'d chain_env \<Rightarrow> block_header \<Rightarrow> ('d ext_state, unit) work" where
  "rewind_and_apply_fork E header =
    wbind (on_header (rewind_and_apply_header_fork E header)) (\<lambda>_.
    wbind (wstore (bt_head_header (ce_db E))) (\<lambda>head_header.
    wbind (wloop (\<lambda>current s. h_height current > 0 \<and> \<not> is_ok (is_on_current_chain E (xs_header s) current (xs_batch s)))
        (\<lambda>current. wstore (get_previous_header (ce_db E) current)) head_header) (\<lambda>fork_point.
    wbind (ex_rewind E fork_point) (\<lambda>_.
    wbind (wloop (\<lambda>(current, fork_hashes) s. h_height current > h_height fork_point)
        (\<lambda>(current, fork_hashes). wbind (wstore (get_previous_header (ce_db E) current)) (\<lambda>prev.
          wret (prev, fork_hashes @ [header_hash E current]))) (header, [])) (\<lambda>(_, fork_hashes).
    wbind (wfor (\<lambda>h. wbind (wstore (get_block (ce_db E) h)) (check_and_apply E)) (rev fork_hashes)) (\<lambda>_.
      wret ()))))))"

definition add_block :: "'d chain_env \<Rightarrow> block \<Rightarrow> (('d, 'c) block_context, unit) work" where
  "add_block E bl = bsave (save_block (ce_db E) bl)"

definition update_body_tail :: "'d chain_env \<Rightarrow> block_header \<Rightarrow> (('d, 'c) block_context, unit) work" where
  "update_body_tail E bh = bsave (save_body_tail (ce_db E) (tip_of E bh))"

definition update_head :: "'d chain_env \<Rightarrow> tip \<Rightarrow> (('d, 'c) block_context, unit) work" where
  "update_head E t = bsave (save_body_head (ce_db E) t)"

definition process_block :: "'d chain_env \<Rightarrow> 'c lru_ops \<Rightarrow> block \<Rightarrow> (('d, 'c) block_context, tip option) work" where
  "process_block E L bl =
    (let header = b_header bl in
    wbind (check_known E header) (\<lambda>_.
    wbind (validate_pow_only E header) (\<lambda>_.
    wbind (bstore (bt_head (ce_db E))) (\<lambda>head.
    wbind (wread (\<lambda>c. prev_header_store E header (bc_batch c))) (\<lambda>prev.
    wbind (wread (\<lambda>c. if h_prev_hash header \<noteq> t_last_block_h head \<and> \<not> block_exists (ce_db E) (header_hash E prev) (bc_batch c)
        then Inl Orphan else Inr ())) (\<lambda>_.
    wbind (if h_height header < refactor_header_height (ce_ct E)
           then validate_block_auxdata E (header\<lparr>h_btc_pow := b_aux_data bl\<rparr>) False else wret ()) (\<lambda>_.
    wbind (process_block_header E header) (\<lambda>_.
    wbind (validate_block E L bl) (\<lambda>_.
    wbind (ctx_extending E
      (wbind (rewind_and_apply_fork E prev) (\<lambda>_.
       wbind (check_and_apply E bl) (\<lambda>_.
       wbind (wstore (bt_head (ce_db E))) (\<lambda>head.
       if \<not> has_more_work header head then force_rollback else wret ()))))) (\<lambda>_.
    wbind (add_block E bl) (\<lambda>_.
    wbind (wread (\<lambda>c. Inr (is_ok (bt_tail (ce_db E) (bc_batch c))))) (\<lambda>has_tail.
    wbind (if \<not> has_tail then update_body_tail E header else wret ()) (\<lambda>_.
    if has_more_work header head
    then wbind (update_head E (tip_of E header)) (\<lambda>_. wret (Some (tip_of E header)))
    else wret None)))))))))))))"

end
