(* ===== verification/Spec2Isabelle.thy ===== *)
theory Spec2Isabelle
  imports Compact_Block Pipe
begin

text \<open>
  A verification library for the vcash node, a Mimblewimble block chain with tokens (Rust, \<open>src/\<close>).
\<close>

end
